(* ===== verification/Redis_Prelude.thy ===== *)
theory Redis_Prelude
  imports Main "HOL-Library.Word" "HOL-Library.Monad_Syntax"
begin

text \<open>
  Shared vocabulary of the development: the machine types of the C code, byte buffers with
  checked accesses, the little-endian and two's complement codecs that the serialised
  encodings (intset, listpack) are made of, and the list lemmas the components share.

  A C memory block is a list of bytes and a pointer into it is an offset. A computation that
  may stop the server (a failed assertion) or touch memory outside its block returns
  \<open>None\<close>; so a theorem of the form \<open>f x = Some y\<close> says, besides what \<open>f\<close>
  returns, that no assertion fails and that every access is inside the block.
\<close>

unbundle bit_operations_syntax

type_synonym u8 = "8 word"
type_synonym u16 = "16 word"
type_synonym u32 = "32 word"
type_synonym u64 = "64 word"
type_synonym bytes = "u8 list"

named_theorems codec_simps \<open>rewriting of the byte codecs\<close>
named_theorems mem_simps \<open>evaluation of in-range memory accesses\<close>

section \<open>Machine integers kept as numbers\<close>

text \<open>
  Unsigned sizes and counters are natural numbers. Where the C type can wrap, the
  wrap-around is written out with the following operations on \<open>w\<close>-bit values.
\<close>

definition wadd :: "nat \<Rightarrow> nat \<Rightarrow> nat \<Rightarrow> nat" where
  "wadd w a b = (a + b) mod 2 ^ w"

definition wsub :: "nat \<Rightarrow> nat \<Rightarrow> nat \<Rightarrow> nat" where
  "wsub w a b = (a + (2 ^ w - b mod 2 ^ w)) mod 2 ^ w"

lemma wadd_exact [simp]: "a + b < 2 ^ w \<Longrightarrow> wadd w a b = a + b"
  by (simp add: wadd_def)

lemma wsub_exact [simp]:
  assumes "b \<le> a" and "a < 2 ^ w"
  shows "wsub w a b = a - b"
proof -
  have "b mod 2 ^ w = b" using assms by simp
  moreover have "a + (2 ^ w - b) = (a - b) + 2 ^ w" using assms by simp
  ultimately have "wsub w a b = (a - b + 2 ^ w) mod 2 ^ w" by (simp only: wsub_def)
  also have "\<dots> = (a - b) mod 2 ^ w" by (rule mod_add_self2)
  also have "\<dots> = a - b" using assms by (intro mod_less) simp
  finally show ?thesis .
qed

definition is_int64 :: "int \<Rightarrow> bool" where
  "is_int64 v \<longleftrightarrow> - (2 ^ 63) \<le> v \<and> v < 2 ^ 63"

text \<open>Two's complement reading of a \<open>w\<close>-bit pattern, and the pattern of a value.\<close>

definition to_signed :: "nat \<Rightarrow> nat \<Rightarrow> int" where
  "to_signed w u = (if u < 2 ^ (w - 1) then int u else int u - 2 ^ w)"

definition of_signed :: "nat \<Rightarrow> int \<Rightarrow> nat" where
  "of_signed w v = nat (v mod 2 ^ w)"

lemma of_signed_less [simp]: "of_signed w v < 2 ^ w"
proof -
  have "v mod 2 ^ w < 2 ^ w" "0 \<le> v mod 2 ^ w" by simp_all
  then show ?thesis by (simp add: of_signed_def nat_less_iff)
qed

lemma of_signed_nonneg: "0 \<le> v \<Longrightarrow> v < 2 ^ w \<Longrightarrow> of_signed w v = nat v"
  by (simp add: of_signed_def)

lemma of_signed_neg:
  assumes "v < 0" and "- (2 ^ w) \<le> v"
  shows "int (of_signed w v) = v + 2 ^ w"
proof -
  have "v mod 2 ^ w = (v + 2 ^ w) mod 2 ^ w" by simp
  also have "\<dots> = v + 2 ^ w" using assms by (intro mod_pos_pos_trivial) auto
  finally show ?thesis using assms by (simp add: of_signed_def)
qed

lemma two_power_pred: "0 < w \<Longrightarrow> (2::int) ^ w = 2 * 2 ^ (w - 1)"
  by (cases w) auto

lemma to_of_signed [codec_simps]:
  assumes "0 < w" and "- (2 ^ (w - 1)) \<le> v" and "v < 2 ^ (w - 1)"
  shows "to_signed w (of_signed w v) = v"
proof (cases "v < 0")
  case True
  have e: "int (of_signed w v) = v + 2 ^ w"
    using True assms two_power_pred [OF assms(1)] by (intro of_signed_neg) auto
  have "\<not> of_signed w v < 2 ^ (w - 1)"
  proof
    assume "of_signed w v < 2 ^ (w - 1)"
    then have "int (of_signed w v) < 2 ^ (w - 1)"
      by (metis of_nat_less_iff of_nat_numeral of_nat_power)
    then show False using e assms two_power_pred [OF assms(1)] by simp
  qed
  then show ?thesis using e by (simp add: to_signed_def)
next
  case False
  then have "of_signed w v = nat v"
    using assms two_power_pred [OF assms(1)] by (intro of_signed_nonneg) auto
  moreover have "nat v < 2 ^ (w - 1)"
    using False assms(3) by (simp add: nat_less_iff)
  ultimately show ?thesis using False by (simp add: to_signed_def)
qed

lemma of_to_signed [codec_simps]:
  assumes "0 < w" and "u < 2 ^ w"
  shows "of_signed w (to_signed w u) = u"
proof -
  have "int u < 2 ^ w" using assms(2) by (metis of_nat_less_iff of_nat_numeral of_nat_power)
  then have "int u mod 2 ^ w = int u" and "(int u - 2 ^ w) mod 2 ^ w = int u"
    by (simp_all add: mod_diff_right_eq [symmetric])
  then show ?thesis by (simp add: to_signed_def of_signed_def)
qed

lemma to_signed_bounds:
  assumes "0 < w" and "u < 2 ^ w"
  shows "- (2 ^ (w - 1)) \<le> to_signed w u \<and> to_signed w u < 2 ^ (w - 1)"
proof -
  have "int u < 2 ^ w" using assms(2) by (metis of_nat_less_iff of_nat_numeral of_nat_power)
  moreover have "u < 2 ^ (w - 1) \<longleftrightarrow> int u < 2 ^ (w - 1)"
    by (metis of_nat_less_iff of_nat_numeral of_nat_power)
  ultimately show ?thesis
    using two_power_pred [OF assms(1)] by (simp add: to_signed_def)
qed

section \<open>Byte buffers\<close>

definition rd :: "'a list \<Rightarrow> nat \<Rightarrow> 'a option" where
  "rd m i = (if i < length m then Some (m ! i) else None)"

definition wr :: "'a list \<Rightarrow> nat \<Rightarrow> 'a \<Rightarrow> 'a list option" where
  "wr m i b = (if i < length m then Some (m[i := b]) else None)"

text \<open>A block of \<open>n\<close> bytes read from, or written to, offset \<open>i\<close> (memcpy).\<close>

definition mem_read :: "'a list \<Rightarrow> nat \<Rightarrow> nat \<Rightarrow> 'a list option" where
  "mem_read m i n = (if i + n \<le> length m then Some (take n (drop i m)) else None)"

definition mem_write :: "'a list \<Rightarrow> nat \<Rightarrow> 'a list \<Rightarrow> 'a list option" where
  "mem_write m i xs =
     (if i + length xs \<le> length m then Some (take i m @ xs @ drop (i + length xs) m) else None)"

text \<open>\<open>memmove\<close> inside one block: the source is read before anything is written.\<close>

definition mem_move :: "'a list \<Rightarrow> nat \<Rightarrow> nat \<Rightarrow> nat \<Rightarrow> 'a list option" where
  "mem_move m dst src n = do { xs \<leftarrow> mem_read m src n; mem_write m dst xs }"

definition c_assert :: "bool \<Rightarrow> unit option" where
  "c_assert b = (if b then Some () else None)"

text \<open>
  \<open>zrealloc\<close> keeps the common prefix; the bytes of a grown block past the old end are
  not initialised. They are given by a parameter \<open>junk\<close> that every theorem leaves
  arbitrary.
\<close>

definition realloc :: "(nat \<Rightarrow> 'a) \<Rightarrow> 'a list \<Rightarrow> nat \<Rightarrow> 'a list" where
  "realloc junk m n = take n m @ map junk [length m..<n]"

lemma rd_Some [mem_simps]: "i < length m \<Longrightarrow> rd m i = Some (m ! i)"
  by (simp add: rd_def)

lemma rd_append_right [mem_simps]: "i = length xs \<Longrightarrow> rd (xs @ y # ys) i = Some y"
  by (simp add: rd_def)

lemma wr_Some [mem_simps]: "i < length m \<Longrightarrow> wr m i b = Some (m[i := b])"
  by (simp add: wr_def)

lemma mem_read_middle [mem_simps]:
  "i = length xs \<Longrightarrow> n = length ys \<Longrightarrow> mem_read (xs @ ys @ zs) i n = Some ys"
  by (simp add: mem_read_def)

lemma mem_read_length: "mem_read m i n = Some xs \<Longrightarrow> length xs = n"
  by (auto simp: mem_read_def split: if_splits)

lemma mem_write_middle [mem_simps]:
  "i = length xs \<Longrightarrow> length ys' = length ys \<Longrightarrow>
   mem_write (xs @ ys @ zs) i ys' = Some (xs @ ys' @ zs)"
  by (simp add: mem_write_def)

lemma mem_write_length: "mem_write m i xs = Some m' \<Longrightarrow> length m' = length m"
  by (auto simp: mem_write_def split: if_splits)

lemma c_assert_True [simp]: "c_assert True = Some ()"
  by (simp add: c_assert_def)

lemma length_realloc [simp]: "length (realloc junk m n) = n"
  by (simp add: realloc_def)

lemma realloc_same [simp]: "realloc junk m (length m) = m"
  by (simp add: realloc_def)

lemma realloc_grow: "length m \<le> n \<Longrightarrow> realloc junk m n = m @ map junk [length m..<n]"
  by (simp add: realloc_def)

lemma realloc_shrink: "n \<le> length m \<Longrightarrow> realloc junk m n = take n m"
  by (simp add: realloc_def)

section \<open>Little-endian numbers\<close>

primrec le_nat :: "bytes \<Rightarrow> nat" where
  "le_nat [] = 0"
| "le_nat (b # bs) = unat b + 256 * le_nat bs"

primrec le_bytes :: "nat \<Rightarrow> nat \<Rightarrow> bytes" where
  "le_bytes 0 v = []"
| "le_bytes (Suc n) v = of_nat (v mod 256) # le_bytes n (v div 256)"

lemma length_le_bytes [simp]: "length (le_bytes n v) = n"
  by (induction n arbitrary: v) auto

lemma le_bytes_numeral:
  "le_bytes (numeral k) v = of_nat (v mod 256) # le_bytes (pred_numeral k) (v div 256)"
  by (simp only: numeral_eq_Suc [of k] le_bytes.simps)

lemma unat_u8_less [simp]: "unat (b :: u8) < 256"
  using unsigned_less [of b] by simp

lemma le_nat_less: "le_nat bs < 256 ^ length bs"
proof (induction bs)
  case Nil
  then show ?case by simp
next
  case (Cons b bs)
  have "unat b + 256 * le_nat bs < 256 + 256 * le_nat bs" by simp
  also have "\<dots> = 256 * (le_nat bs + 1)" by simp
  also have "\<dots> \<le> 256 * 256 ^ length bs" using Cons by (intro mult_le_mono2) simp
  finally show ?case by simp
qed

lemma unat_of_nat_u8 [simp]: "unat (of_nat n :: u8) = n mod 256"
  by (simp add: unat_of_nat)

lemma le_nat_le_bytes [codec_simps]: "le_nat (le_bytes n v) = v mod 256 ^ n"
proof (induction n arbitrary: v)
  case 0
  then show ?case by simp
next
  case (Suc n)
  have "v mod (256 * 256 ^ n) = v mod 256 + 256 * (v div 256 mod 256 ^ n)"
    by (simp add: mod_mult2_eq)
  then show ?case by (simp add: Suc)
qed

lemma le_bytes_le_nat [codec_simps]: "length bs = n \<Longrightarrow> le_bytes n (le_nat bs) = bs"
proof (induction n arbitrary: bs)
  case 0
  then show ?case by simp
next
  case (Suc n)
  then obtain b cs where bs: "bs = b # cs" and cs: "length cs = n"
    by (cases bs) auto
  have "(unat b + 256 * le_nat cs) mod 256 = unat b"
    by (simp add: mod_mult_self2 [of "unat b" 256 "le_nat cs", simplified mult.commute])
  moreover have "(unat b + 256 * le_nat cs) div 256 = le_nat cs"
    by simp
  ultimately show ?case using Suc.IH [OF cs] bs by simp
qed

text \<open>A signed integer of \<open>n\<close> bytes, stored little-endian.\<close>

definition le_int :: "bytes \<Rightarrow> int" where
  "le_int bs = to_signed (8 * length bs) (le_nat bs)"

definition le_int_bytes :: "nat \<Rightarrow> int \<Rightarrow> bytes" where
  "le_int_bytes n v = le_bytes n (of_signed (8 * n) v)"

lemma length_le_int_bytes [simp]: "length (le_int_bytes n v) = n"
  by (simp add: le_int_bytes_def)

lemma pow256: "(256::nat) ^ n = 2 ^ (8 * n)"
  by (simp add: power_mult)

lemma le_int_le_int_bytes [codec_simps]:
  assumes "0 < n" and "- (2 ^ (8 * n - 1)) \<le> v" and "v < 2 ^ (8 * n - 1)"
  shows "le_int (le_int_bytes n v) = v"
  using assms by (simp add: le_int_def le_int_bytes_def le_nat_le_bytes pow256 to_of_signed)

lemma le_int_bytes_le_int [codec_simps]:
  "0 < n \<Longrightarrow> length bs = n \<Longrightarrow> le_int_bytes n (le_int bs) = bs"
  using le_nat_less [of bs]
  by (simp add: le_int_def le_int_bytes_def of_to_signed pow256 le_bytes_le_nat)

text \<open>A fact about all bytes is checked by running through the 256 of them.\<close>

lemma u8_all: "(\<forall>b::u8. P b) \<longleftrightarrow> list_all (\<lambda>n. P (word_of_int n)) [0..255]"
proof -
  have "b \<in> word_of_int ` {0..255}" for b :: u8
  proof -
    have "uint b < 2 ^ LENGTH(8)" by (rule unsigned_less)
    then show ?thesis by (intro image_eqI [of _ _ "uint b"]) auto
  qed
  then have "(\<forall>b::u8. P b) \<longleftrightarrow> (\<forall>n\<in>{0..255}. P (word_of_int n))" by (metis imageE)
  then show ?thesis by (simp add: list_all_iff)
qed

section \<open>Arrays of fixed-size records\<close>

text \<open>
  A block that holds \<open>n\<close>-byte records one after the other is
  \<open>concat (map f vs)\<close> for an encoding \<open>f\<close> of width \<open>n\<close>.
\<close>

definition fixed_width :: "nat \<Rightarrow> ('a \<Rightarrow> 'b list) \<Rightarrow> bool" where
  "fixed_width n f \<longleftrightarrow> (\<forall>v. length (f v) = n)"

lemma fixed_widthD: "fixed_width n f \<Longrightarrow> length (f v) = n"
  by (simp add: fixed_width_def)

lemma length_records [simp]: "fixed_width n f \<Longrightarrow> length (concat (map f vs)) = length vs * n"
  by (induction vs) (auto simp: fixed_width_def)

lemma take_records:
  "fixed_width n f \<Longrightarrow> take (i * n) (concat (map f vs)) = concat (map f (take i vs))"
proof (induction vs arbitrary: i)
  case Nil
  then show ?case by simp
next
  case (Cons v vs)
  then show ?case by (cases i) (auto simp: fixed_width_def)
qed

lemma drop_records:
  "fixed_width n f \<Longrightarrow> drop (i * n) (concat (map f vs)) = concat (map f (drop i vs))"
proof (induction vs arbitrary: i)
  case Nil
  then show ?case by simp
next
  case (Cons v vs)
  then show ?case by (cases i) (auto simp: fixed_width_def)
qed

lemma records_split:
  assumes "i < length vs"
  shows "concat (map f vs) =
    concat (map f (take i vs)) @ f (vs ! i) @ concat (map f (drop (Suc i) vs))"
proof -
  have "concat (map f (take i vs @ vs ! i # drop (Suc i) vs)) =
      concat (map f (take i vs)) @ f (vs ! i) @ concat (map f (drop (Suc i) vs))"
    by simp
  then show ?thesis by (simp only: id_take_nth_drop [OF assms, symmetric])
qed

lemma mem_read_record:
  assumes "fixed_width n f" and "i < length vs"
  shows "mem_read (concat (map f vs) @ rest) (i * n) n = Some (f (vs ! i))"
proof -
  have "concat (map f vs) = concat (map f (take i vs)) @ f (vs ! i) @ concat (map f (drop (Suc i) vs))"
    using assms(2) by (rule records_split)
  moreover have "i * n = length (concat (map f (take i vs)))" "n = length (f (vs ! i))"
    using assms by (simp_all add: fixed_widthD)
  ultimately show ?thesis
    by (simp only: append_assoc mem_read_middle)
qed

lemma mem_write_record:
  assumes "fixed_width n f" and "i < length vs"
  shows "mem_write (concat (map f vs)) (i * n) (f v) = Some (concat (map f (vs[i := v])))"
proof -
  have "concat (map f vs) = concat (map f (take i vs)) @ f (vs ! i) @ concat (map f (drop (Suc i) vs))"
    using assms(2) by (rule records_split)
  moreover have "i * n = length (concat (map f (take i vs)))" "length (f v) = length (f (vs ! i))"
    using assms by (simp_all add: fixed_widthD)
  moreover have "concat (map f (vs[i := v])) =
      concat (map f (take i vs)) @ f v @ concat (map f (drop (Suc i) vs))"
    using assms(2) by (simp add: upd_conv_take_nth_drop)
  ultimately show ?thesis by (simp only: mem_write_middle)
qed

text \<open>Moving the records from index \<open>i\<close> on by one place, up or down.\<close>

lemma mem_move_records_up:
  assumes "fixed_width n f" and "i \<le> length vs" and "length slot = n"
  shows "\<exists>gap. length gap = n \<and>
    mem_move (concat (map f vs) @ slot) ((i + 1) * n) (i * n) ((length vs - i) * n) =
      Some (concat (map f (take i vs)) @ gap @ concat (map f (drop i vs)))"
proof -
  define A B where "A = concat (map f (take i vs))" and "B = concat (map f (drop i vs))"
  have m: "concat (map f vs) = A @ B"
    by (simp add: A_def B_def flip: concat_append map_append)
  have l: "length A = i * n" "length B = (length vs - i) * n"
    using assms by (simp_all add: A_def B_def)
  define C where "C = B @ slot"
  have lc: "length C = n + length B" using assms by (simp add: C_def)
  have "mem_read (A @ C) (i * n) ((length vs - i) * n) = Some B"
    using l by (simp add: mem_read_def C_def)
  moreover have "mem_write (A @ C) ((i + 1) * n) B = Some (A @ take n C @ B)"
    using l lc by (simp add: mem_write_def algebra_simps)
  ultimately show ?thesis
    using lc by (intro exI [of _ "take n C"]) (simp add: mem_move_def m C_def A_def B_def)
qed

lemma mem_move_records_down:
  assumes "fixed_width n f" and "i < length vs"
  shows "\<exists>slot. length slot = n \<and>
    mem_move (concat (map f vs)) (i * n) ((i + 1) * n) ((length vs - (i + 1)) * n) =
      Some (concat (map f (take i vs)) @ concat (map f (drop (Suc i) vs)) @ slot)"
proof -
  define A B where "A = concat (map f (take i vs))" and "B = concat (map f (drop (Suc i) vs))"
  have m: "concat (map f vs) = A @ f (vs ! i) @ B"
    unfolding A_def B_def using assms(2) by (rule records_split)
  have l: "length A = i * n" "length B = (length vs - (i + 1)) * n" "length (f (vs ! i)) = n"
    using assms by (simp_all add: A_def B_def fixed_widthD)
  define C where "C = f (vs ! i) @ B"
  have lc: "length C = n + length B" using l by (simp add: C_def)
  have "mem_read (A @ C) ((i + 1) * n) ((length vs - (i + 1)) * n) = Some B"
    using l by (simp add: mem_read_def C_def algebra_simps)
  moreover have "mem_write (A @ C) (i * n) B = Some (A @ B @ drop (length B) C)"
    using l lc by (simp add: mem_write_def)
  ultimately show ?thesis
    using lc by (intro exI [of _ "drop (length B) C"]) (simp add: mem_move_def m C_def A_def B_def)
qed

end
