(* ===== verification/Util_Numbers.thy ===== *)
theory Util_Numbers
  imports Redis_Prelude
begin

text \<open>
  Conversions between 64-bit integers and decimal strings, from \<open>src/util.c\<close>:
  \<open>digits10\<close>, \<open>sdigits10\<close>, \<open>ull2string\<close>, \<open>ll2string\<close>, \<open>string2ll\<close>,
  \<open>string2l\<close>, and the byte-set helpers \<open>mempbrk\<close> and \<open>memmapchars\<close>.
  The reference definition is \<open>dec_repr\<close>, the usual decimal digits of a number;
  the optimised routines of the source are shown to compute it.
\<close>

section \<open>The routines of the source\<close>

abbreviation (input) "ULLONG_MAX \<equiv> (18446744073709551615 :: nat)"
abbreviation (input) "LLONG_MAX \<equiv> (9223372036854775807 :: int)"
abbreviation (input) "LLONG_MIN \<equiv> (- 9223372036854775808 :: int)"
abbreviation (input) "LONG_STR_SIZE \<equiv> (21 :: nat)"

fun digits10 :: "nat \<Rightarrow> nat" where
  "digits10 v =
     (if v < 10 then 1
      else if v < 100 then 2
      else if v < 1000 then 3
      else if v < 1000000000000 then
        (if v < 100000000 then
           (if v < 1000000 then
              (if v < 10000 then 4 else 5 + (if v \<ge> 100000 then 1 else 0))
            else 7 + (if v \<ge> 10000000 then 1 else 0))
         else if v < 10000000000 then 9 + (if v \<ge> 1000000000 then 1 else 0)
         else 11 + (if v \<ge> 100000000000 then 1 else 0))
      else 12 + digits10 (v div 1000000000000))"

declare digits10.simps [simp del]

definition sdigits10 :: "int \<Rightarrow> nat" where
  "sdigits10 v =
     (if v < 0 then
        (let uv = (if v \<noteq> LLONG_MIN then - v else LLONG_MAX + 1) in digits10 (nat uv) + 1)
      else digits10 (nat v))"

text \<open>The table \<open>digits\<close> of two-digit numbers, as the source spells it.\<close>

definition digits :: bytes where
  "digits = map of_char
     (''0001020304050607080910111213141516171819'' @
      ''2021222324252627282930313233343536373839'' @
      ''4041424344454647484950515253545556575859'' @
      ''6061626364656667686970717273747576777879'' @
      ''8081828384858687888990919293949596979899'')"

text \<open>
  The loop that writes two digits at a time, from the right. \<open>m\<close> is the memory block,
  \<open>dst\<close> the offset of the destination in it and \<open>next\<close> the \<open>uint32_t\<close> index
  of the rightmost byte not yet written.
\<close>

fun ull2string_loop :: "bytes \<Rightarrow> nat \<Rightarrow> nat \<Rightarrow> nat \<Rightarrow> (bytes \<times> nat \<times> nat) option" where
  "ull2string_loop m dst next value =
     (if value \<ge> 100 then
        do {
          c1 \<leftarrow> rd digits ((value mod 100) * 2 + 1);
          m \<leftarrow> wr m (dst + next) c1;
          c0 \<leftarrow> rd digits ((value mod 100) * 2);
          m \<leftarrow> wr m (dst + wsub 32 next 1) c0;
          ull2string_loop m dst (wsub 32 next 2) (value div 100)
        }
      else Some (m, next, value))"

declare ull2string_loop.simps [simp del]

text \<open>The last one or two digits.\<close>

definition ull2string_last :: "bytes \<Rightarrow> nat \<Rightarrow> nat \<Rightarrow> nat \<Rightarrow> bytes option" where
  "ull2string_last m dst next value =
     (if value < 10 then wr m (dst + next) (of_char CHR ''0'' + of_nat value)
      else do {
        c1 \<leftarrow> rd digits (value * 2 + 1);
        m \<leftarrow> wr m (dst + next) c1;
        c0 \<leftarrow> rd digits (value * 2);
        wr m (dst + wsub 32 next 1) c0
      })"

definition ull2string :: "bytes \<Rightarrow> nat \<Rightarrow> nat \<Rightarrow> nat \<Rightarrow> (bytes \<times> nat) option" where
  "ull2string m dst dstlen value =
     (let len = digits10 value in
      if len \<ge> dstlen then
        (if dstlen > 0 then do { m \<leftarrow> wr m dst 0; Some (m, 0) } else Some (m, 0))
      else
        do {
          let next = wsub 32 len 1;
          m \<leftarrow> wr m (dst + wadd 32 next 1) 0;
          (m, next, value) \<leftarrow> ull2string_loop m dst next value;
          m \<leftarrow> ull2string_last m dst next value;
          Some (m, len)
        })"

definition ll2string :: "bytes \<Rightarrow> nat \<Rightarrow> nat \<Rightarrow> int \<Rightarrow> (bytes \<times> nat) option" where
  "ll2string m dst dstlen svalue =
     (if svalue < 0 then
        (let value = nat (if svalue \<noteq> LLONG_MIN then - svalue else LLONG_MAX + 1) in
         if dstlen < 2 then
           (if dstlen > 0 then do { m \<leftarrow> wr m dst 0; Some (m, 0) } else Some (m, 0))
         else
           do {
             m \<leftarrow> wr m dst (of_char CHR ''-'');
             (m, len) \<leftarrow> ull2string m (dst + 1) (dstlen - 1) value;
             Some (m, if len = 0 then 0 else len + 1)
           })
      else
        do {
          (m, len) \<leftarrow> ull2string m dst dstlen (nat svalue);
          Some (m, if len = 0 then 0 else len)
        })"

text \<open>
  The digit loop of \<open>string2ll\<close>; \<open>None\<close> is its overflow exit, otherwise the
  accumulated value and the bytes not consumed.
\<close>

definition is_digit :: "u8 \<Rightarrow> bool" where
  "is_digit c \<longleftrightarrow> c \<ge> of_char CHR ''0'' \<and> c \<le> of_char CHR ''9''"

fun string2ll_loop :: "nat \<Rightarrow> bytes \<Rightarrow> (nat \<times> bytes) option" where
  "string2ll_loop v [] = Some (v, [])"
| "string2ll_loop v (c # p) =
     (if is_digit c then
        (if v > ULLONG_MAX div 10 then None
         else if v * 10 > ULLONG_MAX - (unat c - 48) then None
         else string2ll_loop (v * 10 + (unat c - 48)) p)
      else Some (v, c # p))"

definition string2ll :: "bytes \<Rightarrow> int option" where
  "string2ll s =
     (if length s = 0 \<or> length s \<ge> LONG_STR_SIZE then None
      else if length s = 1 \<and> s ! 0 = of_char CHR ''0'' then Some 0
      else
        (let negative = (s ! 0 = of_char CHR ''-'');
             p = (if negative then tl s else s) in
         case p of
           [] \<Rightarrow> None
         | c # p' \<Rightarrow>
             if c \<ge> of_char CHR ''1'' \<and> c \<le> of_char CHR ''9'' then
               (case string2ll_loop (unat c - 48) p' of
                  None \<Rightarrow> None
                | Some (v, rest) \<Rightarrow>
                    if rest \<noteq> [] then None
                    else if negative then
                      (if v > nat (- (LLONG_MIN + 1)) + 1 then None
                       else Some (to_signed 64 (wsub 64 0 v)))
                    else (if v > nat LLONG_MAX then None else Some (to_signed 64 v)))
             else None))"

definition string2l :: "bytes \<Rightarrow> int option" where
  "string2l s =
     (case string2ll s of
        None \<Rightarrow> None
      | Some llval \<Rightarrow> if llval < LLONG_MIN \<or> llval > LLONG_MAX then None else Some llval)"

text \<open>\<open>mempbrk\<close> returns the offset of the first byte of \<open>s\<close> that is in \<open>chars\<close>.\<close>

fun mempbrk :: "bytes \<Rightarrow> bytes \<Rightarrow> nat option" where
  "mempbrk [] chars = None"
| "mempbrk (c # s) chars =
     (if List.member chars c then Some 0 else map_option Suc (mempbrk s chars))"

text \<open>\<open>memmapchars\<close>: the first entry of \<open>from\<close> equal to the byte decides.\<close>

fun memmap1 :: "u8 \<Rightarrow> bytes \<Rightarrow> bytes \<Rightarrow> u8" where
  "memmap1 c (f # from) (t # to) = (if c = f then t else memmap1 c from to)"
| "memmap1 c _ _ = c"

definition memmapchars :: "bytes \<Rightarrow> bytes \<Rightarrow> bytes \<Rightarrow> bytes" where
  "memmapchars s from to = map (\<lambda>c. memmap1 c from to) s"

section \<open>Reference: decimal representation\<close>

fun dec_repr :: "nat \<Rightarrow> bytes" where
  "dec_repr n =
     (if n < 10 then [48 + of_nat n] else dec_repr (n div 10) @ [48 + of_nat (n mod 10)])"

declare dec_repr.simps [simp del]

definition ll_repr :: "int \<Rightarrow> bytes" where
  "ll_repr v = (if v < 0 then 45 # dec_repr (nat (- v)) else dec_repr (nat v))"

section \<open>Correctness\<close>

lemma dec_repr_small: "n < 10 \<Longrightarrow> dec_repr n = [48 + of_nat n]"
  by (simp add: dec_repr.simps)

lemma dec_repr_step: "10 \<le> n \<Longrightarrow> dec_repr n = dec_repr (n div 10) @ [48 + of_nat (n mod 10)]"
  by (subst dec_repr.simps) simp

lemma dec_repr_snoc: "0 < v \<Longrightarrow> d < 10 \<Longrightarrow> dec_repr (v * 10 + d) = dec_repr v @ [48 + of_nat d]"
  by (subst dec_repr_step) simp_all

lemma dec_repr_not_Nil [simp]: "dec_repr n \<noteq> []"
  by (subst dec_repr.simps) simp

lemma length_dec_repr_shift:
  "10 ^ k \<le> v \<Longrightarrow> length (dec_repr v) = k + length (dec_repr (v div 10 ^ k))"
proof (induction k arbitrary: v)
  case 0
  then show ?case by simp
next
  case (Suc k)
  have "(10::nat) \<le> 10 ^ Suc k" by simp
  then have ge: "10 \<le> v" using Suc.prems by (rule order_trans)
  have "10 ^ k \<le> v div 10" using Suc.prems by (simp add: less_eq_div_iff_mult_less_eq mult.commute)
  then have "length (dec_repr (v div 10)) = k + length (dec_repr (v div 10 div 10 ^ k))"
    by (rule Suc.IH)
  then show ?case using ge by (simp add: dec_repr_step div_mult2_eq)
qed

lemma length_dec_repr_bounds:
  assumes "v < 10 ^ Suc k" and "10 ^ k \<le> v \<or> k = 0"
  shows "length (dec_repr v) = Suc k"
proof (cases "k = 0")
  case True
  then show ?thesis using assms by (simp add: dec_repr_small)
next
  case False
  then have ge: "10 ^ k \<le> v" using assms by simp
  have "v div 10 ^ k < 10" using assms(1) by (simp add: less_mult_imp_div_less)
  then show ?thesis using length_dec_repr_shift [OF ge] by (simp add: dec_repr_small)
qed

lemma decimal_magnitude: "\<exists>k. v < 10 ^ Suc k \<and> (10 ^ k \<le> v \<or> k = 0)" for v :: nat
proof (induction v rule: less_induct)
  case (less v)
  show ?case
  proof (cases "v < 10")
    case True
    then show ?thesis by (intro exI [of _ 0]) simp
  next
    case False
    then obtain k where "v div 10 < 10 ^ Suc k" "10 ^ k \<le> v div 10 \<or> k = 0"
      using less [of "v div 10"] by auto
    then have "v < 10 ^ Suc (Suc k) \<and> 10 ^ Suc k \<le> v" using False by auto
    then show ?thesis by blast
  qed
qed

lemma digits10_small:
  assumes "v < 10 ^ Suc k" and "10 ^ k \<le> v \<or> k = 0" and "k < 12"
  shows "digits10 v = Suc k"
proof -
  have "k = 0 \<or> k = 1 \<or> k = 2 \<or> k = 3 \<or> k = 4 \<or> k = 5 \<or> k = 6 \<or> k = 7 \<or> k = 8 \<or>
      k = 9 \<or> k = 10 \<or> k = 11"
    using assms(3) by arith
  then show ?thesis using assms(1,2) by (elim disjE) (simp_all add: digits10.simps [of v])
qed

lemma length_dec_repr [simp]: "length (dec_repr v) = digits10 v"
proof (induction v rule: digits10.induct)
  case (1 v)
  show ?case
  proof (cases "v < 1000000000000")
    case True
    obtain k where k: "v < 10 ^ Suc k" "10 ^ k \<le> v \<or> k = 0"
      using decimal_magnitude by blast
    have "k < 12"
    proof (rule ccontr)
      assume "\<not> k < 12"
      then have "(10::nat) ^ 12 \<le> 10 ^ k" by (intro power_increasing) auto
      then show False using k True \<open>\<not> k < 12\<close> by auto
    qed
    then show ?thesis using k length_dec_repr_bounds digits10_small by simp
  next
    case False
    then show ?thesis
      using 1 length_dec_repr_shift [of 12 v] by (simp add: digits10.simps [of v])
  qed
qed

lemma digits10_range: "v < 10 ^ digits10 v \<and> (0 < v \<longrightarrow> 10 ^ (digits10 v - 1) \<le> v)"
proof -
  obtain k where k: "v < 10 ^ Suc k" "10 ^ k \<le> v \<or> k = 0" using decimal_magnitude by blast
  then have "digits10 v = Suc k" using length_dec_repr_bounds [of v k] by simp
  then show ?thesis using k by auto
qed

lemma digits10_pos [simp]: "0 < digits10 v"
  using length_dec_repr [of v] by (metis dec_repr_not_Nil length_greater_0_conv)

lemma digits10_le:
  assumes "v < 10 ^ k" and "0 < k"
  shows "digits10 v \<le> k"
proof (cases "v = 0")
  case True
  then show ?thesis using assms by (simp add: digits10.simps)
next
  case False
  then have "(10::nat) ^ (digits10 v - 1) < 10 ^ k"
    using digits10_range [of v] assms(1) by (metis le_less_trans not_gr_zero)
  then have "digits10 v - 1 < k" by (simp add: power_less_imp_less_exp)
  then show ?thesis by simp
qed

lemma length_digits [simp]: "length digits = 200"
  by (simp add: digits_def)

lemma digits_eq:
  "digits = concat (map (\<lambda>i. [48 + of_nat (i div 10), 48 + of_nat (i mod 10)]) [0..<100])"
  by (simp add: digits_def upt_conv_Cons)

lemma nth_concat_pairs:
  "i < length xs \<Longrightarrow> concat (map (\<lambda>x. [f x, g x]) xs) ! (i * 2) = f (xs ! i) \<and>
   concat (map (\<lambda>x. [f x, g x]) xs) ! Suc (i * 2) = g (xs ! i)"
proof (induction xs arbitrary: i)
  case Nil
  then show ?case by simp
next
  case (Cons x xs)
  then show ?case by (cases i) auto
qed

lemma digits_pair:
  assumes "i < 100"
  shows "rd digits (i * 2) = Some (48 + of_nat (i div 10)) \<and>
         rd digits (i * 2 + 1) = Some (48 + of_nat (i mod 10))"
proof -
  have "i < length [0..<100]" using assms by simp
  from nth_concat_pairs [OF this] have "digits ! (i * 2) = 48 + of_nat (i div 10) \<and>
      digits ! Suc (i * 2) = 48 + of_nat (i mod 10)"
    unfolding digits_eq using assms by simp
  then show ?thesis using assms by (simp add: rd_def)
qed

lemma dec_repr_pair:
  assumes "100 \<le> v"
  shows "dec_repr v = dec_repr (v div 100) @
           [48 + of_nat (v mod 100 div 10), 48 + of_nat (v mod 100 mod 10)]"
proof -
  have "v div 10 mod 10 = v mod 100 div 10" by (simp add: mod_mult2_eq [of v 10 10, simplified])
  moreover have "v mod 100 mod 10 = v mod 10" by (simp add: mod_mod_cancel)
  moreover have "v div 10 div 10 = v div 100" by (simp add: div_mult2_eq [symmetric])
  moreover have "10 \<le> v div 10" using assms by linarith
  ultimately show ?thesis
    using assms dec_repr_step [of v] dec_repr_step [of "v div 10"] by simp
qed

lemma digits10_pair:
  assumes "100 \<le> v"
  shows "digits10 v = Suc (Suc (digits10 (v div 100)))"
proof -
  have "digits10 v = length (dec_repr v)" by simp
  also have "\<dots> = length (dec_repr (v div 100) @
      [48 + of_nat (v mod 100 div 10) :: u8, 48 + of_nat (v mod 100 mod 10)])"
    by (simp only: dec_repr_pair [OF assms])
  finally show ?thesis by simp
qed

lemma list_two_last:
  assumes "length xs = Suc (Suc n)"
  obtains ys a b where "xs = ys @ [a, b]" and "length ys = n"
proof -
  obtain zs b where xs: "xs = zs @ [b]" using assms by (cases xs rule: rev_cases) auto
  then obtain ys a where "zs = ys @ [a]" using assms by (cases zs rule: rev_cases) auto
  then show thesis using that [of ys a b] xs assms by simp
qed

lemma wsub_1 [simp]: "Suc n < 2 ^ w \<Longrightarrow> wsub w (Suc n) (Suc 0) = n"
  using wsub_exact [of 1 "Suc n" w] by simp

lemma wsub_2 [simp]: "Suc (Suc n) < 2 ^ w \<Longrightarrow> wsub w (Suc (Suc n)) 2 = n"
  using wsub_exact [of 2 "Suc (Suc n)" w] by simp


lemma wr_pair_right:
  "length ys = n \<Longrightarrow> wr (pre @ ys @ a # b # post) (length pre + Suc n) c = Some (pre @ ys @ a # c # post)"
  by (simp add: wr_def list_update_append)

lemma wr_pair_left:
  "length ys = n \<Longrightarrow> wr (pre @ ys @ a # b # post) (length pre + n) c = Some (pre @ ys @ c # b # post)"
  by (simp add: wr_def list_update_append)

text \<open>Both digits of a pair are written at the end of the area \<open>ys @ [a, b]\<close>.\<close>

lemmas write_pair_simps = digits_pair [THEN conjunct1] digits_pair [THEN conjunct2, simplified]
  wr_pair_right [simplified] wr_pair_left

lemma ull2string_fill:
  assumes "length area = digits10 val" and "digits10 val < 2 ^ 32"
  shows "do {
      (m, next, value) \<leftarrow>
        ull2string_loop (pre @ area @ post) (length pre) (digits10 val - 1) val;
      ull2string_last m (length pre) next value
    } = Some (pre @ dec_repr val @ post)"
  using assms
proof (induction val arbitrary: area post rule: less_induct)
  case (less v)
  show ?case
  proof (cases "100 \<le> v")
    case small: False
    then have loop: "ull2string_loop m d n v = Some (m, n, v)" for m d n
      by (simp add: ull2string_loop.simps)
    show ?thesis
    proof (cases "v < 10")
      case True
      then have d: "digits10 v = 1" by (simp add: digits10.simps)
      then obtain a where "area = [a]" using less.prems by (cases area) auto
      then show ?thesis using True d
        by (simp add: loop ull2string_last_def wr_def list_update_append dec_repr_small)
    next
      case False
      then have d: "digits10 v = Suc (Suc 0)" using small by (simp add: digits10.simps)
      then obtain ys a b where ar: "area = ys @ [a, b]" "length ys = 0"
        using less.prems list_two_last by metis
      have "dec_repr v = [48 + of_nat (v div 10), 48 + of_nat (v mod 10)]"
        using False small by (simp add: dec_repr_step dec_repr_small)
      then show ?thesis
        using False small d ar
        by (simp add: loop ull2string_last_def write_pair_simps wr_def list_update_append)
    qed
  next
    case True
    then have r: "dec_repr v = dec_repr (v div 100) @
        [48 + of_nat (v mod 100 div 10), 48 + of_nat (v mod 100 mod 10)]"
      by (rule dec_repr_pair)
    from True have len: "digits10 v = Suc (Suc (digits10 (v div 100)))"
      by (rule digits10_pair)
    then obtain ys a b where ar: "area = ys @ [a, b]" "length ys = digits10 (v div 100)"
      using less.prems list_two_last by metis
    have ih: "do {
        (m, next, value) \<leftarrow> ull2string_loop (pre @ ys @ [48 + of_nat (v mod 100 div 10),
            48 + of_nat (v mod 100 mod 10)] @ post) (length pre) (digits10 (v div 100) - 1) (v div 100);
        ull2string_last m (length pre) next value } = Some (pre @ dec_repr v @ post)"
      using less.IH [of "v div 100" ys "[48 + of_nat (v mod 100 div 10),
            48 + of_nat (v mod 100 mod 10)] @ post"] True ar less.prems len r by simp
    have w: "wsub 32 (Suc (digits10 (v div 100))) 2 = digits10 (v div 100) - 1"
      using len less.prems Suc_leI [OF digits10_pos [of "v div 100"]] by (subst wsub_exact) auto
    have "ull2string_loop (pre @ area @ post) (length pre) (digits10 v - 1) v =
       ull2string_loop (pre @ ys @ [48 + of_nat (v mod 100 div 10),
            48 + of_nat (v mod 100 mod 10)] @ post) (length pre) (digits10 (v div 100) - 1) (v div 100)"
      using True ar len less.prems
      by (simp add: ull2string_loop.simps [of _ _ _ v] write_pair_simps w)
    then show ?thesis using ih by simp
  qed
qed

lemma ull2string_fits:
  assumes "digits10 val < dstlen" and "dst + dstlen \<le> length m" and "digits10 val < 2 ^ 32"
  shows "ull2string m dst dstlen val =
    Some (take dst m @ dec_repr val @ 0 # drop (Suc (dst + digits10 val)) m, digits10 val)"
proof -
  define pre area post where "pre = take dst m" and "area = take (digits10 val) (drop dst m)"
    and "post = drop (Suc (dst + digits10 val)) m"
  note defs = this
  have in_range: "dst + digits10 val < length m" using assms by simp
  then have len: "length pre = dst" "length area = digits10 val"
    by (simp_all add: defs)
  have w1: "wsub 32 (digits10 val) 1 = digits10 val - 1"
    using assms(3) Suc_leI [OF digits10_pos [of val]] by (intro wsub_exact) auto
  have w2: "wadd 32 (digits10 val - 1) 1 = digits10 val"
    using assms(3) digits10_pos [of val] by (subst wadd_exact) auto
  have "wr m (dst + digits10 val) 0 = Some (pre @ area @ 0 # post)"
    using in_range by (simp add: wr_def upd_conv_take_nth_drop take_add defs)
  moreover obtain m' n' v' where
      "ull2string_loop (pre @ area @ 0 # post) dst (digits10 val - 1) val = Some (m', n', v')"
      "ull2string_last m' dst n' v' = Some (pre @ dec_repr val @ 0 # post)"
    using ull2string_fill [of area val pre "0 # post"] len assms(3)
    by (auto simp: bind_eq_Some_conv)
  moreover have "\<not> dstlen \<le> digits10 val" using assms(1) by simp
  ultimately show ?thesis unfolding ull2string_def Let_def w1 w2 by (simp add: defs)
qed


lemma digits10_u64: "val < 2 ^ 64 \<Longrightarrow> digits10 val \<le> 20"
  by (rule digits10_le) simp_all

lemma ull2string_short:
  assumes "dstlen \<le> digits10 val" and "dst + dstlen \<le> length m"
  shows "ull2string m dst dstlen val = Some (if dstlen = 0 then m else m[dst := 0], 0)"
  using assms by (simp add: ull2string_def Let_def wr_def)

lemma ull2string_correct:
  assumes "dst + dstlen \<le> length m" and "val < 2 ^ 64"
  shows "ull2string m dst dstlen val =
    Some (if digits10 val < dstlen
          then (take dst m @ dec_repr val @ 0 # drop (Suc (dst + digits10 val)) m, digits10 val)
          else (if dstlen = 0 then m else m[dst := 0], 0))"
  using assms digits10_u64 [OF assms(2)]
  by (simp add: ull2string_fits ull2string_short)

lemma digit_u8:
  assumes "d < 10"
  shows "is_digit (48 + of_nat d) \<and> unat (48 + of_nat d :: u8) - 48 = d"
proof -
  have "unat (48 + of_nat d :: u8) = 48 + d"
    using assms by (simp add: unat_word_ariths)
  then show ?thesis using assms by (simp add: is_digit_def word_le_nat_alt)
qed

lemma is_digit_u8:
  assumes "is_digit c"
  shows "\<exists>d<10. c = 48 + of_nat d \<and> unat c - 48 = d"
proof (intro exI conjI)
  have u: "48 \<le> unat c" "unat c \<le> 57"
    using assms by (simp_all add: is_digit_def word_le_nat_alt)
  then show "unat c - 48 < 10" by simp
  have "unat (48 + of_nat (unat c - 48) :: u8) = unat c"
    using u by (simp add: unat_word_ariths)
  then show "c = 48 + of_nat (unat c - 48)" by (metis word_unat_eq_iff)
qed simp

definition dec_val :: "bytes \<Rightarrow> nat" where
  "dec_val ds = foldl (\<lambda>a c. a * 10 + (unat c - 48)) 0 ds"

lemma dec_val_dec_repr [simp]: "dec_val (dec_repr n) = n"
proof (induction n rule: dec_repr.induct)
  case (1 n)
  then show ?case
    using digit_u8 [of n] digit_u8 [of "n mod 10"]
    by (cases "n < 10") (simp_all add: dec_repr_small dec_repr_step dec_val_def)
qed

lemma dec_repr_inject [simp]: "dec_repr m = dec_repr n \<longleftrightarrow> m = n"
  by (metis dec_val_dec_repr)

lemma dec_repr_prefix_le:
  "dec_repr v' = dec_repr w @ q \<Longrightarrow> w \<le> v'"
proof (induction q arbitrary: v' rule: rev_induct)
  case Nil
  then show ?case by simp
next
  case (snoc x q)
  have "10 \<le> v'"
  proof (rule ccontr)
    assume "\<not> 10 \<le> v'"
    then have "length (dec_repr w @ q @ [x]) = 1" using snoc.prems by (simp add: dec_repr_small)
    then show False using digits10_pos [of w] by simp
  qed
  then have "dec_repr (v' div 10) = dec_repr w @ q" using snoc.prems by (simp add: dec_repr_step)
  then have "w \<le> v' div 10" by (rule snoc.IH)
  then show ?case by simp
qed


lemma dec_repr_digits: "c \<in> set (dec_repr n) \<Longrightarrow> \<exists>d<10. c = 48 + of_nat d"
proof (induction n rule: dec_repr.induct)
  case (1 n)
  then show ?case
    by (cases "n < 10") (auto simp: dec_repr_small dec_repr_step intro: exI [of _ "n mod 10"])
qed

lemma dec_repr_leading:
  "0 < n \<Longrightarrow> \<exists>d p. 0 < d \<and> d < 10 \<and> dec_repr n = dec_repr d @ p"
proof (induction n rule: dec_repr.induct)
  case (1 n)
  show ?case
  proof (cases "n < 10")
    case True
    then show ?thesis using 1 by (intro exI [of _ n] exI [of _ "[]"]) simp
  next
    case False
    then have "0 < n div 10" by linarith
    then obtain d p where "0 < d" "d < 10" "dec_repr (n div 10) = dec_repr d @ p"
      using 1 (1) [OF False] by auto
    then show ?thesis
      using False by (intro exI [of _ d] exI [of _ "p @ [48 + of_nat (n mod 10)]"])
        (simp add: dec_repr_step)
  qed
qed

lemma string2ll_loop_sound:
  "string2ll_loop v p = Some (v', []) \<Longrightarrow> 0 < v \<Longrightarrow> dec_repr v' = dec_repr v @ p"
proof (induction v p rule: string2ll_loop.induct)
  case (1 v)
  then show ?case by simp
next
  case (2 v c p)
  then have c: "is_digit c"
    and rec: "string2ll_loop (v * 10 + (unat c - 48)) p = Some (v', [])"
    and nov: "\<not> ULLONG_MAX div 10 < v" "\<not> ULLONG_MAX - (unat c - 48) < v * 10"
    by (auto split: if_splits)
  obtain d where d: "d < 10" "c = 48 + of_nat d" "unat c - 48 = d" using is_digit_u8 [OF c] by blast
  have "dec_repr v' = dec_repr (v * 10 + (unat c - 48)) @ p"
    by (rule 2 (1) [OF c nov rec]) (use 2 (3) in simp)
  then show ?case using d 2 (3) by (simp add: dec_repr_snoc)
qed

lemma string2ll_loop_complete:
  "dec_repr v' = dec_repr v @ p \<Longrightarrow> 0 < v \<Longrightarrow> v' \<le> ULLONG_MAX \<Longrightarrow>
   string2ll_loop v p = Some (v', [])"
proof (induction p arbitrary: v)
  case Nil
  then show ?case by simp
next
  case (Cons c p)
  have "c \<in> set (dec_repr v')" using Cons.prems(1) by simp
  then have "\<exists>d<10. c = 48 + of_nat d" by (rule dec_repr_digits)
  then obtain d where d: "d < 10" "c = 48 + of_nat d" by blast
  then have c: "is_digit c" "unat c - 48 = d" using digit_u8 [of d] by simp_all
  have repr: "dec_repr v' = dec_repr (v * 10 + d) @ p"
    using Cons.prems d by (simp add: dec_repr_snoc)
  then have "v * 10 + d \<le> v'" by (rule dec_repr_prefix_le)
  then have "\<not> ULLONG_MAX div 10 < v" "\<not> ULLONG_MAX - d < v * 10"
    using Cons.prems by auto
  then show ?case
    using Cons.IH [OF repr] Cons.prems c by simp
qed


lemma to_signed_negate:
  assumes "0 < v" and "v \<le> 2 ^ 63"
  shows "to_signed 64 (wsub 64 0 v) = - int v"
proof -
  have "wsub 64 0 v = 2 ^ 64 - v" using assms by (simp add: wsub_def)
  then show ?thesis using assms by (simp add: to_signed_def of_nat_diff)
qed

lemma nonzero_digit:
  "c \<ge> of_char CHR ''1'' \<and> c \<le> of_char CHR ''9'' \<longleftrightarrow> (\<exists>d. 0 < d \<and> d < 10 \<and> c = 48 + of_nat d)"
  (is "?L = ?R") for c :: u8
proof
  assume L: ?L
  then have "is_digit c" "48 < unat c" by (auto simp: is_digit_def word_le_nat_alt)
  moreover from this(1) obtain d where "d < 10" "c = 48 + of_nat d" "unat c - 48 = d"
    using is_digit_u8 by blast
  ultimately show ?R by (intro exI [of _ d]) simp
next
  assume ?R
  then obtain d where d: "0 < d" "d < 10" "c = 48 + of_nat d" by blast
  then have "unat c = 48 + d" by (simp add: unat_word_ariths)
  then show ?L using d by (simp add: word_le_nat_alt)
qed


lemma string2ll_sound:
  assumes "string2ll s = Some v"
  shows "is_int64 v \<and> s = ll_repr v"
proof (cases "length s = 1 \<and> s ! 0 = 48")
  case True
  then have "s = [48]" by (cases s) auto
  moreover have "v = 0" using assms True by (auto simp: string2ll_def split: if_splits)
  ultimately show ?thesis by (simp add: ll_repr_def is_int64_def dec_repr_small)
next
  case False
  define neg where "neg = (s ! 0 = 45)"
  define p where "p = (if neg then tl s else s)"
  have "s \<noteq> []" using assms by (auto simp: string2ll_def)
  then have s: "s = (if neg then 45 # p else p)"
    by (cases s) (auto simp: p_def neg_def)
  obtain c p' where p: "p = c # p'"
    using assms False by (cases p) (auto simp: string2ll_def Let_def p_def neg_def split: if_splits)
  have main: "(c \<ge> of_char CHR ''1'' \<and> c \<le> of_char CHR ''9'') \<and>
      (\<exists>w. string2ll_loop (unat c - 48) p' = Some (w, []) \<and>
           (if neg then w \<le> 2 ^ 63 \<and> v = to_signed 64 (wsub 64 0 w)
            else w < 2 ^ 63 \<and> v = to_signed 64 w))"
    using assms False p
    by (auto simp: string2ll_def Let_def p_def [symmetric] neg_def [symmetric]
        split: if_splits option.splits prod.splits)
  then obtain d w where d: "0 < d" "d < 10" "c = 48 + of_nat d"
    and w: "string2ll_loop (unat c - 48) p' = Some (w, [])"
      "if neg then w \<le> 2 ^ 63 \<and> v = to_signed 64 (wsub 64 0 w)
       else w < 2 ^ 63 \<and> v = to_signed 64 w"
    unfolding nonzero_digit by blast
  have "unat c - 48 = d" using d digit_u8 [of d] by simp
  then have "dec_repr w = dec_repr d @ p'" using string2ll_loop_sound [OF w(1)] d by simp
  then have dw: "dec_repr w = p" using d p by (simp add: dec_repr_small)
  have "0 < w" using dec_repr_prefix_le [OF \<open>dec_repr w = dec_repr d @ p'\<close>] d by simp
  then have "if neg then w \<le> 2 ^ 63 \<and> v = - int w else w < 2 ^ 63 \<and> v = int w"
    using w(2) to_signed_negate [of w] by (cases neg) (auto simp: to_signed_def)
  then show ?thesis using dw s \<open>0 < w\<close> by (cases neg) (auto simp: is_int64_def ll_repr_def)
qed

lemma string2ll_complete_digits:
  assumes "0 < w" and "s = (if neg then 45 # dec_repr w else dec_repr w)"
    and "if neg then w \<le> 2 ^ 63 else w < 2 ^ 63"
  shows "string2ll s = Some (if neg then - int w else int w)"
proof -
  obtain d p' where d: "0 < d" "d < 10" "dec_repr w = dec_repr d @ p'"
    using dec_repr_leading [OF assms(1)] by blast
  define c :: u8 where "c = 48 + of_nat d"
  have u: "unat c = 48 + d" using d by (simp add: c_def unat_word_ariths)
  have repr: "dec_repr w = c # p'" using d by (simp add: dec_repr_small c_def)
  have c: "c \<ge> of_char CHR ''1'' \<and> c \<le> of_char CHR ''9''"
    unfolding nonzero_digit using d c_def by blast
  have c2: "c \<noteq> 45" "c \<noteq> 48" using u d by auto
  have loop: "string2ll_loop (unat c - 48) p' = Some (w, [])"
    using string2ll_loop_complete [of w d p'] d u assms(3) by (auto split: if_splits)
  have "w < 10 ^ 19" using assms(3) by (auto split: if_splits)
  then have "digits10 w \<le> 19" by (rule digits10_le) simp
  then have "length (c # p') \<le> 19" using repr length_dec_repr [of w] by simp
  then show ?thesis
    using assms loop c c2 repr to_signed_negate [of w]
    by (cases neg) (auto simp: string2ll_def Let_def to_signed_def)
qed

lemma string2ll_iff: "string2ll s = Some v \<longleftrightarrow> is_int64 v \<and> s = ll_repr v"
proof
  assume "is_int64 v \<and> s = ll_repr v"
  moreover have "string2ll [48] = Some 0" by (simp add: string2ll_def)
  ultimately show "string2ll s = Some v"
    using string2ll_complete_digits [of "nat (- v)" s True]
      string2ll_complete_digits [of "nat v" s False]
    by (cases "v = 0") (auto simp: is_int64_def ll_repr_def dec_repr_small split: if_splits)
qed (rule string2ll_sound)



lemma length_ll_repr: "is_int64 v \<Longrightarrow> length (ll_repr v) = sdigits10 v"
  by (auto simp: ll_repr_def sdigits10_def Let_def)

lemma nat_abs_int64: "is_int64 v \<Longrightarrow> v < 0 \<Longrightarrow>
    nat (if v \<noteq> LLONG_MIN then - v else LLONG_MAX + 1) = nat (- v)"
  by simp

lemma ll2string_spec:
  assumes "dst + dstlen \<le> length m" and "is_int64 v"
  shows "ll2string m dst dstlen v =
    Some (if sdigits10 v < dstlen
          then (take dst m @ ll_repr v @ 0 # drop (Suc (dst + sdigits10 v)) m, sdigits10 v)
          else (if dstlen = 0 then m
                else if v < 0 \<and> 2 \<le> dstlen then m[dst := 45, Suc dst := 0]
                else m[dst := 0], 0))"
proof (cases "v < 0")
  case True
  define n where "n = nat (- v)"
  have n: "nat (if v \<noteq> LLONG_MIN then - v else LLONG_MAX + 1) = n"
    using True assms by (simp add: n_def)
  have "n < 2 ^ 64" using True assms(2) by (simp add: n_def is_int64_def nat_less_iff)
  then have d: "digits10 n \<le> 20" by (rule digits10_u64)
  have sd: "sdigits10 v = Suc (digits10 n)" using True n by (simp add: sdigits10_def Let_def)
  have r: "ll_repr v = 45 # dec_repr n" using True by (simp add: ll_repr_def n_def)
  show ?thesis
  proof (cases "2 \<le> dstlen")
    case long: True
    define m' where "m' = m[dst := 45]"
    have tk: "take (Suc dst) m' = take dst m @ [45]"
      using assms(1) long by (simp add: m'_def take_Suc_conv_app_nth)
    have call: "ll2string m dst dstlen v =
        do { (m, len) \<leftarrow> ull2string m' (Suc dst) (dstlen - 1) n; Some (m, if len = 0 then 0 else len + 1) }"
      using True long n assms(1) by (simp add: ll2string_def Let_def wr_def m'_def)
    show ?thesis
    proof (cases "Suc (digits10 n) < dstlen")
      case fits: True
      have "ull2string m' (Suc dst) (dstlen - 1) n =
          Some (take (Suc dst) m' @ dec_repr n @ 0 # drop (Suc (Suc dst + digits10 n)) m', digits10 n)"
        using fits assms(1) d by (intro ull2string_fits) (simp_all add: m'_def)
      then show ?thesis using fits by (simp add: call sd r tk) (simp add: m'_def)
    next
      case False
      have "ull2string m' (Suc dst) (dstlen - 1) n = Some (m'[Suc dst := 0], 0)"
        using ull2string_short [of "dstlen - 1" n "Suc dst" m'] False long assms(1)
        by (simp add: m'_def)
      then show ?thesis using True long False by (simp add: call sd) (simp add: m'_def)
    qed
  next
    case False
    then show ?thesis using True sd assms(1) by (auto simp: ll2string_def Let_def wr_def)
  qed
next
  case False
  then have "nat v < 2 ^ 64" using assms(2) by (simp add: is_int64_def nat_less_iff)
  then have "digits10 (nat v) \<le> 20" by (rule digits10_u64)
  then show ?thesis
    using False assms(1) ull2string_fits [of "nat v" dstlen dst m] ull2string_short [of dstlen "nat v" dst m]
    by (auto simp: ll2string_def sdigits10_def ll_repr_def)
qed

lemma string2l_eq: "string2l s = string2ll s"
  by (cases "string2ll s") (auto simp: string2l_def is_int64_def dest: string2ll_sound)

lemma mempbrk_Some: "mempbrk s chars = Some i \<longleftrightarrow>
    i < length s \<and> s ! i \<in> set chars \<and> (\<forall>j<i. s ! j \<notin> set chars)"
proof (induction s arbitrary: i)
  case Nil
  then show ?case by simp
next
  case (Cons c s)
  show ?case
  proof (cases i)
    case 0
    then show ?thesis by (auto simp: List.member_iff)
  next
    case (Suc k)
    then show ?thesis using Cons [of k] by (auto simp: List.member_iff less_Suc_eq_0_disj)
  qed
qed

lemma mempbrk_None: "mempbrk s chars = None \<longleftrightarrow> set s \<inter> set chars = {}"
  by (induction s) (auto simp: List.member_iff)

lemma length_memmapchars [simp]: "length (memmapchars s from to) = length s"
  by (simp add: memmapchars_def)


section \<open>Properties\<close>

text \<open>
  \<open>digits10\<close>, an unrolled comparison tree, returns the number of decimal digits of
  its argument.
\<close>

theorem digits10_counts_digits:
  "v < 10 ^ digits10 v \<and> (v = 0 \<or> 10 ^ (digits10 v - 1) \<le> v)"
  using digits10_range [of v] by blast

text \<open>
  C19. \<open>ll2string\<close> on a buffer of \<open>dstlen\<close> bytes at \<open>dst\<close>: if the decimal
  representation and the terminating NUL fit, exactly these bytes are written, every other
  byte of the block is kept, and the length is returned; if they do not fit, 0 is returned
  and only the first bytes of the buffer are overwritten (the buffer stays NUL-terminated).
  No write leaves the buffer, for any 64-bit value, \<open>LLONG_MIN\<close> included.
\<close>

theorem ll2string_correct:
  assumes "dst + dstlen \<le> length m" and "is_int64 v"
  shows "ll2string m dst dstlen v =
    Some (if sdigits10 v < dstlen
          then (take dst m @ ll_repr v @ 0 # drop (Suc (dst + sdigits10 v)) m, sdigits10 v)
          else (if dstlen = 0 then m
                else if v < 0 \<and> 2 \<le> dstlen then m[dst := 45, Suc dst := 0]
                else m[dst := 0], 0))"
  using assms by (rule ll2string_spec)

theorem ll2string_correct_witness:
  "ll2string [7, 7, 7, 7, 7, 7, 7, 7] 1 6 (- 42) = Some ([7, 45, 52, 50, 0, 7, 7, 7], 3)"
  using ll2string_correct [of 1 6 "[7, 7, 7, 7, 7, 7, 7, 7]" "- 42"]
  by (simp add: is_int64_def sdigits10_def ll_repr_def digits10.simps dec_repr.simps)

text \<open>
  C11. \<open>string2ll\<close> accepts exactly the canonical decimal representations of the 64-bit
  signed integers and returns the integer represented: it is the inverse of the printing
  done by \<open>ll2string\<close>, in both directions (no leading zero, sign, blank or overflowing
  digit string is accepted).
\<close>

theorem string2ll_exact: "string2ll s = Some v \<longleftrightarrow> is_int64 v \<and> s = ll_repr v"
  by (rule string2ll_iff)

end
