(* ===== verification/Redis_Interfaces.thy ===== *)
theory Redis_Interfaces
  imports Redis_Prelude
begin

text \<open>
  Contracts between components. A locale fixes the operations a client calls and assumes the
  laws the provider promises; the client's lemmas are proved from the laws alone, and the
  theory of the provider interprets the locale on the definitions that model the code.
\<close>

section \<open>Sets of elements with a bounded, checked representation\<close>

text \<open>
  The contract of the set encodings behind \<open>t_set.c\<close>: adding reports whether the
  element was new, removing whether it was present, and each operation succeeds (no
  assertion fails, no access leaves the block) on every representation that satisfies the
  invariant and, for \<open>add\<close>, still has room.
\<close>

text \<open>
  A client issues a sequence of operations; \<open>set_run\<close> threads the representation through
  them and collects the answers, \<open>set_spec\<close> is the same client on a mathematical set.
\<close>

datatype 'e set_op = OpAdd 'e | OpRemove 'e | OpFind 'e

fun set_run :: "('s \<Rightarrow> 'e \<Rightarrow> ('s \<times> bool) option) \<Rightarrow> ('s \<Rightarrow> 'e \<Rightarrow> ('s \<times> bool) option) \<Rightarrow>
    ('s \<Rightarrow> 'e \<Rightarrow> bool option) \<Rightarrow> 'e set_op list \<Rightarrow> 's \<Rightarrow> ('s \<times> bool list) option" where
  "set_run add rem fnd [] s = Some (s, [])"
| "set_run add rem fnd (OpAdd e # ops) s = do {
     (s, b) \<leftarrow> add s e; (s, bs) \<leftarrow> set_run add rem fnd ops s; Some (s, b # bs) }"
| "set_run add rem fnd (OpRemove e # ops) s = do {
     (s, b) \<leftarrow> rem s e; (s, bs) \<leftarrow> set_run add rem fnd ops s; Some (s, b # bs) }"
| "set_run add rem fnd (OpFind e # ops) s = do {
     b \<leftarrow> fnd s e; (s, bs) \<leftarrow> set_run add rem fnd ops s; Some (s, b # bs) }"

fun set_spec :: "'e set_op list \<Rightarrow> 'e set \<Rightarrow> 'e set \<times> bool list" where
  "set_spec [] S = (S, [])"
| "set_spec (OpAdd e # ops) S = (let (S', bs) = set_spec ops (insert e S) in (S', (e \<notin> S) # bs))"
| "set_spec (OpRemove e # ops) S = (let (S', bs) = set_spec ops (S - {e}) in (S', (e \<in> S) # bs))"
| "set_spec (OpFind e # ops) S = (let (S', bs) = set_spec ops S in (S', (e \<in> S) # bs))"

fun op_elem :: "'e set_op \<Rightarrow> 'e" where
  "op_elem (OpAdd e) = e"
| "op_elem (OpRemove e) = e"
| "op_elem (OpFind e) = e"

locale set_encoding =
  fixes add :: "'s \<Rightarrow> 'e \<Rightarrow> ('s \<times> bool) option"
    and remove :: "'s \<Rightarrow> 'e \<Rightarrow> ('s \<times> bool) option"
    and find :: "'s \<Rightarrow> 'e \<Rightarrow> bool option"
    and elems :: "'s \<Rightarrow> 'e set"
    and invar :: "'s \<Rightarrow> bool"
    and room :: "'s \<Rightarrow> bool"
    and valid :: "'e \<Rightarrow> bool"
    and cap :: nat
  assumes add_law: "invar s \<Longrightarrow> room s \<Longrightarrow> valid v \<Longrightarrow>
      \<exists>s'. add s v = Some (s', v \<notin> elems s) \<and> invar s' \<and> elems s' = insert v (elems s)"
    and remove_law: "invar s \<Longrightarrow> valid v \<Longrightarrow>
      \<exists>s'. remove s v = Some (s', v \<in> elems s) \<and> invar s' \<and> elems s' = elems s - {v}"
    and find_law: "invar s \<Longrightarrow> valid v \<Longrightarrow> find s v = Some (v \<in> elems s)"
    and finite_law: "invar s \<Longrightarrow> finite (elems s)"
    and room_law: "invar s \<Longrightarrow> card (elems s) < cap \<Longrightarrow> room s"
begin

lemma add_then_find:
  assumes "invar s" "room s" "valid v" "valid w" "add s v = Some (s', b)"
  shows "find s' w = Some (w = v \<or> w \<in> elems s)"
  using assms add_law [of s v] find_law [of s' w] by auto

lemma remove_then_find:
  assumes "invar s" "valid v" "valid w" "remove s v = Some (s', b)"
  shows "find s' w = Some (w \<noteq> v \<and> w \<in> elems s)"
  using assms remove_law [of s v] find_law [of s' w] by auto

text \<open>Adding and then removing a value that was not there restores the set.\<close>

lemma add_then_remove:
  assumes "invar s" "room s" "valid v" "v \<notin> elems s"
  shows "\<exists>s' s''. add s v = Some (s', True) \<and> remove s' v = Some (s'', True) \<and>
    invar s'' \<and> elems s'' = elems s"
proof -
  obtain s' where s': "add s v = Some (s', True)" "invar s'" "elems s' = insert v (elems s)"
    using add_law [of s v] assms by auto
  then obtain s'' where "remove s' v = Some (s'', True)" "invar s''" "elems s'' = elems s' - {v}"
    using remove_law [of s' v] assms by auto
  then show ?thesis using s' assms by auto
qed

text \<open>Any sequence of operations answers as the mathematical set does, as long as the
  number of elements stays within the capacity.\<close>

lemma run_refines:
  assumes "invar s" and "list_all (valid \<circ> op_elem) ops" and "card (elems s) + length ops \<le> cap"
  shows "\<exists>s'. set_run add remove find ops s = Some (s', snd (set_spec ops (elems s))) \<and> invar s' \<and>
    elems s' = fst (set_spec ops (elems s))"
  using assms
proof (induction ops arbitrary: s)
  case Nil
  then show ?case by simp
next
  case (Cons x ops)
  have fin: "finite (elems s)" using finite_law Cons.prems(1) .
  have room: "room s" using room_law [OF Cons.prems(1)] Cons.prems(3) by simp
  show ?case
  proof (cases x)
    case (OpAdd e)
    obtain s1 where s1: "add s e = Some (s1, e \<notin> elems s)" "invar s1" "elems s1 = insert e (elems s)"
      using add_law [OF Cons.prems(1) room, of e] Cons.prems(2) OpAdd by auto
    have "card (elems s1) \<le> Suc (card (elems s))" using s1(3) fin by (simp add: card_insert_if)
    then show ?thesis
      using Cons.IH [OF s1(2)] Cons.prems(2,3) s1 OpAdd by (auto split: prod.splits)
  next
    case (OpRemove e)
    obtain s1 where s1: "remove s e = Some (s1, e \<in> elems s)" "invar s1" "elems s1 = elems s - {e}"
      using remove_law [OF Cons.prems(1), of e] Cons.prems(2) OpRemove by auto
    have "card (elems s1) \<le> card (elems s)" using s1(3) fin by (simp add: card_Diff1_le)
    then show ?thesis
      using Cons.IH [OF s1(2)] Cons.prems(2,3) s1 OpRemove by (auto split: prod.splits)
  next
    case (OpFind e)
    then show ?thesis
      using Cons.IH [OF Cons.prems(1)] find_law [OF Cons.prems(1), of e] Cons.prems(2,3)
      by (auto split: prod.splits)
  qed
qed

end

section \<open>Sequences packed into one block\<close>

text \<open>
  The contract of a packed sequence: an element is pushed at the end unless the block would
  exceed its capacity, and an index, negative from the end, reads the element back. The
  relation \<open>holds s xs\<close> says which sequence a block stands for.
\<close>

text \<open>A client that pushes a list of elements; the inner \<open>None\<close> is a refused push.\<close>

fun seq_push_all :: "('s \<Rightarrow> 'e \<Rightarrow> 's option option) \<Rightarrow> 's \<Rightarrow> 'e list \<Rightarrow> 's option option" where
  "seq_push_all push s [] = Some (Some s)"
| "seq_push_all push s (e # es) = do {
     r \<leftarrow> push s e;
     case r of None \<Rightarrow> Some None | Some s \<Rightarrow> seq_push_all push s es
   }"

locale seq_encoding =
  fixes push :: "'s \<Rightarrow> 'e \<Rightarrow> 's option option"
    and item :: "'s \<Rightarrow> int \<Rightarrow> 'e option option"
    and holds :: "'s \<Rightarrow> 'e list \<Rightarrow> bool"
    and used :: "'s \<Rightarrow> nat"
    and cost :: "'e \<Rightarrow> nat"
    and cap :: nat
  assumes push_law: "holds s xs \<Longrightarrow> used s + cost e \<le> cap \<Longrightarrow>
      \<exists>s'. push s e = Some (Some s') \<and> holds s' (xs @ [e]) \<and> used s' \<le> used s + cost e"
    and item_law: "holds s xs \<Longrightarrow> item s i =
      Some (let j = (if i < 0 then int (length xs) + i else i) in
            if 0 \<le> j \<and> j < int (length xs) then Some (xs ! nat j) else None)"
begin

lemma push_all_holds:
  "holds s xs \<Longrightarrow> used s + sum_list (map cost es) \<le> cap \<Longrightarrow>
   \<exists>s'. seq_push_all push s es = Some (Some s') \<and> holds s' (xs @ es)"
proof (induction es arbitrary: s xs)
  case Nil
  then show ?case by simp
next
  case (Cons e es)
  then obtain s' where s': "push s e = Some (Some s')" "holds s' (xs @ [e])" "used s' \<le> used s + cost e"
    using push_law [of s xs e] by auto
  then have "\<exists>s''. seq_push_all push s' es = Some (Some s'') \<and> holds s'' ((xs @ [e]) @ es)"
    using Cons.prems by (intro Cons.IH) auto
  then show ?case using s' by auto
qed

text \<open>What was pushed is read back, from the front and from the end, and nothing else.\<close>

lemma push_all_item:
  assumes "holds s []" and "used s + sum_list (map cost es) \<le> cap"
  shows "\<exists>s'. seq_push_all push s es = Some (Some s') \<and>
    (\<forall>i<length es. item s' (int i) = Some (Some (es ! i))) \<and>
    (\<forall>i<length es. item s' (- 1 - int i) = Some (Some (rev es ! i))) \<and>
    (\<forall>i\<ge>length es. item s' (int i) = Some None \<and> item s' (- 1 - int i) = Some None)"
proof -
  obtain s' where s': "seq_push_all push s es = Some (Some s')" "holds s' es"
    using push_all_holds [OF assms] by auto
  have "item s' (- 1 - int i) = Some (Some (rev es ! i))" if "i < length es" for i
  proof -
    have "int (length es) + (- 1 - int i) = int (length es - Suc i)" using that by (simp add: of_nat_diff)
    then have "nat (int (length es) + (- 1 - int i)) = length es - Suc i" by (simp only: nat_int)
    then show ?thesis using item_law [OF s'(2), of "- 1 - int i"] that by (simp add: rev_nth)
  qed
  then show ?thesis using s' item_law [OF s'(2)] by auto
qed

end

section \<open>Finite maps behind an encoding\<close>

text \<open>
  The contract of a key-value container: adding fails on a present key, replacing always
  succeeds, deletion and lookup report what was there. \<open>cap\<close> bounds the number of keys.
\<close>

datatype ('k, 'v) map_op = MapAdd 'k 'v | MapReplace 'k 'v | MapDelete 'k | MapFind 'k

fun map_spec :: "('k, 'v) map_op \<Rightarrow> ('k \<Rightarrow> 'v option) \<Rightarrow> ('k \<Rightarrow> 'v option)" where
  "map_spec (MapAdd k v) m = (if m k = None then m(k \<mapsto> v) else m)"
| "map_spec (MapReplace k v) m = m(k \<mapsto> v)"
| "map_spec (MapDelete k) m = m(k := None)"
| "map_spec (MapFind k) m = m"

text \<open>What the operation reports: the value found, or whether a key was added or removed.\<close>

fun map_reply :: "('k, 'v) map_op \<Rightarrow> ('k \<Rightarrow> 'v option) \<Rightarrow> bool \<times> 'v option" where
  "map_reply (MapAdd k v) m = (m k = None, None)"
| "map_reply (MapReplace k v) m = (m k = None, None)"
| "map_reply (MapDelete k) m = (m k \<noteq> None, None)"
| "map_reply (MapFind k) m = (m k \<noteq> None, m k)"

fun map_replies :: "('k, 'v) map_op list \<Rightarrow> ('k \<Rightarrow> 'v option) \<Rightarrow> (bool \<times> 'v option) list" where
  "map_replies [] m = []"
| "map_replies (x # ops) m = map_reply x m # map_replies ops (map_spec x m)"

fun map_run ::
  "('s \<Rightarrow> ('k, 'v) map_op \<Rightarrow> ((bool \<times> 'v option) \<times> 's) option) \<Rightarrow> ('k, 'v) map_op list \<Rightarrow> 's \<Rightarrow>
     ((bool \<times> 'v option) list \<times> 's) option" where
  "map_run f [] s = Some ([], s)"
| "map_run f (x # ops) s = do {
     (r, s) \<leftarrow> f s x;
     (rs, s) \<leftarrow> map_run f ops s;
     Some (r # rs, s) }"

locale map_encoding =
  fixes inv :: "'s \<Rightarrow> bool"
    and abs :: "'s \<Rightarrow> 'k \<Rightarrow> 'v option"
    and count :: "'s \<Rightarrow> nat"
    and apply_op :: "'s \<Rightarrow> ('k, 'v) map_op \<Rightarrow> ((bool \<times> 'v option) \<times> 's) option"
    and cap :: nat
  assumes apply_refines: "inv s \<Longrightarrow> count s + 1 < cap \<Longrightarrow>
    \<exists>s'. apply_op s x = Some (map_reply x (abs s), s') \<and> inv s' \<and> abs s' = map_spec x (abs s) \<and>
      count s' \<le> count s + 1"
begin

lemma run_replies:
  assumes "inv s" and "count s + length ops < cap"
  shows "\<exists>s'. map_run apply_op ops s = Some (map_replies ops (abs s), s') \<and> inv s' \<and>
    abs s' = fold map_spec ops (abs s)"
  using assms
proof (induction ops arbitrary: s)
  case Nil
  then show ?case by simp
next
  case (Cons x ops)
  obtain s1 where s1: "apply_op s x = Some (map_reply x (abs s), s1)" "inv s1" "abs s1 = map_spec x (abs s)"
    "count s1 \<le> count s + 1"
    using apply_refines [OF Cons.prems(1)] Cons.prems(2) by fastforce
  obtain s2 where "map_run apply_op ops s1 = Some (map_replies ops (abs s1), s2)" "inv s2"
    "abs s2 = fold map_spec ops (abs s1)"
    using Cons.IH [OF s1(2)] s1(4) Cons.prems(2) by auto
  then show ?case using s1 by simp
qed

end

end
