(* ===== verification/Intset.thy ===== *)
theory Intset
  imports Redis_Interfaces
begin

text \<open>
  The integer set of \<open>src/intset.c\<close>: a header with the record size and the number of
  elements, and a sorted array of little-endian signed integers of that size. The model
  works on the bytes of the array, so that the in-place upgrade to a wider record and the
  moves of the tail are the ones of the source.

  The host is taken to be little-endian: \<open>intrev32ifbe\<close> and \<open>memrev64ifbe\<close> are
  then the identity, and the bytes in memory are the bytes of the serialised form.
\<close>

section \<open>State and operations\<close>

record intset =
  is_encoding :: nat \<comment> \<open>\<open>uint32_t encoding\<close>\<close>
  is_length :: nat \<comment> \<open>\<open>uint32_t length\<close>\<close>
  is_contents :: bytes \<comment> \<open>\<open>int8_t contents[]\<close>\<close>

abbreviation (input) "INTSET_ENC_INT16 \<equiv> (2 :: nat)"
abbreviation (input) "INTSET_ENC_INT32 \<equiv> (4 :: nat)"
abbreviation (input) "INTSET_ENC_INT64 \<equiv> (8 :: nat)"

text \<open>The leading underscore of the static helpers is written \<open>u_\<close>.\<close>

definition u_intsetValueEncoding :: "int \<Rightarrow> nat" where
  "u_intsetValueEncoding v =
     (if v < - 2147483648 \<or> v > 2147483647 then INTSET_ENC_INT64
      else if v < - 32768 \<or> v > 32767 then INTSET_ENC_INT32
      else INTSET_ENC_INT16)"

definition u_intsetGetEncoded :: "intset \<Rightarrow> int \<Rightarrow> nat \<Rightarrow> int option" where
  "u_intsetGetEncoded is pos enc =
     (if pos < 0 then None
      else if enc = INTSET_ENC_INT64 then
        map_option le_int (mem_read (is_contents is) (nat pos * 8) 8)
      else if enc = INTSET_ENC_INT32 then
        map_option le_int (mem_read (is_contents is) (nat pos * 4) 4)
      else map_option le_int (mem_read (is_contents is) (nat pos * 2) 2))"

definition u_intsetGet :: "intset \<Rightarrow> int \<Rightarrow> int option" where
  "u_intsetGet is pos = u_intsetGetEncoded is pos (is_encoding is)"

definition u_intsetSet :: "intset \<Rightarrow> nat \<Rightarrow> int \<Rightarrow> intset option" where
  "u_intsetSet is pos v =
     map_option (\<lambda>c. is\<lparr>is_contents := c\<rparr>)
       (if is_encoding is = INTSET_ENC_INT64 then
          mem_write (is_contents is) (pos * 8) (le_int_bytes 8 v)
        else if is_encoding is = INTSET_ENC_INT32 then
          mem_write (is_contents is) (pos * 4) (le_int_bytes 4 v)
        else mem_write (is_contents is) (pos * 2) (le_int_bytes 2 v))"

definition intsetNew :: intset where
  "intsetNew = \<lparr>is_encoding = INTSET_ENC_INT16, is_length = 0, is_contents = []\<rparr>"

definition intsetResize :: "(nat \<Rightarrow> u8) \<Rightarrow> intset \<Rightarrow> nat \<Rightarrow> intset option" where
  "intsetResize junk is len = do {
     let size = len * is_encoding is;
     c_assert (size \<le> 18446744073709551615 - 8);
     Some (is\<lparr>is_contents := realloc junk (is_contents is) size\<rparr>)
   }"

text \<open>
  The binary search. \<open>minv\<close>, \<open>maxv\<close> and \<open>mid\<close> are C \<open>int\<close>s; the midpoint
  is taken on \<open>unsigned int\<close>. The loop returns the last \<open>mid\<close> and \<open>cur\<close>
  and the final \<open>minv\<close>.
\<close>

partial_function (option) intsetSearch_loop ::
  "intset \<Rightarrow> int \<Rightarrow> int \<Rightarrow> int \<Rightarrow> int \<Rightarrow> int \<Rightarrow> (int \<times> int \<times> int) option"
where
  "intsetSearch_loop is v minv maxv mid cur =
     (if maxv \<ge> minv then
        do {
          let mid = int (wadd 32 (of_signed 32 minv) (of_signed 32 maxv) div 2);
          cur \<leftarrow> u_intsetGet is mid;
          if v > cur then intsetSearch_loop is v (mid + 1) maxv mid cur
          else if v < cur then intsetSearch_loop is v minv (mid - 1) mid cur
          else Some (mid, cur, minv)
        }
      else Some (mid, cur, minv))"

declare intsetSearch_loop.simps [code]

definition intsetSearch :: "intset \<Rightarrow> int \<Rightarrow> (bool \<times> nat) option" where
  "intsetSearch is v =
     (let maxv = to_signed 32 (wsub 32 (is_length is) 1) in
      if is_length is = 0 then Some (False, 0)
      else do {
        top \<leftarrow> u_intsetGet is maxv;
        if v > top then Some (False, is_length is)
        else do {
          bot \<leftarrow> u_intsetGet is 0;
          if v < bot then Some (False, 0)
          else do {
            (mid, cur, minv) \<leftarrow> intsetSearch_loop is v 0 maxv (- 1) (- 1);
            if v = cur then Some (True, nat mid) else Some (False, nat minv)
          }
        }
      })"

text \<open>
  \<open>while(length--)\<close> of the upgrade, from the last element to the first.
\<close>

fun intsetUpgrade_loop :: "intset \<Rightarrow> nat \<Rightarrow> nat \<Rightarrow> nat \<Rightarrow> intset option" where
  "intsetUpgrade_loop is 0 prepend curenc = Some is"
| "intsetUpgrade_loop is (Suc n) prepend curenc = do {
     v \<leftarrow> u_intsetGetEncoded is (int n) curenc;
     is \<leftarrow> u_intsetSet is (n + prepend) v;
     intsetUpgrade_loop is n prepend curenc
   }"

definition intsetUpgradeAndAdd :: "(nat \<Rightarrow> u8) \<Rightarrow> intset \<Rightarrow> int \<Rightarrow> intset option" where
  "intsetUpgradeAndAdd junk is v =
     (let curenc = is_encoding is;
          newenc = u_intsetValueEncoding v;
          len = to_signed 32 (is_length is);
          prepend = (if v < 0 then 1 else 0) in
      do {
        is \<leftarrow> intsetResize junk (is\<lparr>is_encoding := newenc\<rparr>) (wadd 32 (is_length is) 1);
        \<comment> \<open>a negative counter would walk out of the array\<close>
        is \<leftarrow> (if len < 0 then None else intsetUpgrade_loop is (nat len) prepend curenc);
        is \<leftarrow> (if prepend = 1 then u_intsetSet is 0 v else u_intsetSet is (is_length is) v);
        Some (is\<lparr>is_length := wadd 32 (is_length is) 1\<rparr>)
      })"

text \<open>\<open>bytes\<close> is a \<open>uint32_t\<close>: the multiplication wraps.\<close>

definition intsetMoveTail :: "intset \<Rightarrow> nat \<Rightarrow> nat \<Rightarrow> intset option" where
  "intsetMoveTail is from to =
     (let n = wsub 32 (is_length is) from;
          sz = (if is_encoding is = INTSET_ENC_INT64 then 8
                else if is_encoding is = INTSET_ENC_INT32 then 4 else 2) in
      map_option (\<lambda>c. is\<lparr>is_contents := c\<rparr>)
        (mem_move (is_contents is) (to * sz) (from * sz) ((n * sz) mod 2 ^ 32)))"

definition intsetAdd :: "(nat \<Rightarrow> u8) \<Rightarrow> intset \<Rightarrow> int \<Rightarrow> (intset \<times> bool) option" where
  "intsetAdd junk is v =
     (let valenc = u_intsetValueEncoding v in
      if valenc > is_encoding is then map_option (\<lambda>is. (is, True)) (intsetUpgradeAndAdd junk is v)
      else do {
        (found, pos) \<leftarrow> intsetSearch is v;
        if found then Some (is, False)
        else do {
          is \<leftarrow> intsetResize junk is (wadd 32 (is_length is) 1);
          is \<leftarrow> (if pos < is_length is then intsetMoveTail is pos (wadd 32 pos 1) else Some is);
          is \<leftarrow> u_intsetSet is pos v;
          Some (is\<lparr>is_length := wadd 32 (is_length is) 1\<rparr>, True)
        }
      })"

definition intsetRemove :: "(nat \<Rightarrow> u8) \<Rightarrow> intset \<Rightarrow> int \<Rightarrow> (intset \<times> bool) option" where
  "intsetRemove junk is v =
     (let valenc = u_intsetValueEncoding v in
      if valenc \<le> is_encoding is then do {
        (found, pos) \<leftarrow> intsetSearch is v;
        if found then do {
          let len = is_length is;
          is \<leftarrow> (if pos < wsub 32 len 1 then intsetMoveTail is (wadd 32 pos 1) pos else Some is);
          is \<leftarrow> intsetResize junk is (wsub 32 len 1);
          Some (is\<lparr>is_length := wsub 32 len 1\<rparr>, True)
        } else Some (is, False)
      } else Some (is, False))"

definition intsetFind :: "intset \<Rightarrow> int \<Rightarrow> bool option" where
  "intsetFind is v =
     (if u_intsetValueEncoding v \<le> is_encoding is then map_option fst (intsetSearch is v)
      else Some False)"

text \<open>\<open>r\<close> is the value of \<open>rand()\<close>.\<close>

definition intsetRandom :: "nat \<Rightarrow> intset \<Rightarrow> int option" where
  "intsetRandom r is = do {
     c_assert (is_length is \<noteq> 0);
     u_intsetGet is (int (r mod is_length is))
   }"

definition intsetMax :: "intset \<Rightarrow> int option" where
  "intsetMax is = u_intsetGet is (to_signed 32 (wsub 32 (is_length is) 1))"

definition intsetMin :: "intset \<Rightarrow> int option" where
  "intsetMin is = u_intsetGet is 0"

text \<open>\<open>Some None\<close> is the return value 0 (position out of range).\<close>

definition intsetGet :: "intset \<Rightarrow> nat \<Rightarrow> int option option" where
  "intsetGet is pos =
     (if pos < is_length is then map_option Some (u_intsetGet is (to_signed 32 pos)) else Some None)"

definition intsetLen :: "intset \<Rightarrow> nat" where
  "intsetLen is = is_length is"

definition intsetBlobLen :: "intset \<Rightarrow> nat" where
  "intsetBlobLen is = 8 + is_length is * is_encoding is"

text \<open>
  The validator works on a raw blob: the cast reads the header fields and the contents out of
  the bytes.
\<close>

definition intset_cast :: "bytes \<Rightarrow> intset" where
  "intset_cast p = \<lparr>is_encoding = le_nat (take 4 p), is_length = le_nat (take 4 (drop 4 p)),
     is_contents = drop 8 p\<rparr>"

fun intsetValidate_loop :: "intset \<Rightarrow> nat \<Rightarrow> nat \<Rightarrow> int \<Rightarrow> bool option" where
  "intsetValidate_loop is 0 i prev = Some True"
| "intsetValidate_loop is (Suc n) i prev = do {
     cur \<leftarrow> u_intsetGet is (to_signed 32 i);
     if cur \<le> prev then Some False else intsetValidate_loop is n (Suc i) cur
   }"

definition intsetValidateIntegrity :: "bytes \<Rightarrow> nat \<Rightarrow> bool \<Rightarrow> bool option" where
  "intsetValidateIntegrity p blobsize deep =
     (if blobsize < 8 then Some False
      else
        (let is = intset_cast p; encoding = is_encoding is; count = is_length is in
         if encoding \<noteq> INTSET_ENC_INT64 \<and> encoding \<noteq> INTSET_ENC_INT32 \<and> encoding \<noteq> INTSET_ENC_INT16
         then Some False
         else if 8 + count * encoding \<noteq> blobsize then Some False
         else if count = 0 then Some False
         else if \<not> deep then Some True
         else do { prev \<leftarrow> u_intsetGet is 0; intsetValidate_loop is (count - 1) 1 prev }))"

section \<open>The values an intset represents\<close>

definition fits :: "nat \<Rightarrow> int \<Rightarrow> bool" where
  "fits n v \<longleftrightarrow> - (2 ^ (8 * n - 1)) \<le> v \<and> v < 2 ^ (8 * n - 1)"

definition intset_rep :: "intset \<Rightarrow> int list \<Rightarrow> bool" where
  "intset_rep is vs \<longleftrightarrow>
     is_encoding is \<in> {2, 4, 8} \<and> is_length is = length vs \<and> length vs < 2 ^ 31 \<and>
     is_contents is = concat (map (le_int_bytes (is_encoding is)) vs) \<and>
     list_all (fits (is_encoding is)) vs"

definition intset_vals :: "intset \<Rightarrow> int list" where
  "intset_vals is = map (\<lambda>i. le_int (take (is_encoding is) (drop (i * is_encoding is) (is_contents is))))
     [0..<is_length is]"

definition intset_shape :: "intset \<Rightarrow> bool" where
  "intset_shape is \<longleftrightarrow>
     is_encoding is \<in> {2, 4, 8} \<and> length (is_contents is) = is_length is * is_encoding is \<and>
     is_length is < 2 ^ 31"

definition intset_ok :: "intset \<Rightarrow> bool" where
  "intset_ok is \<longleftrightarrow> intset_shape is \<and> sorted_wrt (<) (intset_vals is)"

definition intset_elems :: "intset \<Rightarrow> int set" where
  "intset_elems is = set (intset_vals is)"

lemma fixed_width_le_int_bytes [simp]: "fixed_width n (le_int_bytes n)"
  by (simp add: fixed_width_def)

lemma fits_codec: "fits n v \<Longrightarrow> 0 < n \<Longrightarrow> le_int (le_int_bytes n v) = v"
  by (simp add: fits_def le_int_le_int_bytes)

lemma fits_le_int: "0 < length bs \<Longrightarrow> fits (length bs) (le_int bs)"
  using to_signed_bounds [of "8 * length bs" "le_nat bs"] le_nat_less [of bs]
  by (simp add: fits_def le_int_def pow256)

lemma fits_mono: "fits m v \<Longrightarrow> m \<le> n \<Longrightarrow> 0 < m \<Longrightarrow> fits n v"
proof -
  assume a: "fits m v" "m \<le> n" "0 < m"
  then have "(2::int) ^ (8 * m - 1) \<le> 2 ^ (8 * n - 1)" by (intro power_increasing) auto
  then show ?thesis using a(1) unfolding fits_def by linarith
qed

lemma rep_vals: "intset_rep is vs \<Longrightarrow> intset_vals is = vs"
proof -
  assume r: "intset_rep is vs"
  define n where "n = is_encoding is"
  have n: "0 < n" using r by (auto simp: intset_rep_def n_def)
  show ?thesis
  proof (rule nth_equalityI)
    show "length (intset_vals is) = length vs" using r by (simp add: intset_vals_def intset_rep_def)
  next
    fix i assume "i < length (intset_vals is)"
    then have i: "i < length vs" using r by (simp add: intset_vals_def intset_rep_def)
    have c: "is_contents is = concat (map (le_int_bytes n) vs)" using r by (simp add: intset_rep_def n_def)
    have "take n (drop (i * n) (is_contents is)) = le_int_bytes n (vs ! i)"
      using i mem_read_record [of n "le_int_bytes n" i vs "[]"]
      by (simp add: c mem_read_def split: if_splits)
    moreover have "fits n (vs ! i)" using r i by (simp add: intset_rep_def n_def list_all_length)
    ultimately show "intset_vals is ! i = vs ! i"
      using r i n by (simp add: intset_vals_def fits_codec intset_rep_def flip: n_def)
  qed
qed

lemma concat_chunks:
  "length bs = k * n \<Longrightarrow> concat (map (\<lambda>i. take n (drop (i * n) bs)) [0..<k]) = bs"
proof (induction k arbitrary: bs)
  case 0
  then show ?case by simp
next
  case (Suc k)
  have "concat (map (\<lambda>i. take n (drop (i * n) (drop n bs))) [0..<k]) = drop n bs"
    using Suc.prems by (intro Suc.IH) simp
  moreover have "map (\<lambda>i. take n (drop (i * n) bs)) [0..<Suc k] =
      take n bs # map (\<lambda>i. take n (drop (i * n) (drop n bs))) [0..<k]"
    by (simp add: upt_conv_Cons map_Suc_upt [symmetric] add.commute del: upt_Suc map_Suc_upt)
  ultimately show ?case by simp
qed

lemma shape_rep: "intset_shape is \<Longrightarrow> intset_rep is (intset_vals is)"
proof -
  assume ok: "intset_shape is"
  define n where "n = is_encoding is"
  have n: "0 < n" using ok by (auto simp: intset_shape_def n_def)
  have len: "length (is_contents is) = is_length is * n" using ok by (simp add: intset_shape_def n_def)
  have chunk: "length (take n (drop (i * n) (is_contents is))) = n" if "i < is_length is" for i
  proof -
    have "Suc i * n \<le> is_length is * n" using that by (intro mult_le_mono1) simp
    then show ?thesis using len by simp
  qed
  have "concat (map (le_int_bytes n) (intset_vals is)) =
      concat (map (\<lambda>i. take n (drop (i * n) (is_contents is))) [0..<is_length is])"
    using chunk n by (intro arg_cong [of _ _ concat])
      (simp add: intset_vals_def le_int_bytes_le_int flip: n_def)
  also have "\<dots> = is_contents is" using len by (rule concat_chunks)
  finally have "is_contents is = concat (map (le_int_bytes n) (intset_vals is))" by simp
  moreover have "list_all (fits n) (intset_vals is)"
    using fits_le_int chunk n by (auto simp: list_all_iff intset_vals_def n_def [symmetric] chunk)
       (metis chunk fits_le_int)
  ultimately show ?thesis
    using ok by (simp add: intset_rep_def intset_shape_def n_def intset_vals_def)
qed

lemma ok_rep: "intset_ok is \<Longrightarrow> intset_rep is (intset_vals is)"
  by (simp add: intset_ok_def shape_rep)

lemma rep_ok: "intset_rep is vs \<Longrightarrow> intset_ok is \<longleftrightarrow> sorted_wrt (<) vs"
  using rep_vals [of "is" vs] length_records [of "is_encoding is" "le_int_bytes (is_encoding is)" vs]
  by (auto simp: intset_ok_def intset_shape_def intset_rep_def)


section \<open>Reading and searching\<close>

lemma getEncoded_record:
  assumes "is_contents is = concat (map (le_int_bytes n) vs) @ rest" and "n \<in> {2, 4, 8}"
    and "i < length vs" and "fits n (vs ! i)"
  shows "u_intsetGetEncoded is (int i) n = Some (vs ! i)"
proof -
  have "mem_read (is_contents is) (i * n) n = Some (le_int_bytes n (vs ! i))"
    using assms by (simp add: mem_read_record)
  then show ?thesis using assms by (auto simp: u_intsetGetEncoded_def fits_codec)
qed

lemma intsetGet_nth:
  "intset_rep is vs \<Longrightarrow> i < length vs \<Longrightarrow> u_intsetGet is (int i) = Some (vs ! i)"
  using getEncoded_record [of "is" "is_encoding is" vs "[]" i]
  by (auto simp: u_intsetGet_def intset_rep_def list_all_length)

lemma intsetGet_head: "intset_rep is vs \<Longrightarrow> vs \<noteq> [] \<Longrightarrow> u_intsetGet is 0 = Some (hd vs)"
  using intsetGet_nth [of "is" vs 0] by (simp add: hd_conv_nth)

definition ins_pos :: "int list \<Rightarrow> int \<Rightarrow> nat" where
  "ins_pos vs v = length (takeWhile (\<lambda>x. x < v) vs)"

lemma ins_pos_le: "ins_pos vs v \<le> length vs"
  by (simp add: ins_pos_def length_takeWhile_le)

lemma ins_pos_eqI:
  assumes "\<And>i. i < k \<Longrightarrow> vs ! i < v" and "k < length vs \<Longrightarrow> v \<le> vs ! k" and "k \<le> length vs"
  shows "ins_pos vs v = k"
proof -
  have "takeWhile (\<lambda>x. x < v) vs = take k vs"
    using assms by (intro takeWhile_eq_take_P_nth) (auto simp: not_less)
  then show ?thesis using assms(3) by (simp add: ins_pos_def)
qed

lemma sorted_wrt_nth_mono:
  "sorted_wrt (<) vs \<Longrightarrow> i < length vs \<Longrightarrow> j < length vs \<Longrightarrow> (vs ! i < vs ! j) = (i < j)"
  for vs :: "int list"
  by (metis linorder_neqE_nat order_less_asym order_less_irrefl sorted_wrt_iff_nth_less)

lemma search_loop_correct:
  assumes "intset_rep is vs" and "sorted_wrt (<) vs"
  shows "lo \<le> hi + 1 \<Longrightarrow> 0 \<le> lo \<Longrightarrow> hi < int (length vs) \<Longrightarrow>
    (\<forall>i. int i < lo \<longrightarrow> vs ! i < v) \<Longrightarrow>
    (\<forall>i<length vs. hi < int i \<longrightarrow> v < vs ! i) \<Longrightarrow> lo \<le> hi \<or> cur \<noteq> v \<Longrightarrow>
    \<exists>mid' cur' lo'. intsetSearch_loop is v lo hi mid cur = Some (mid', cur', lo') \<and>
      (if v \<in> set vs then cur' = v \<and> mid' = int (ins_pos vs v)
       else cur' \<noteq> v \<and> lo' = int (ins_pos vs v))"
proof (induction "nat (hi - lo + 1)" arbitrary: lo hi mid cur rule: less_induct)
  case less
  have big: "length vs < 2 ^ 31" using assms(1) by (simp add: intset_rep_def)
  show ?case
  proof (cases "lo \<le> hi")
    case False
    then have eq: "lo = hi + 1" using less.prems by simp
    have pos: "ins_pos vs v = nat lo"
      using less.prems eq by (intro ins_pos_eqI) (auto simp: nat_less_iff less_imp_le)
    have "v \<notin> set vs"
    proof
      assume "v \<in> set vs"
      then obtain i where i: "i < length vs" "vs ! i = v" by (auto simp: in_set_conv_nth)
      show False
        using less.prems(4,5) i eq by (cases "int i < lo") auto
    qed
    then show ?thesis
      using False less.prems pos by (subst intsetSearch_loop.simps) auto
  next
    case True
    define m where "m = (lo + hi) div 2"
    have rng: "lo \<le> m" "m \<le> hi" "0 \<le> m" using True less.prems by (auto simp: m_def)
    have sum: "0 \<le> lo + hi" "lo + hi < 2 ^ 32" "lo < 2 ^ 32" "hi < 2 ^ 32" "0 \<le> hi"
      using True less.prems big by auto
    then have mid: "int (wadd 32 (of_signed 32 lo) (of_signed 32 hi) div 2) = m"
      using less.prems(2) by (simp add: of_signed_nonneg wadd_def m_def nat_add_distrib [symmetric]
        zdiv_int nat_less_iff)
    have mlen: "nat m < length vs" using rng less.prems(3) by (simp add: nat_less_iff)
    have get: "u_intsetGet is m = Some (vs ! nat m)"
      using intsetGet_nth [OF assms(1) mlen] rng by simp
    note unf = intsetSearch_loop.simps [of "is" v lo hi mid cur]
    consider "vs ! nat m < v" | "v < vs ! nat m" | "v = vs ! nat m" by linarith
    then show ?thesis
    proof cases
      case 1
      have "\<exists>mid' cur' lo'. intsetSearch_loop is v (m + 1) hi m (vs ! nat m) = Some (mid', cur', lo') \<and>
          (if v \<in> set vs then cur' = v \<and> mid' = int (ins_pos vs v)
           else cur' \<noteq> v \<and> lo' = int (ins_pos vs v))"
      proof (rule less.hyps)
        show "\<forall>i. int i < m + 1 \<longrightarrow> vs ! i < v"
        proof (intro allI impI)
          fix i assume "int i < m + 1"
          then have "i \<le> nat m" by linarith
          then show "vs ! i < v"
            using 1 sorted_wrt_nth_mono [OF assms(2), of i "nat m"] mlen by (cases "i = nat m") auto
        qed
      qed (use 1 True rng less.prems in auto)
      then show ?thesis using True 1 by (simp add: unf mid get Let_def)
    next
      case 2
      have "\<exists>mid' cur' lo'. intsetSearch_loop is v lo (m - 1) m (vs ! nat m) = Some (mid', cur', lo') \<and>
          (if v \<in> set vs then cur' = v \<and> mid' = int (ins_pos vs v)
           else cur' \<noteq> v \<and> lo' = int (ins_pos vs v))"
      proof (rule less.hyps)
        show "\<forall>i<length vs. m - 1 < int i \<longrightarrow> v < vs ! i"
        proof (intro allI impI)
          fix i assume "i < length vs" "m - 1 < int i"
          then have "nat m \<le> i" by linarith
          then show "v < vs ! i"
            using 2 sorted_wrt_nth_mono [OF assms(2), of "nat m" i] mlen \<open>i < length vs\<close>
            by (cases "i = nat m") auto
        qed
      qed (use 2 True rng less.prems in auto)
      then show ?thesis using True 2 by (simp add: unf mid get Let_def)
    next
      case 3
      have "ins_pos vs v = nat m"
        using 3 sorted_wrt_nth_mono [OF assms(2), of _ "nat m"] mlen by (intro ins_pos_eqI) auto
      moreover have "v \<in> set vs" using 3 mlen by simp
      moreover have "intsetSearch_loop is v lo hi mid cur = Some (m, v, lo)"
        unfolding unf mid Let_def get using True 3 by simp
      ultimately show ?thesis using rng by simp
    qed
  qed
qed


lemma wsub_one: "0 < n \<Longrightarrow> n < 2 ^ w \<Longrightarrow> wsub w n 1 = n - 1"
  by (intro wsub_exact) auto

lemma to_signed_32: "u < 2 ^ 31 \<Longrightarrow> to_signed 32 u = int u"
  by (simp add: to_signed_def)

lemma intsetGet_last:
  assumes "intset_rep is vs" and "vs \<noteq> []"
  shows "u_intsetGet is (to_signed 32 (wsub 32 (is_length is) 1)) = Some (last vs)"
proof -
  have l: "is_length is = length vs" "length vs < 2 ^ 31" "0 < length vs"
    using assms by (auto simp: intset_rep_def)
  then have "wsub 32 (is_length is) 1 = length vs - 1" by (simp add: wsub_one [simplified])
  moreover have "to_signed 32 (length vs - 1) = int (length vs - 1)"
    using l by (intro to_signed_32) auto
  ultimately show ?thesis
    using intsetGet_nth [OF assms(1), of "length vs - 1"] assms(2) by (simp add: last_conv_nth)
qed

lemma last_top: "sorted_wrt (<) vs \<Longrightarrow> x \<in> set vs \<Longrightarrow> x \<le> last vs" for vs :: "int list"
  by (cases vs rule: rev_cases) (auto simp: sorted_wrt_append less_imp_le)

lemma intsetSearch_correct:
  assumes "intset_rep is vs" and "sorted_wrt (<) vs"
  shows "intsetSearch is v = Some (v \<in> set vs, ins_pos vs v)"
proof (cases "vs = []")
  case True
  then show ?thesis using assms by (simp add: intsetSearch_def intset_rep_def ins_pos_def)
next
  case False
  have l: "is_length is = length vs" "length vs < 2 ^ 31" "0 < length vs"
    using assms False by (auto simp: intset_rep_def)
  have hi: "to_signed 32 (wsub 32 (is_length is) 1) = int (length vs) - 1"
    using l wsub_one [of "length vs" 32] to_signed_32 [of "length vs - 1"] by (simp add: of_nat_diff Suc_le_eq)
  note top = intsetGet_last [OF assms(1) False]
  note bot = intsetGet_head [OF assms(1) False]
  consider "last vs < v" | "v \<le> last vs" "v < hd vs" | "v \<le> last vs" "hd vs \<le> v" by linarith
  then show ?thesis
  proof cases
    case 1
    then have "\<forall>x\<in>set vs. x < v" using last_top [OF assms(2)] by fastforce
    then have "takeWhile (\<lambda>x. x < v) vs = vs" by simp
    then have "ins_pos vs v = length vs" by (simp only: ins_pos_def)
    then show ?thesis
      using 1 l top \<open>\<forall>x\<in>set vs. x < v\<close> by (auto simp: intsetSearch_def Let_def)
  next
    case 2
    then have "\<forall>x\<in>set vs. v < x" using assms(2) by (cases vs) auto
    moreover have "takeWhile (\<lambda>x. x < v) vs = []" using 2 by (cases vs) auto
    ultimately show ?thesis
      using 2 l top bot by (auto simp: intsetSearch_def Let_def ins_pos_def)
  next
    case 3
    obtain mid cur lo where loop: "intsetSearch_loop is v 0 (int (length vs) - 1) (- 1) (- 1) = Some (mid, cur, lo)"
      and res: "if v \<in> set vs then cur = v \<and> mid = int (ins_pos vs v)
        else cur \<noteq> v \<and> lo = int (ins_pos vs v)"
      using search_loop_correct [OF assms, of 0 "int (length vs) - 1" v "- 1" "- 1"] l by auto
    show ?thesis
      unfolding intsetSearch_def Let_def hi
      using 3 l top [unfolded hi] bot loop res by (auto split: if_splits)
  qed
qed


section \<open>Insertion, deletion and upgrade\<close>

lemma valueEncoding_cases: "u_intsetValueEncoding v \<in> {2, 4, 8}"
  by (simp add: u_intsetValueEncoding_def)

lemma valueEncoding_fits:
  "is_int64 v \<Longrightarrow> n \<in> {2, 4, 8} \<Longrightarrow> u_intsetValueEncoding v \<le> n \<longleftrightarrow> fits n v"
  by (auto simp: u_intsetValueEncoding_def fits_def is_int64_def)

definition ins_list :: "int list \<Rightarrow> int \<Rightarrow> int list" where
  "ins_list vs v = take (ins_pos vs v) vs @ v # drop (ins_pos vs v) vs"

lemma take_ins_pos: "take (ins_pos vs v) vs = takeWhile (\<lambda>x. x < v) vs"
  by (metis ins_pos_def takeWhile_eq_take)

lemma drop_ins_pos: "drop (ins_pos vs v) vs = dropWhile (\<lambda>x. x < v) vs"
  by (metis ins_pos_def dropWhile_eq_drop)

lemma sorted_dropWhile_ge:
  "sorted_wrt (<) vs \<Longrightarrow> v \<notin> set vs \<Longrightarrow> x \<in> set (dropWhile (\<lambda>x. x < v) vs) \<Longrightarrow> v < x"
  for vs :: "int list"
  by (induction vs) (auto split: if_splits)

lemma set_ins_list: "set (ins_list vs v) = insert v (set vs)"
proof -
  have "set (take (ins_pos vs v) vs) \<union> set (drop (ins_pos vs v) vs) = set vs"
    by (metis append_take_drop_id set_append)
  then show ?thesis by (auto simp: ins_list_def)
qed

lemma sorted_ins_list:
  assumes "sorted_wrt (<) vs" and "v \<notin> set vs"
  shows "sorted_wrt (<) (ins_list vs v)"
proof -
  have "sorted_wrt (<) (take (ins_pos vs v) vs @ drop (ins_pos vs v) vs)" using assms by simp
  moreover have "\<forall>x\<in>set (take (ins_pos vs v) vs). x < v"
    by (auto simp: take_ins_pos dest: set_takeWhileD)
  moreover have "\<forall>x\<in>set (drop (ins_pos vs v) vs). v < x"
    using sorted_dropWhile_ge [OF assms] by (auto simp: drop_ins_pos)
  ultimately show ?thesis
    unfolding ins_list_def sorted_wrt_append by auto
qed

text \<open>Writing one record into a gap of the right size.\<close>

lemma intsetSet_gap:
  assumes "is_encoding is = n" and "n \<in> {2, 4, 8}"
    and "is_contents is = concat (map (le_int_bytes n) xs) @ gap @ concat (map (le_int_bytes n) ys)"
    and "length gap = n" and "k = length xs"
  shows "u_intsetSet is k v =
    Some (is\<lparr>is_contents := concat (map (le_int_bytes n) (xs @ v # ys))\<rparr>)"
proof -
  have "k * n = length (concat (map (le_int_bytes n) xs))" "length (le_int_bytes n v) = length gap"
    using assms(4,5) by (simp_all only: length_records [OF fixed_width_le_int_bytes] length_le_int_bytes)
  then have "mem_write (is_contents is) (k * n) (le_int_bytes n v) =
      Some (concat (map (le_int_bytes n) (xs @ v # ys)))"
    unfolding assms(3) by (simp only: mem_write_middle) simp
  then show ?thesis using assms(1,2) by (auto simp: u_intsetSet_def)
qed

lemma moveTail_enc:
  "is_encoding is \<in> {2, 4, 8} \<Longrightarrow> intsetMoveTail is from to =
     map_option (\<lambda>c. is\<lparr>is_contents := c\<rparr>)
       (mem_move (is_contents is) (to * is_encoding is) (from * is_encoding is)
         ((wsub 32 (is_length is) from * is_encoding is) mod 2 ^ 32))"
  by (auto simp: intsetMoveTail_def)

lemma moveTail_up:
  assumes "intset_rep is vs" and "length vs < 2 ^ 29" and "k \<le> length vs"
    and "length slot = is_encoding is"
  shows "\<exists>gap. length gap = is_encoding is \<and>
    intsetMoveTail (is\<lparr>is_contents := is_contents is @ slot\<rparr>) k (k + 1) =
      Some (is\<lparr>is_contents := concat (map (le_int_bytes (is_encoding is)) (take k vs)) @ gap @
        concat (map (le_int_bytes (is_encoding is)) (drop k vs))\<rparr>)"
proof -
  define n where "n = is_encoding is"
  have r: "n \<in> {2, 4, 8}" "is_length is = length vs"
      "is_contents is = concat (map (le_int_bytes n) vs)"
    using assms(1) by (auto simp: intset_rep_def n_def)
  have "(length vs - k) * n \<le> length vs * 8" using r(1) by (intro mult_le_mono) auto
  also have "\<dots> < 2 ^ 32" using assms(2) by simp
  finally have nowrap: "(length vs - k) * n mod 2 ^ 32 = (length vs - k) * n" by simp
  have sub: "wsub 32 (is_length is) k = length vs - k"
    using r(2) assms(2,3) by (simp add: wsub_exact)
  obtain gap where g: "length gap = n" "mem_move (concat (map (le_int_bytes n) vs) @ slot)
      ((k + 1) * n) (k * n) ((length vs - k) * n) =
      Some (concat (map (le_int_bytes n) (take k vs)) @ gap @ concat (map (le_int_bytes n) (drop k vs)))"
    using mem_move_records_up [of n "le_int_bytes n" k vs slot] assms by (auto simp: n_def)
  have "intsetMoveTail (is\<lparr>is_contents := is_contents is @ slot\<rparr>) k (k + 1) =
      map_option (\<lambda>c. is\<lparr>is_contents := c\<rparr>) (mem_move (concat (map (le_int_bytes n) vs) @ slot)
      ((k + 1) * n) (k * n) ((length vs - k) * n))"
    using sub nowrap r(1,3) moveTail_enc [of "is\<lparr>is_contents := is_contents is @ slot\<rparr>" k "k + 1"]
    by (simp add: n_def [symmetric] del: One_nat_def mult_Suc distrib_right)
  then show ?thesis using g n_def by auto
qed

lemma moveTail_down:
  assumes "intset_rep is vs" and "length vs < 2 ^ 29" and "k < length vs"
  shows "\<exists>slot. length slot = is_encoding is \<and>
    intsetMoveTail is (k + 1) k =
      Some (is\<lparr>is_contents := concat (map (le_int_bytes (is_encoding is)) (take k vs @ drop (Suc k) vs)) @ slot\<rparr>)"
proof -
  define n where "n = is_encoding is"
  have r: "n \<in> {2, 4, 8}" "is_length is = length vs"
      "is_contents is = concat (map (le_int_bytes n) vs)"
    using assms(1) by (auto simp: intset_rep_def n_def)
  have "(length vs - (k + 1)) * n \<le> length vs * 8" using r(1) by (intro mult_le_mono) auto
  also have "\<dots> < 2 ^ 32" using assms(2) by simp
  finally have nowrap: "(length vs - (k + 1)) * n mod 2 ^ 32 = (length vs - (k + 1)) * n" by simp
  have sub: "wsub 32 (is_length is) (k + 1) = length vs - (k + 1)"
    unfolding r(2) using assms(2,3) by (intro wsub_exact) auto
  obtain slot where g: "length slot = n" "mem_move (concat (map (le_int_bytes n) vs))
      (k * n) ((k + 1) * n) ((length vs - (k + 1)) * n) =
      Some (concat (map (le_int_bytes n) (take k vs)) @ concat (map (le_int_bytes n) (drop (Suc k) vs)) @ slot)"
    using mem_move_records_down [of n "le_int_bytes n" k vs] assms by (auto simp: n_def)
  have "intsetMoveTail is (k + 1) k =
      map_option (\<lambda>c. is\<lparr>is_contents := c\<rparr>) (mem_move (concat (map (le_int_bytes n) vs))
      (k * n) ((k + 1) * n) ((length vs - (k + 1)) * n))"
    using r(1) unfolding n_def by (subst moveTail_enc) (simp_all only: sub nowrap r(3) n_def [symmetric])
  then show ?thesis using g n_def by auto
qed

lemma resize_grow:
  assumes "intset_rep is vs" and "length vs < 2 ^ 29"
  shows "\<exists>slot. length slot = is_encoding is \<and>
    intsetResize junk is (wadd 32 (is_length is) 1) = Some (is\<lparr>is_contents := is_contents is @ slot\<rparr>)"
proof -
  define n where "n = is_encoding is"
  have r: "n \<in> {2, 4, 8}" "is_length is = length vs"
      "is_contents is = concat (map (le_int_bytes n) vs)"
    using assms(1) by (auto simp: intset_rep_def n_def)
  have len: "length (is_contents is) = length vs * n"
    unfolding r(3) by (rule length_records) simp
  have w: "wadd 32 (is_length is) 1 = length vs + 1" unfolding r(2) using assms(2) by (intro wadd_exact) auto
  have "(length vs + 1) * n \<le> 2 ^ 30 * 8" using r(1) assms(2) by (intro mult_le_mono) auto
  then have "(length vs + 1) * n \<le> 18446744073709551615 - 8" by simp
  moreover have "realloc junk (is_contents is) ((length vs + 1) * n) =
      is_contents is @ map junk [length vs * n..<(length vs + 1) * n]"
    using len by (simp add: realloc_grow)
  ultimately show ?thesis
    unfolding intsetResize_def w n_def [symmetric] Let_def
    by (intro exI [of _ "map junk [length vs * n..<(length vs + 1) * n]"]) simp
qed

lemma intsetAdd_same_enc:
  assumes rep: "intset_rep is vs" and srt: "sorted_wrt (<) vs" and room: "length vs < 2 ^ 29"
    and fit: "fits (is_encoding is) v" and i64: "is_int64 v"
  shows "\<exists>is'. intsetAdd junk is v = Some (is', v \<notin> set vs) \<and>
    intset_rep is' (if v \<in> set vs then vs else ins_list vs v)"
proof -
  define n where "n = is_encoding is"
  have r: "n \<in> {2, 4, 8}" "is_length is = length vs"
      "is_contents is = concat (map (le_int_bytes n) vs)"
    using rep by (auto simp: intset_rep_def n_def)
  have enc: "\<not> u_intsetValueEncoding v > n"
    using valueEncoding_fits [OF i64 r(1)] fit by (simp add: n_def)
  note search = intsetSearch_correct [OF rep srt]
  show ?thesis
  proof (cases "v \<in> set vs")
    case True
    then show ?thesis using enc rep by (simp add: intsetAdd_def Let_def search n_def)
  next
    case False
    define k where "k = ins_pos vs v"
    have k: "k \<le> length vs" by (simp add: k_def ins_pos_le)
    obtain slot where slot: "length slot = n"
      "intsetResize junk is (wadd 32 (is_length is) 1) = Some (is\<lparr>is_contents := is_contents is @ slot\<rparr>)"
      using resize_grow [OF rep room] by (auto simp: n_def)
    have wk: "wadd 32 k 1 = k + 1" using k room by (intro wadd_exact) auto
    have wl: "wadd 32 (is_length is) 1 = length vs + 1"
      unfolding r(2) using room by (intro wadd_exact) auto
    have "\<exists>gap. length gap = n \<and> (if k < is_length is
        then intsetMoveTail (is\<lparr>is_contents := is_contents is @ slot\<rparr>) k (wadd 32 k 1)
        else Some (is\<lparr>is_contents := is_contents is @ slot\<rparr>)) =
        Some (is\<lparr>is_contents := concat (map (le_int_bytes n) (take k vs)) @ gap @
          concat (map (le_int_bytes n) (drop k vs))\<rparr>)"
    proof (cases "k < is_length is")
      case True
      then show ?thesis unfolding wk using moveTail_up [OF rep room k, of slot] slot n_def by auto
    next
      case False
      then show ?thesis using k r slot by (intro exI [of _ slot]) auto
    qed
    then obtain gap where gap: "length gap = n" "(if k < is_length is
        then intsetMoveTail (is\<lparr>is_contents := is_contents is @ slot\<rparr>) k (wadd 32 k 1)
        else Some (is\<lparr>is_contents := is_contents is @ slot\<rparr>)) =
        Some (is\<lparr>is_contents := concat (map (le_int_bytes n) (take k vs)) @ gap @
          concat (map (le_int_bytes n) (drop k vs))\<rparr>)" by blast
    define is1 where "is1 = is\<lparr>is_contents := concat (map (le_int_bytes n) (take k vs)) @ gap @
          concat (map (le_int_bytes n) (drop k vs))\<rparr>"
    have set: "u_intsetSet is1 k v =
        Some (is1\<lparr>is_contents := concat (map (le_int_bytes n) (take k vs @ v # drop k vs))\<rparr>)"
      using r(1) gap(1) k by (intro intsetSet_gap) (simp_all add: is1_def n_def)
    define is2 where "is2 = is\<lparr>is_length := length vs + 1,
      is_contents := concat (map (le_int_bytes n) (ins_list vs v))\<rparr>"
    have add: "intsetAdd junk is v = Some (is2, True)"
      using enc False search slot(2) gap(2) set wl
      by (simp add: intsetAdd_def Let_def n_def [symmetric] k_def [symmetric] is1_def [symmetric])
         (simp add: is1_def is2_def ins_list_def k_def)
    have "list_all (fits n) (ins_list vs v)"
      using rep fit set_ins_list [of vs v] by (auto simp: list_all_iff intset_rep_def n_def)
    then have "intset_rep is2 (ins_list vs v)"
      using r(1) room k by (simp add: intset_rep_def is2_def ins_list_def k_def [symmetric] n_def)
    then show ?thesis using add False by auto
  qed
qed

lemma resize_shrink:
  assumes "is_encoding is = n" and "n \<in> {2, 4, 8}" and "len < 2 ^ 31"
    and "is_contents is = bs @ slot" and "length bs = len * n"
  shows "intsetResize junk is len = Some (is\<lparr>is_contents := bs\<rparr>)"
proof -
  have "len * n \<le> 2 ^ 31 * 8" using assms(2,3) by (intro mult_le_mono) auto
  then have "len * n \<le> 18446744073709551615 - 8" by simp
  moreover have "realloc junk (bs @ slot) (len * n) = bs"
    using assms(5) by (simp add: realloc_shrink)
  ultimately show ?thesis using assms by (simp add: intsetResize_def Let_def)
qed

lemma ins_pos_mem:
  assumes "sorted_wrt (<) vs" and "v \<in> set vs"
  shows "ins_pos vs v < length vs \<and> vs ! ins_pos vs v = v"
proof -
  obtain i where i: "i < length vs" "vs ! i = v" using assms(2) by (auto simp: in_set_conv_nth)
  then have "ins_pos vs v = i"
    using sorted_wrt_nth_mono [OF assms(1), of _ i] by (intro ins_pos_eqI) auto
  then show ?thesis using i by simp
qed

definition del_list :: "int list \<Rightarrow> int \<Rightarrow> int list" where
  "del_list vs v = take (ins_pos vs v) vs @ drop (Suc (ins_pos vs v)) vs"

lemma del_list_props:
  assumes "sorted_wrt (<) vs" and "v \<in> set vs"
  shows "set (del_list vs v) = set vs - {v} \<and> sorted_wrt (<) (del_list vs v) \<and>
    Suc (length (del_list vs v)) = length vs"
proof -
  define k where "k = ins_pos vs v"
  have k: "k < length vs" "vs ! k = v" using ins_pos_mem [OF assms] by (simp_all add: k_def)
  have vs: "vs = take k vs @ v # drop (Suc k) vs" using id_take_nth_drop [OF k(1)] k(2) by simp
  have s: "sorted_wrt (<) (take k vs @ v # drop (Suc k) vs)" using assms(1) vs by simp
  then have "sorted_wrt (<) (del_list vs v)" "v \<notin> set (del_list vs v)"
    unfolding del_list_def k_def [symmetric] sorted_wrt_append by auto
  moreover have "set vs = insert v (set (del_list vs v))"
    unfolding del_list_def k_def [symmetric] by (subst vs) auto
  moreover have "Suc (length (del_list vs v)) = length vs"
    using k by (simp add: del_list_def k_def [symmetric])
  ultimately show ?thesis by auto
qed

lemma intsetRemove_correct:
  assumes rep: "intset_rep is vs" and srt: "sorted_wrt (<) vs" and room: "length vs < 2 ^ 29"
    and i64: "is_int64 v"
  shows "\<exists>is'. intsetRemove junk is v = Some (is', v \<in> set vs) \<and>
    intset_rep is' (if v \<in> set vs then del_list vs v else vs)"
proof -
  define n where "n = is_encoding is"
  have r: "n \<in> {2, 4, 8}" "is_length is = length vs"
      "is_contents is = concat (map (le_int_bytes n) vs)" "list_all (fits n) vs"
    using rep by (auto simp: intset_rep_def n_def)
  note enc = valueEncoding_fits [OF i64 r(1)]
  note search = intsetSearch_correct [OF rep srt]
  show ?thesis
  proof (cases "v \<in> set vs")
    case False
    then show ?thesis using rep by (simp add: intsetRemove_def Let_def search)
  next
    case True
    then have "fits n v" using r(4) by (simp add: list_all_iff)
    then have ve: "u_intsetValueEncoding v \<le> n" using enc by simp
    define k where "k = ins_pos vs v"
    have k: "k < length vs" using ins_pos_mem [OF srt True] by (simp add: k_def)
    have dl: "del_list vs v = take k vs @ drop (Suc k) vs" by (simp add: del_list_def k_def)
    have wl: "wsub 32 (is_length is) 1 = length vs - 1"
      unfolding r(2) using k room by (intro wsub_one) auto
    have wk: "wadd 32 k 1 = k + 1" using k room by (intro wadd_exact) auto
    have "\<exists>slot. (if k < length vs - 1 then intsetMoveTail is (wadd 32 k 1) k else Some is) =
        Some (is\<lparr>is_contents := concat (map (le_int_bytes n) (del_list vs v)) @ slot\<rparr>)"
    proof (cases "k < length vs - 1")
      case True
      then show ?thesis unfolding wk using moveTail_down [OF rep room k] by (auto simp: n_def dl)
    next
      case False
      then have e: "Suc k = length vs" using k by simp
      have "is_contents is = concat (map (le_int_bytes n) (del_list vs v)) @ le_int_bytes n (vs ! k)"
        using records_split [OF k, of "le_int_bytes n"] e by (simp add: r(3) dl)
      then have "is = is\<lparr>is_contents := concat (map (le_int_bytes n) (del_list vs v)) @ le_int_bytes n (vs ! k)\<rparr>"
        by (cases "is") simp
      then show ?thesis using False by (intro exI [of _ "le_int_bytes n (vs ! k)"]) (simp only: if_False)
    qed
    then obtain slot where mv: "(if k < length vs - 1 then intsetMoveTail is (wadd 32 k 1) k else Some is) =
        Some (is\<lparr>is_contents := concat (map (le_int_bytes n) (del_list vs v)) @ slot\<rparr>)" by blast
    have len: "length (del_list vs v) = length vs - 1" using k by (simp add: dl)
    have rz: "intsetResize junk (is\<lparr>is_contents := concat (map (le_int_bytes n) (del_list vs v)) @ slot\<rparr>)
        (length vs - 1) = Some (is\<lparr>is_contents := concat (map (le_int_bytes n) (del_list vs v))\<rparr>)"
      using r(1) room len length_records [OF fixed_width_le_int_bytes, of n "del_list vs v"]
      by (subst resize_shrink [where n = n]) (simp_all add: n_def)
    define is2 where "is2 = is\<lparr>is_length := length vs - 1,
      is_contents := concat (map (le_int_bytes n) (del_list vs v))\<rparr>"
    have rm: "intsetRemove junk is v = Some (is2, True)"
      using True ve search mv rz wl r(2)
      by (simp add: intsetRemove_def Let_def n_def [symmetric] k_def [symmetric] is2_def)
    have "list_all (fits n) (del_list vs v)"
      using r(4) del_list_props [OF srt True] by (auto simp: list_all_iff)
    then have "intset_rep is2 (del_list vs v)"
      using r(1) room len by (simp add: intset_rep_def is2_def n_def)
    then show ?thesis using rm True by auto
  qed
qed

text \<open>
  The upgrade loop: with \<open>n\<close> elements left to convert, the first \<open>n\<close> records of the
  old size are still intact at the start of the block and the converted ones are in place at
  its end. Going from the last element to the first keeps the two apart.
\<close>

lemma upgrade_loop_correct:
  assumes "cur \<in> {2, 4, 8}" and "new \<in> {2, 4, 8}" and "cur < new" and "p \<le> 1"
    and "list_all (fits cur) vs"
  shows "n \<le> length vs \<Longrightarrow> is_encoding is = new \<Longrightarrow>
    length (is_contents is) = (length vs + 1) * new \<Longrightarrow>
    take (n * cur) (is_contents is) = concat (map (le_int_bytes cur) (take n vs)) \<Longrightarrow>
    drop ((n + p) * new) (is_contents is) = concat (map (le_int_bytes new) (drop n vs)) @ t \<Longrightarrow>
    \<exists>X. intsetUpgrade_loop is n p cur = Some (is\<lparr>is_contents := X\<rparr>) \<and>
      length X = length (is_contents is) \<and> drop (p * new) X = concat (map (le_int_bytes new) vs) @ t"
proof (induction n arbitrary: "is")
  case 0
  have "is\<lparr>is_contents := is_contents is\<rparr> = is" by simp
  then show ?case using 0 by (intro exI [of _ "is_contents is"]) simp
next
  case (Suc n)
  define X where "X = is_contents is"
  have n: "n < length vs" using Suc.prems(1) by simp
  have fit: "fits cur (vs ! n)" using assms(5) n by (simp add: list_all_length)
  have "X = concat (map (le_int_bytes cur) (take (Suc n) vs)) @ drop (Suc n * cur) X"
    using Suc.prems(4) by (metis X_def append_take_drop_id)
  then have get: "u_intsetGetEncoded is (int n) cur = Some (vs ! n)"
    using getEncoded_record [of "is" cur "take (Suc n) vs" "drop (Suc n * cur) X" n] assms(1) n fit
    by (simp add: X_def)
  define Y where "Y = take ((n + p) * new) X @ le_int_bytes new (vs ! n) @ drop ((Suc n + p) * new) X"
  have "(Suc n + p) * new \<le> (length vs + 1) * new" using n assms(4) by (intro mult_le_mono1) auto
  then have bound: "(n + p) * new + new \<le> length X" using Suc.prems(3) by (simp add: X_def algebra_simps)
  then have "mem_write X ((n + p) * new) (le_int_bytes new (vs ! n)) = Some Y"
    by (simp add: mem_write_def Y_def algebra_simps)
  then have set: "u_intsetSet is (n + p) (vs ! n) = Some (is\<lparr>is_contents := Y\<rparr>)"
    using assms(2) Suc.prems(2) by (auto simp: u_intsetSet_def X_def)
  have lY: "length Y = length X" using bound by (simp add: Y_def algebra_simps)
  have "n * cur \<le> (n + p) * new" using assms(3) by (intro mult_le_mono) auto
  then have "take (n * cur) Y = take (n * cur) X"
    using bound by (simp add: Y_def min_def)
  also have "\<dots> = take (n * cur) (take (Suc n * cur) X)" by (simp add: min_def)
  also have "\<dots> = take (n * cur) (concat (map (le_int_bytes cur) (take (Suc n) vs)))"
    using Suc.prems(4) by (simp add: X_def)
  also have "\<dots> = concat (map (le_int_bytes cur) (take n vs))"
    by (subst take_records) (simp_all add: min_def)
  finally have tk: "take (n * cur) Y = concat (map (le_int_bytes cur) (take n vs))" .
  have "drop ((n + p) * new) Y = le_int_bytes new (vs ! n) @ drop ((Suc n + p) * new) X"
    using bound by (simp add: Y_def)
  also have "\<dots> = concat (map (le_int_bytes new) (drop n vs)) @ t"
    using Suc.prems(5) n by (simp add: X_def Cons_nth_drop_Suc [symmetric])
  finally have dr: "drop ((n + p) * new) Y = concat (map (le_int_bytes new) (drop n vs)) @ t" .
  have "\<exists>Z. intsetUpgrade_loop (is\<lparr>is_contents := Y\<rparr>) n p cur = Some ((is\<lparr>is_contents := Y\<rparr>)\<lparr>is_contents := Z\<rparr>) \<and>
      length Z = length (is_contents (is\<lparr>is_contents := Y\<rparr>)) \<and>
      drop (p * new) Z = concat (map (le_int_bytes new) vs) @ t"
    using n Suc.prems(2,3) lY tk dr by (intro Suc.IH) (simp_all add: X_def)
  then show ?case using get set lY by (simp add: X_def)
qed

lemma upgrade_correct:
  assumes rep: "intset_rep is vs" and room: "length vs < 2 ^ 29" and i64: "is_int64 v"
    and big: "is_encoding is < u_intsetValueEncoding v"
  shows "\<exists>is'. intsetUpgradeAndAdd junk is v = Some is' \<and>
    intset_rep is' (if v < 0 then v # vs else vs @ [v])"
proof -
  define cur new p where "cur = is_encoding is" and "new = u_intsetValueEncoding v"
    and "p = (if v < 0 then 1 else 0 :: nat)"
  have r: "cur \<in> {2, 4, 8}" "is_length is = length vs"
      "is_contents is = concat (map (le_int_bytes cur) vs)" "list_all (fits cur) vs"
    using rep by (auto simp: intset_rep_def cur_def)
  have new: "new \<in> {2, 4, 8}" "cur < new" "fits new v"
    using valueEncoding_cases [of v] big valueEncoding_fits [OF i64 valueEncoding_cases]
    by (auto simp: new_def cur_def)
  have len: "length (is_contents is) = length vs * cur"
    unfolding r(3) by (rule length_records) simp
  have wl: "wadd 32 (is_length is) 1 = length vs + 1"
    unfolding r(2) using room by (intro wadd_exact) auto
  have cnt: "to_signed 32 (is_length is) = int (length vs)"
    unfolding r(2) using room by (intro to_signed_32) auto
  define X0 where "X0 = realloc junk (is_contents is) ((length vs + 1) * new)"
  define is0 where "is0 = is\<lparr>is_encoding := new, is_contents := X0\<rparr>"
  have "(length vs + 1) * new \<le> 2 ^ 30 * 8" using new(1) room by (intro mult_le_mono) auto
  then have sz: "(length vs + 1) * new \<le> 18446744073709551615 - 8" by simp
  have rz: "intsetResize junk (is\<lparr>is_encoding := new\<rparr>) (length vs + 1) = Some is0"
    unfolding intsetResize_def using sz by (simp add: Let_def is0_def X0_def)
  have "length vs * cur \<le> (length vs + 1) * new" using new(2) by (intro mult_le_mono) auto
  then have "take (length vs * cur) X0 = is_contents is"
    using len by (simp add: X0_def realloc_grow)
  then have tk: "take (length vs * cur) (is_contents is0) = concat (map (le_int_bytes cur) (take (length vs) vs))"
    using r(3) by (simp add: is0_def)
  have dr: "drop ((length vs + p) * new) (is_contents is0) =
      concat (map (le_int_bytes new) (drop (length vs) vs)) @ drop ((length vs + p) * new) X0"
    by (simp add: is0_def)
  have p: "p \<le> 1" and lx: "length (is_contents is0) = (length vs + 1) * new" and en: "is_encoding is0 = new"
    by (simp_all add: p_def is0_def X0_def)
  obtain X where loop: "intsetUpgrade_loop is0 (length vs) p cur = Some (is0\<lparr>is_contents := X\<rparr>)"
    and lX: "length X = (length vs + 1) * new"
    and dX: "drop (p * new) X = concat (map (le_int_bytes new) vs) @ drop ((length vs + p) * new) X0"
    using upgrade_loop_correct [OF r(1) new(1,2) p r(4) order_refl en lx tk dr] unfolding lx by blast
  define is1 where "is1 = is0\<lparr>is_contents := X\<rparr>"
  have set: "\<exists>is2. (if p = 1 then u_intsetSet is1 0 v else u_intsetSet is1 (is_length is1) v) = Some is2 \<and>
      is2 = is0\<lparr>is_contents := concat (map (le_int_bytes new) (if v < 0 then v # vs else vs @ [v]))\<rparr>"
  proof (cases "v < 0")
    case True
    define g where "g = take new X"
    have "X = g @ concat (map (le_int_bytes new) vs)"
      using True dX lX append_take_drop_id [of new X] by (simp add: p_def X0_def g_def)
    moreover have "length g = new" using lX by (simp add: g_def)
    ultimately have "u_intsetSet is1 0 v = Some (is1\<lparr>is_contents := concat (map (le_int_bytes new) ([] @ v # vs))\<rparr>)"
      using new(1) by (intro intsetSet_gap) (simp_all add: is1_def is0_def)
    then show ?thesis using True by (simp add: p_def is1_def)
  next
    case False
    define g where "g = drop (length vs * new) X0"
    have "X = concat (map (le_int_bytes new) vs) @ g @ concat (map (le_int_bytes new) [])"
      using False dX by (simp add: p_def g_def)
    moreover have "length g = new" by (simp add: X0_def g_def)
    ultimately have "u_intsetSet is1 (length vs) v = Some (is1\<lparr>is_contents := concat (map (le_int_bytes new) (vs @ v # []))\<rparr>)"
      using new(1) by (intro intsetSet_gap) (simp_all add: is1_def is0_def)
    moreover have "is_length is1 = length vs" using r(2) by (simp add: is1_def is0_def)
    ultimately show ?thesis using False by (simp add: p_def is1_def)
  qed
  define is3 where "is3 = is0\<lparr>is_contents := concat (map (le_int_bytes new) (if v < 0 then v # vs else vs @ [v])),
    is_length := length vs + 1\<rparr>"
  have "is_length is0 = is_length is" by (simp add: is0_def)
  then have "intsetUpgradeAndAdd junk is v = Some is3"
    unfolding intsetUpgradeAndAdd_def Let_def new_def [symmetric] cur_def [symmetric] p_def [symmetric] wl cnt rz
    using loop set wl by (auto simp: is1_def [symmetric] is3_def)
  moreover have "list_all (fits new) (if v < 0 then v # vs else vs @ [v])"
    using r(1,4) new fits_mono [of cur _ new] by (auto simp: list_all_iff)
  then have "intset_rep is3 (if v < 0 then v # vs else vs @ [v])"
    using new(1) room by (simp add: intset_rep_def is3_def is0_def)
  ultimately show ?thesis by blast
qed

lemma intsetAdd_correct:
  assumes ok: "intset_ok is" and room: "is_length is < 2 ^ 29" and i64: "is_int64 v"
  shows "\<exists>is'. intsetAdd junk is v = Some (is', v \<notin> intset_elems is) \<and> intset_ok is' \<and>
    intset_elems is' = insert v (intset_elems is)"
proof -
  define vs where "vs = intset_vals is"
  have rep: "intset_rep is vs" using ok_rep [OF ok] by (simp add: vs_def)
  have srt: "sorted_wrt (<) vs" using ok by (simp add: intset_ok_def vs_def)
  have len: "is_length is = length vs" "is_encoding is \<in> {2, 4, 8}" "list_all (fits (is_encoding is)) vs"
    using rep by (simp_all add: intset_rep_def)
  have el: "intset_elems is = set vs" by (simp add: intset_elems_def vs_def)
  show ?thesis
  proof (cases "u_intsetValueEncoding v \<le> is_encoding is")
    case True
    then have "fits (is_encoding is) v" using valueEncoding_fits [OF i64 len(2)] by simp
    then obtain is' where "intsetAdd junk is v = Some (is', v \<notin> set vs)"
      "intset_rep is' (if v \<in> set vs then vs else ins_list vs v)"
      using intsetAdd_same_enc [OF rep srt _ _ i64] room len(1) by auto
    then show ?thesis
      using srt sorted_ins_list [OF srt] set_ins_list [of vs v] rep_ok [of is'] rep_vals [of is'] el
      by (cases "v \<in> set vs") (auto simp: intset_elems_def)
  next
    case False
    then have nf: "\<not> fits (is_encoding is) v" using valueEncoding_fits [OF i64 len(2)] by simp
    obtain is' where up: "intsetUpgradeAndAdd junk is v = Some is'"
      and rep': "intset_rep is' (if v < 0 then v # vs else vs @ [v])"
      using upgrade_correct [OF rep _ i64] room len(1) False by auto
    have out: "if v < 0 then \<forall>x\<in>set vs. v < x else \<forall>x\<in>set vs. x < v"
      using nf len(3) by (fastforce simp: list_all_iff fits_def)
    then have "v \<notin> set vs" by (auto split: if_splits)
    moreover have "sorted_wrt (<) (if v < 0 then v # vs else vs @ [v])"
      using srt out by (auto simp: sorted_wrt_append)
    moreover have "set (if v < 0 then v # vs else vs @ [v]) = insert v (set vs)" by auto
    ultimately show ?thesis
      using up rep_ok [OF rep'] rep_vals [OF rep'] False el
      by (simp add: intsetAdd_def Let_def intset_elems_def)
  qed
qed

lemma intsetRemove_ok:
  assumes ok: "intset_ok is" and room: "is_length is < 2 ^ 29" and i64: "is_int64 v"
  shows "\<exists>is'. intsetRemove junk is v = Some (is', v \<in> intset_elems is) \<and> intset_ok is' \<and>
    intset_elems is' = intset_elems is - {v} \<and> is_length is' \<le> is_length is"
proof -
  define vs where "vs = intset_vals is"
  have rep: "intset_rep is vs" using ok_rep [OF ok] by (simp add: vs_def)
  have srt: "sorted_wrt (<) vs" using ok by (simp add: intset_ok_def vs_def)
  have len: "is_length is = length vs" using rep by (simp_all add: intset_rep_def)
  have el: "intset_elems is = set vs" by (simp add: intset_elems_def vs_def)
  obtain is' where rm: "intsetRemove junk is v = Some (is', v \<in> set vs)"
    and rep': "intset_rep is' (if v \<in> set vs then del_list vs v else vs)"
    using intsetRemove_correct [OF rep srt _ i64] room len by auto
  show ?thesis
    using rm rep_ok [OF rep'] rep_vals [OF rep'] rep' len el srt del_list_props [OF srt, of v]
    by (cases "v \<in> set vs") (auto simp: intset_elems_def intset_rep_def)
qed

lemma intsetFind_correct:
  assumes ok: "intset_ok is" and i64: "is_int64 v"
  shows "intsetFind is v = Some (v \<in> intset_elems is)"
proof -
  define vs where "vs = intset_vals is"
  have rep: "intset_rep is vs" using ok_rep [OF ok] by (simp add: vs_def)
  have srt: "sorted_wrt (<) vs" using ok by (simp add: intset_ok_def vs_def)
  have "is_encoding is \<in> {2, 4, 8}" "list_all (fits (is_encoding is)) vs"
    using rep by (simp_all add: intset_rep_def)
  then show ?thesis
    using intsetSearch_correct [OF rep srt] valueEncoding_fits [OF i64, of "is_encoding is"]
    by (auto simp: intsetFind_def intset_elems_def vs_def [symmetric] list_all_iff)
qed

section \<open>Access by position, minimum, maximum\<close>

lemma card_elems: "intset_ok is \<Longrightarrow> card (intset_elems is) = is_length is"
  using ok_rep [of "is"]
  by (auto simp: intset_ok_def intset_elems_def distinct_card strict_sorted_iff intset_rep_def)

lemma intsetGet_ok:
  assumes "intset_ok is"
  shows "intsetGet is pos = Some (if pos < is_length is then Some (intset_vals is ! pos) else None)"
proof -
  have "intset_rep is (intset_vals is)" using ok_rep [OF assms] .
  then show ?thesis
    using intsetGet_nth [of "is" "intset_vals is" pos] to_signed_32 [of pos]
    by (auto simp: intsetGet_def intset_rep_def)
qed

lemma intsetMin_ok:
  assumes "intset_ok is" and "intset_elems is \<noteq> {}"
  shows "intsetMin is = Some (Min (intset_elems is))"
proof -
  obtain v vs where vs: "intset_vals is = v # vs" using assms(2) by (cases "intset_vals is") (auto simp: intset_elems_def)
  have "\<forall>x\<in>set vs. v < x" using assms(1) vs by (simp add: intset_ok_def)
  then have "Min (intset_elems is) = v" by (intro Min_eqI) (auto simp: intset_elems_def vs)
  then show ?thesis using intsetGet_head [OF ok_rep [OF assms(1)]] vs by (simp add: intsetMin_def)
qed

lemma intsetMax_ok:
  assumes "intset_ok is" and "intset_elems is \<noteq> {}"
  shows "intsetMax is = Some (Max (intset_elems is))"
proof -
  have ne: "intset_vals is \<noteq> []" and srt: "sorted_wrt (<) (intset_vals is)"
    using assms by (auto simp: intset_elems_def intset_ok_def)
  have "Max (intset_elems is) = last (intset_vals is)"
    using last_top [OF srt] ne by (intro Max_eqI) (auto simp: intset_elems_def)
  then show ?thesis using intsetGet_last [OF ok_rep [OF assms(1)] ne] by (simp add: intsetMax_def)
qed

lemma intsetRandom_ok:
  assumes "intset_ok is" and "intset_elems is \<noteq> {}"
  shows "\<exists>v\<in>intset_elems is. intsetRandom r is = Some v"
proof -
  have rep: "intset_rep is (intset_vals is)" using ok_rep [OF assms(1)] .
  have "is_length is \<noteq> 0" using assms(2) by (auto simp: intset_elems_def intset_vals_def)
  then have "r mod is_length is < length (intset_vals is)" using rep by (simp add: intset_rep_def)
  then show ?thesis
    using intsetGet_nth [OF rep] \<open>is_length is \<noteq> 0\<close>
    by (auto simp: intsetRandom_def intset_elems_def intro!: bexI [OF _ nth_mem])
qed

section \<open>The validator\<close>

lemma validate_loop_correct:
  assumes rep: "intset_rep is vs"
  shows "i + n = length vs \<Longrightarrow>
    intsetValidate_loop is n i prev = Some (sorted_wrt (<) (prev # drop i vs))"
proof (induction n arbitrary: i prev)
  case 0
  then show ?case by simp
next
  case (Suc n)
  then have i: "i < length vs" "to_signed 32 i = int i"
    using rep to_signed_32 [of i] by (auto simp: intset_rep_def)
  have "prev < vs ! i \<Longrightarrow> sorted_wrt (<) (prev # drop i vs) \<longleftrightarrow> sorted_wrt (<) (vs ! i # drop (Suc i) vs)"
    by (subst Cons_nth_drop_Suc [OF i(1), symmetric]) auto
  moreover have "\<not> prev < vs ! i \<Longrightarrow> \<not> sorted_wrt (<) (prev # drop i vs)"
    by (subst Cons_nth_drop_Suc [OF i(1), symmetric]) auto
  ultimately show ?case
    using Suc.IH [of "Suc i" "vs ! i"] Suc.prems intsetGet_nth [OF rep i(1)] i(2)
    by (auto simp: not_less)
qed

lemma length_cast: "length (is_contents (intset_cast p)) = length p - 8"
  by (simp add: intset_cast_def)

lemma validate_correct:
  assumes len: "length p < 2 ^ 32"
  shows "intsetValidateIntegrity p (length p) True =
    Some (8 \<le> length p \<and> intset_ok (intset_cast p) \<and> intset_elems (intset_cast p) \<noteq> {})"
proof (cases "8 \<le> length p \<and> is_encoding (intset_cast p) \<in> {2, 4, 8} \<and>
    8 + is_length (intset_cast p) * is_encoding (intset_cast p) = length p")
  case False
  then show ?thesis
    by (auto simp: intsetValidateIntegrity_def Let_def intset_ok_def intset_shape_def length_cast)
next
  case True
  define s where "s = intset_cast p"
  have "is_length s * 2 \<le> is_length s * is_encoding s" using True by (intro mult_le_mono) (auto simp: s_def)
  then have shape: "intset_shape s"
    using True len length_cast [of p] by (auto simp: intset_shape_def s_def)
  then have rep: "intset_rep s (intset_vals s)" by (rule shape_rep)
  show ?thesis
  proof (cases "intset_vals s")
    case Nil
    then have "is_length s = 0" using rep by (simp add: intset_rep_def)
    then show ?thesis using True Nil by (auto simp: intsetValidateIntegrity_def s_def intset_elems_def)
  next
    case (Cons v vs)
    then have l: "is_length s = Suc (length vs)" using rep by (simp add: intset_rep_def)
    have "intsetValidate_loop s (length vs) 1 v = Some (sorted_wrt (<) (v # vs))"
      using validate_loop_correct [OF rep, of 1 "length vs" v] Cons by simp
    moreover have "u_intsetGet s 0 = Some v" using intsetGet_head [OF rep] Cons by simp
    ultimately show ?thesis
      using True shape Cons l
      by (auto simp: intsetValidateIntegrity_def Let_def s_def [symmetric] intset_ok_def intset_elems_def)
  qed
qed

section \<open>The set contract\<close>

definition intset_invar :: "intset \<Rightarrow> bool" where
  "intset_invar is \<longleftrightarrow> intset_ok is \<and> is_length is < 2 ^ 29"

definition intset_room :: "intset \<Rightarrow> bool" where
  "intset_room is \<longleftrightarrow> is_length is < 2 ^ 29 - 1"

lemma intsetAdd_invar:
  assumes "intset_invar is" and "intset_room is" and "is_int64 v"
  shows "\<exists>is'. intsetAdd junk is v = Some (is', v \<notin> intset_elems is) \<and> intset_invar is' \<and>
    intset_elems is' = insert v (intset_elems is)"
proof -
  obtain is' where is': "intsetAdd junk is v = Some (is', v \<notin> intset_elems is)" "intset_ok is'"
      "intset_elems is' = insert v (intset_elems is)"
    using intsetAdd_correct [of "is" v junk] assms by (auto simp: intset_invar_def)
  have "is_length is' \<le> Suc (is_length is)"
    using card_elems [OF is'(2)] card_elems [of "is"] assms(1) is'(3)
    by (auto simp: intset_invar_def card_insert_if intset_elems_def split: if_splits)
  then show ?thesis using is' assms(2) by (auto simp: intset_invar_def intset_room_def)
qed

interpretation iset: set_encoding "intsetAdd junk" "intsetRemove junk" intsetFind
  intset_elems intset_invar intset_room is_int64 "2 ^ 29 - 1" for junk
proof unfold_locales
  fix s v
  assume "intset_invar s" "intset_room s" "is_int64 v"
  then show "\<exists>s'. intsetAdd junk s v = Some (s', v \<notin> intset_elems s) \<and> intset_invar s' \<and>
      intset_elems s' = insert v (intset_elems s)"
    by (rule intsetAdd_invar)
next
  fix s v
  assume "intset_invar s" "is_int64 v"
  then show "\<exists>s'. intsetRemove junk s v = Some (s', v \<in> intset_elems s) \<and> intset_invar s' \<and>
      intset_elems s' = intset_elems s - {v}"
    using intsetRemove_ok [of s v junk] by (fastforce simp: intset_invar_def)
next
  fix s v
  assume "intset_invar s" "is_int64 v"
  then show "intsetFind s v = Some (v \<in> intset_elems s)"
    by (simp add: intset_invar_def intsetFind_correct)
next
  fix s
  assume inv: "intset_invar s"
  then show "finite (intset_elems s)" by (simp add: intset_elems_def)
  assume "card (intset_elems s) < 2 ^ 29 - 1"
  then show "intset_room s" using card_elems [of s] inv by (simp add: intset_invar_def intset_room_def)
qed

lemma intsetNew_ok: "intset_invar intsetNew" "intset_elems intsetNew = {}"
  by (simp_all add: intset_invar_def intset_ok_def intset_shape_def intsetNew_def intset_vals_def intset_elems_def)

lemma resize_enc: "intsetResize junk s n = Some s' \<Longrightarrow> is_encoding s' = is_encoding s"
  by (auto simp: intsetResize_def Let_def bind_eq_Some_conv)

lemma set_enc: "u_intsetSet s k v = Some s' \<Longrightarrow> is_encoding s' = is_encoding s"
  by (auto simp: u_intsetSet_def)

lemma upgrade_loop_enc: "intsetUpgrade_loop s n p c = Some s' \<Longrightarrow> is_encoding s' = is_encoding s"
  by (induction n arbitrary: s) (auto simp: bind_eq_Some_conv dest!: set_enc)

lemma upgradeAndAdd_encoding:
  "intsetUpgradeAndAdd junk is v = Some is' \<Longrightarrow> is_encoding is' = u_intsetValueEncoding v"
  unfolding intsetUpgradeAndAdd_def Let_def bind_eq_Some_conv
  by (auto split: if_splits dest!: resize_enc set_enc upgrade_loop_enc)

lemma moveTail_encoding: "intsetMoveTail s i j = Some s' \<Longrightarrow> is_encoding s' = is_encoding s"
  by (auto simp: intsetMoveTail_def Let_def)

lemma intsetAdd_encoding:
  "intsetAdd junk is v = Some (is', b) \<Longrightarrow> is_encoding is' = max (is_encoding is) (u_intsetValueEncoding v)"
  by (auto simp: intsetAdd_def Let_def bind_eq_Some_conv split: if_splits
      dest!: upgradeAndAdd_encoding resize_enc set_enc moveTail_encoding)

lemma vals_sorted_list: "intset_ok is \<Longrightarrow> intset_vals is = sorted_list_of_set (intset_elems is)"
  by (auto simp: intset_ok_def intset_elems_def strict_sorted_iff
      intro: sorted_distinct_set_unique)

lemma moveTail_wraps:
  assumes "is_encoding is = 8" and "is_length is = 2 ^ 29"
    and "8 \<le> length (is_contents is)"
  shows "intsetMoveTail is 0 1 = Some is"
proof -
  have "wsub 32 (is_length is) 0 = 2 ^ 29" using assms(2) by (subst wsub_exact) auto
  then show ?thesis using assms by (simp add: intsetMoveTail_def Let_def mem_move_def mem_read_def mem_write_def)
qed

lemma intsetAdd_full:
  assumes ok: "intset_ok is" and enc: "is_encoding is = 8" and len: "is_length is = 2 ^ 29"
    and i64: "is_int64 v" and below: "v < Min (intset_elems is)"
  shows "\<exists>is'. intsetAdd junk is v = Some (is', True) \<and>
    intset_vals is' = v # tl (intset_vals is) @ [le_int (map junk [2 ^ 32..<2 ^ 32 + 8])]"
proof -
  have rep: "intset_rep is (intset_vals is)" and srt: "sorted_wrt (<) (intset_vals is)"
    using ok ok_rep by (auto simp: intset_ok_def)
  obtain x xs where vs: "intset_vals is = x # xs"
    using rep len by (cases "intset_vals is") (auto simp: intset_rep_def)
  define slot where "slot = map junk [2 ^ 32..<2 ^ 32 + 8]"
  define w where "w = le_int slot"
  have lslot: "length slot = 8" by (simp add: slot_def)
  then have w: "fits 8 w" "le_int_bytes 8 w = slot" unfolding w_def
    using fits_le_int [of slot] le_int_bytes_le_int [of 8 slot] by simp_all
  have below': "\<forall>y\<in>set (x # xs). v < y"
    using below vs by (simp add: intset_elems_def)
  then have pos: "intsetSearch is v = Some (False, 0)"
    using intsetSearch_correct [OF rep srt] vs by (auto simp: ins_pos_def)
  have c: "is_contents is = concat (map (le_int_bytes 8) (x # xs))" and lc: "length (is_contents is) = 2 ^ 29 * 8"
    using rep ok enc len vs by (simp_all add: intset_rep_def intset_ok_def intset_shape_def)
  have rz: "intsetResize junk is (wadd 32 (is_length is) 1) = Some (is\<lparr>is_contents := is_contents is @ slot\<rparr>)"
    using lc enc len by (simp add: intsetResize_def wadd_def realloc_def slot_def)
  define s1 where "s1 = is\<lparr>is_contents := is_contents is @ slot\<rparr>"
  have mv: "intsetMoveTail s1 0 1 = Some s1" using enc len lslot by (intro moveTail_wraps) (simp_all add: s1_def)
  have set: "u_intsetSet s1 0 v = Some (s1\<lparr>is_contents := concat (map (le_int_bytes 8) ([] @ v # (xs @ [w])))\<rparr>)"
    using enc c w(2) by (intro intsetSet_gap [where gap = "le_int_bytes 8 x"]) (simp_all add: s1_def length_le_int_bytes)
  define s2 where "s2 = is\<lparr>is_contents := concat (map (le_int_bytes 8) (v # xs @ [w])), is_length := 2 ^ 29 + 1\<rparr>"
  have "u_intsetValueEncoding v \<le> 8" using valueEncoding_cases [of v] by auto
  then have "intsetAdd junk is v = Some (s2, True)"
    using enc len pos rz mv set by (simp add: intsetAdd_def Let_def s1_def s2_def wadd_def)
  moreover have "list_all (fits 8) xs" and "length xs + 1 = 2 ^ 29"
    using rep vs enc len by (auto simp: intset_rep_def)
  then have "intset_rep s2 (v # xs @ [w])"
    using enc i64 w(1) by (simp add: intset_rep_def s2_def is_int64_def fits_def)
  ultimately show ?thesis using rep_vals vs by (auto simp: w_def slot_def)
qed

section \<open>Properties\<close>

text \<open>
  C5. From \<open>intsetNew\<close>, any sequence of fewer than \<open>2^29\<close> calls of
  \<open>intsetAdd\<close>, \<open>intsetRemove\<close> and \<open>intsetFind\<close> on 64-bit values runs to the end
  (no assertion fails, no access leaves the block), whatever the reallocated memory holds;
  it answers every call as the mathematical set does, and the final block is a sorted,
  well-formed intset of exactly the elements of that set.
\<close>

theorem intset_refines_set:
  assumes "list_all (is_int64 \<circ> op_elem) ops" and "length ops < 2 ^ 29"
  shows "\<exists>is. set_run (intsetAdd junk) (intsetRemove junk) intsetFind ops intsetNew =
      Some (is, snd (set_spec ops {})) \<and> intset_ok is \<and> intset_elems is = fst (set_spec ops {})"
  using iset.run_refines [of intsetNew ops junk] assms intsetNew_ok
  by (auto simp: intset_invar_def)

theorem intset_refines_set_witness:
  "\<exists>is. set_run (intsetAdd (\<lambda>_. 7)) (intsetRemove (\<lambda>_. 7)) intsetFind
      [OpAdd 5, OpAdd (-70000), OpAdd 5, OpAdd 5000000000, OpRemove 5, OpFind 5, OpFind (-70000)] intsetNew =
      Some (is, [True, True, False, True, True, False, True]) \<and> intset_ok is \<and>
    intset_elems is = {-70000, 5000000000}"
  using intset_refines_set [of "[OpAdd 5, OpAdd (-70000), OpAdd 5, OpAdd 5000000000, OpRemove 5, OpFind 5, OpFind (-70000)]" "\<lambda>_. 7"]
  by (auto simp: is_int64_def)

text \<open>
  C20. On every well-formed intset with room, \<open>intsetAdd\<close> succeeds, reports whether the
  value was absent, and yields a well-formed intset of the old elements and the value; the
  encoding never shrinks and is the smallest one of the old encoding and the value's.
\<close>

theorem intsetAdd_inserts:
  assumes "intset_ok is" and "is_length is < 2 ^ 29" and "is_int64 v"
  shows "\<exists>is'. intsetAdd junk is v = Some (is', v \<notin> intset_elems is) \<and> intset_ok is' \<and>
    intset_elems is' = insert v (intset_elems is) \<and>
    is_encoding is' = max (is_encoding is) (u_intsetValueEncoding v)"
  using intsetAdd_correct [OF assms, of junk] intsetAdd_encoding [of junk "is" v] by blast

theorem intsetAdd_inserts_witness:
  "\<exists>is'. intsetAdd (\<lambda>_. 0) \<lparr>is_encoding = 2, is_length = 1, is_contents = [5, 0]\<rparr> 70000 = Some (is', True) \<and>
    intset_ok is' \<and> intset_elems is' = {5, 70000} \<and> is_encoding is' = 4"
  using intsetAdd_inserts [of "\<lparr>is_encoding = 2, is_length = 1, is_contents = [5, 0]\<rparr>" 70000 "\<lambda>_. 0"]
  by (auto simp: intset_ok_def intset_shape_def intset_elems_def intset_vals_def is_int64_def
      le_int_def to_signed_def u_intsetValueEncoding_def)

text \<open>
  C21. The validator with \<open>deep\<close> set accepts a blob exactly when it is long enough for the
  header, the header describes a well-formed, strictly sorted intset, and the set is not
  empty; on blobs of less than 4 GiB it never reads outside the blob.
\<close>

theorem intsetValidateIntegrity_exact:
  assumes "length p < 2 ^ 32"
  shows "intsetValidateIntegrity p (length p) True =
    Some (8 \<le> length p \<and> intset_ok (intset_cast p) \<and> intset_elems (intset_cast p) \<noteq> {})"
  using validate_correct [OF assms] .

theorem intsetValidateIntegrity_exact_witness:
  "intsetValidateIntegrity [2, 0, 0, 0, 2, 0, 0, 0, 5, 0, 4, 0] (length [2, 0, 0, 0, 2, 0, 0, 0, 5, 0, 4, 0 :: u8]) True = Some False \<and>
   \<not> intset_ok (intset_cast [2, 0, 0, 0, 2, 0, 0, 0, 5, 0, 4, 0])"
  using intsetValidateIntegrity_exact [of "[2, 0, 0, 0, 2, 0, 0, 0, 5, 0, 4, 0]"]
  by (simp add: intset_ok_def intset_cast_def intset_vals_def le_int_def to_signed_def upt_rec)

text \<open>
  C22. Access by position, minimum, maximum and random member of a non-empty well-formed
  intset: every position below the length gives the element of that rank, and
  \<open>intsetMin\<close>, \<open>intsetMax\<close> and \<open>intsetRandom\<close> the least, the greatest and some
  element.
\<close>

theorem intset_access:
  assumes "intset_ok is" and "intset_elems is \<noteq> {}"
  shows "intsetMin is = Some (Min (intset_elems is)) \<and> intsetMax is = Some (Max (intset_elems is)) \<and>
    (\<exists>v. intsetRandom r is = Some v \<and> v \<in> intset_elems is) \<and>
    intsetGet is pos = Some (if pos < intsetLen is then Some (sorted_list_of_set (intset_elems is) ! pos) else None)"
  using intsetMin_ok [OF assms] intsetMax_ok [OF assms] intsetRandom_ok [OF assms, of r]
    intsetGet_ok [OF assms(1), of pos] vals_sorted_list [OF assms(1)]
  by (auto simp: intsetLen_def)

theorem intset_access_witness:
  "intsetMax \<lparr>is_encoding = 2, is_length = 2, is_contents = [5, 0, 9, 0]\<rparr> = Some 9"
  using intset_access [of "\<lparr>is_encoding = 2, is_length = 2, is_contents = [5, 0, 9, 0]\<rparr>"]
  by (auto simp: intset_ok_def intset_shape_def intset_elems_def intset_vals_def le_int_def to_signed_def upt_rec)

text \<open>
  C23. The byte count of \<open>intsetMoveTail\<close> is a \<open>uint32_t\<close> and wraps for \<open>2^29\<close>
  records of 8 bytes. Adding a value below the minimum of such an intset moves nothing: the
  value overwrites the old minimum, which is lost, and the new last record is uninitialised.
\<close>

theorem intsetAdd_loses_element:
  assumes "intset_ok is" and "is_encoding is = 8" and "is_length is = 2 ^ 29"
    and "is_int64 v" and "v < Min (intset_elems is)"
  shows "\<exists>is'. intsetAdd junk is v = Some (is', True) \<and>
    intset_vals is' = v # tl (intset_vals is) @ [le_int (map junk [2 ^ 32..<2 ^ 32 + 8])]"
  using intsetAdd_full [OF assms] .

theorem intsetAdd_loses_element_witness:
  "\<exists>is'. intsetAdd (\<lambda>_. 0) \<lparr>is_encoding = 8, is_length = 2 ^ 29,
      is_contents = concat (map (le_int_bytes 8) [1..2 ^ 29])\<rparr> 0 = Some (is', True) \<and>
    intset_vals is' = 0 # tl [1..2 ^ 29] @ [0]"
proof -
  let ?is = "\<lparr>is_encoding = 8, is_length = 2 ^ 29, is_contents = concat (map (le_int_bytes 8) [1..2 ^ 29])\<rparr>"
  have rep: "intset_rep ?is [1..2 ^ 29]" by (simp add: intset_rep_def list_all_iff fits_def)
  then have ok: "intset_ok ?is" using rep_ok [OF rep] strict_sorted_iff [of "[1..2 ^ 29] :: int list"] by simp
  have "Min (intset_elems ?is) = 1" using rep_vals [OF rep] by (intro Min_eqI) (auto simp: intset_elems_def)
  then show ?thesis
    using intsetAdd_loses_element [OF ok, of 0 "\<lambda>_. 0"] rep_vals [OF rep] by (simp add: is_int64_def le_int_def to_signed_def)
qed

end
