(* ===== verification/Listpack.thy ===== *)
theory Listpack
  imports Util_Numbers
begin

text \<open>
  The listpack of \<open>src/listpack.c\<close>: one block with a 6-byte header (total bytes, number
  of elements), the entries, and a terminator byte. An entry is an encoded integer or string
  followed by its length, encoded so that it can be read backwards.

  This theory holds the definitions. A block is a list of bytes and a pointer into it is an
  offset; an outer \<open>None\<close> is a failed assertion or an access outside the block, an inner
  \<open>None\<close> a \<open>NULL\<close>. The allocator is given by two arguments: \<open>us n\<close>, the usable
  size of a block requested with \<open>n\<close> bytes, and \<open>junk\<close>, the contents of memory that
  was not written yet. The allocator of the server aborts instead of returning \<open>NULL\<close>.
\<close>

section \<open>Encoding bytes\<close>

abbreviation (input) "LP_HDR_SIZE \<equiv> (6 :: nat)"
abbreviation (input) "LP_HDR_NUMELE_UNKNOWN \<equiv> (65535 :: nat)"
abbreviation (input) "LP_EOF \<equiv> (0xFF :: u8)"
abbreviation (input) "UINT32_MAX \<equiv> (4294967295 :: nat)"
abbreviation (input) "LISTPACK_MAX_SAFETY_SIZE \<equiv> (1073741824 :: nat)"

definition LP_ENCODING_IS_7BIT_UINT :: "u8 \<Rightarrow> bool" where
  "LP_ENCODING_IS_7BIT_UINT byte \<longleftrightarrow> byte AND 0x80 = 0"

definition LP_ENCODING_IS_6BIT_STR :: "u8 \<Rightarrow> bool" where
  "LP_ENCODING_IS_6BIT_STR byte \<longleftrightarrow> byte AND 0xC0 = 0x80"

definition LP_ENCODING_IS_13BIT_INT :: "u8 \<Rightarrow> bool" where
  "LP_ENCODING_IS_13BIT_INT byte \<longleftrightarrow> byte AND 0xE0 = 0xC0"

definition LP_ENCODING_IS_12BIT_STR :: "u8 \<Rightarrow> bool" where
  "LP_ENCODING_IS_12BIT_STR byte \<longleftrightarrow> byte AND 0xF0 = 0xE0"

definition LP_ENCODING_IS_16BIT_INT :: "u8 \<Rightarrow> bool" where
  "LP_ENCODING_IS_16BIT_INT byte \<longleftrightarrow> byte AND 0xFF = 0xF1"

definition LP_ENCODING_IS_24BIT_INT :: "u8 \<Rightarrow> bool" where
  "LP_ENCODING_IS_24BIT_INT byte \<longleftrightarrow> byte AND 0xFF = 0xF2"

definition LP_ENCODING_IS_32BIT_INT :: "u8 \<Rightarrow> bool" where
  "LP_ENCODING_IS_32BIT_INT byte \<longleftrightarrow> byte AND 0xFF = 0xF3"

definition LP_ENCODING_IS_64BIT_INT :: "u8 \<Rightarrow> bool" where
  "LP_ENCODING_IS_64BIT_INT byte \<longleftrightarrow> byte AND 0xFF = 0xF4"

definition LP_ENCODING_IS_32BIT_STR :: "u8 \<Rightarrow> bool" where
  "LP_ENCODING_IS_32BIT_STR byte \<longleftrightarrow> byte AND 0xFF = 0xF0"

definition LP_ENCODING_6BIT_STR_LEN :: "u8 \<Rightarrow> nat" where
  "LP_ENCODING_6BIT_STR_LEN p0 = unat (p0 AND 0x3F)"

definition LP_ENCODING_12BIT_STR_LEN :: "u8 \<Rightarrow> u8 \<Rightarrow> nat" where
  "LP_ENCODING_12BIT_STR_LEN p0 p1 = unat (p0 AND 0xF) * 256 + unat p1"

definition LP_ENCODING_32BIT_STR_LEN :: "bytes \<Rightarrow> nat" where
  "LP_ENCODING_32BIT_STR_LEN p1_4 = le_nat p1_4"

section \<open>The header\<close>

definition lpGetTotalBytes :: "bytes \<Rightarrow> nat option" where
  "lpGetTotalBytes lp = map_option le_nat (mem_read lp 0 4)"

definition lpGetNumElements :: "bytes \<Rightarrow> nat option" where
  "lpGetNumElements lp = map_option le_nat (mem_read lp 4 2)"

definition lpSetTotalBytes :: "bytes \<Rightarrow> nat \<Rightarrow> bytes option" where
  "lpSetTotalBytes lp v = mem_write lp 0 (le_bytes 4 v)"

definition lpSetNumElements :: "bytes \<Rightarrow> nat \<Rightarrow> bytes option" where
  "lpSetNumElements lp v = mem_write lp 4 (le_bytes 2 v)"

definition lpBytes :: "bytes \<Rightarrow> nat option" where
  "lpBytes lp = lpGetTotalBytes lp"

definition ASSERT_INTEGRITY :: "bytes \<Rightarrow> nat \<Rightarrow> unit option" where
  "ASSERT_INTEGRITY lp p = do {
     total \<leftarrow> lpGetTotalBytes lp;
     c_assert (p \<ge> LP_HDR_SIZE \<and> p < total)
   }"

definition ASSERT_INTEGRITY_LEN :: "bytes \<Rightarrow> nat \<Rightarrow> nat \<Rightarrow> unit option" where
  "ASSERT_INTEGRITY_LEN lp p len = do {
     total \<leftarrow> lpGetTotalBytes lp;
     c_assert (p \<ge> LP_HDR_SIZE \<and> p + len < total)
   }"

definition lpSafeToAdd :: "bytes option \<Rightarrow> nat \<Rightarrow> bool option" where
  "lpSafeToAdd lp add = do {
     len \<leftarrow> (case lp of None \<Rightarrow> Some 0 | Some lp \<Rightarrow> lpGetTotalBytes lp);
     Some (\<not> wadd 64 len add > LISTPACK_MAX_SAFETY_SIZE)
   }"

text \<open>The allocator: \<open>lp_malloc\<close>, \<open>lp_realloc\<close>; \<open>lp_malloc_size\<close> is the length of the block.\<close>

definition lp_malloc :: "(nat \<Rightarrow> nat) \<Rightarrow> (nat \<Rightarrow> u8) \<Rightarrow> nat \<Rightarrow> bytes" where
  "lp_malloc us junk n = realloc junk [] (us n)"

definition lp_realloc :: "(nat \<Rightarrow> nat) \<Rightarrow> (nat \<Rightarrow> u8) \<Rightarrow> bytes \<Rightarrow> nat \<Rightarrow> bytes" where
  "lp_realloc us junk lp n = realloc junk lp (us n)"

definition lpNew :: "(nat \<Rightarrow> nat) \<Rightarrow> (nat \<Rightarrow> u8) \<Rightarrow> nat \<Rightarrow> bytes option" where
  "lpNew us junk capacity = do {
     let lp = lp_malloc us junk (if capacity > LP_HDR_SIZE + 1 then capacity else LP_HDR_SIZE + 1);
     lp \<leftarrow> lpSetTotalBytes lp (LP_HDR_SIZE + 1);
     lp \<leftarrow> lpSetNumElements lp 0;
     wr lp LP_HDR_SIZE LP_EOF
   }"

definition lpShrinkToFit :: "(nat \<Rightarrow> nat) \<Rightarrow> (nat \<Rightarrow> u8) \<Rightarrow> bytes \<Rightarrow> bytes option" where
  "lpShrinkToFit us junk lp = do {
     size \<leftarrow> lpGetTotalBytes lp;
     Some (if size < length lp then lp_realloc us junk lp size else lp)
   }"

definition lpDup :: "(nat \<Rightarrow> nat) \<Rightarrow> (nat \<Rightarrow> u8) \<Rightarrow> bytes \<Rightarrow> bytes option" where
  "lpDup us junk lp = do {
     lpbytes \<leftarrow> lpBytes lp;
     contents \<leftarrow> mem_read lp 0 lpbytes;
     mem_write (lp_malloc us junk lpbytes) 0 contents
   }"

section \<open>Encoding an element\<close>

text \<open>The digit loop of \<open>lpStringToInt64\<close>.\<close>

fun lpStringToInt64_loop :: "nat \<Rightarrow> bytes \<Rightarrow> (nat \<times> bytes) option" where
  "lpStringToInt64_loop v [] = Some (v, [])"
| "lpStringToInt64_loop v (c # p) =
     (if c \<ge> 48 \<and> c \<le> 57 then
        (if v > ULLONG_MAX div 10 then None
         else (let v = v * 10 in
           if v > ULLONG_MAX - (unat c - 48) then None
           else lpStringToInt64_loop (v + (unat c - 48)) p))
      else Some (v, c # p))"

definition lpStringToInt64 :: "bytes \<Rightarrow> int option" where
  "lpStringToInt64 s =
     (if length s = 0 \<or> length s \<ge> LONG_STR_SIZE then None
      else if length s = 1 \<and> s ! 0 = 48 then Some 0
      else
        (let negative = (s ! 0 = 45); p = (if negative then tl s else s) in
         if negative \<and> length s = 1 then None
         else if hd p \<ge> 49 \<and> hd p \<le> 57 then
           (case lpStringToInt64_loop (unat (hd p) - 48) (tl p) of
              None \<Rightarrow> None
            | Some (v, rest) \<Rightarrow>
                if rest \<noteq> [] then None
                else if negative then
                  (if v > nat (- (LLONG_MIN + 1)) + 1 then None
                   else Some (to_signed 64 (wsub 64 0 v)))
                else if v > nat LLONG_MAX then None
                else Some (to_signed 64 v))
         else None))"

text \<open>The bytes stored in \<open>intenc\<close>; \<open>enclen\<close> is their number.\<close>

definition lpEncodeIntegerGetType :: "int \<Rightarrow> bytes" where
  "lpEncodeIntegerGetType v =
     (if v \<ge> 0 \<and> v \<le> 127 then [of_int v]
      else if v \<ge> - 4096 \<and> v \<le> 4095 then
        (let v = (if v < 0 then 2 ^ 13 + v else v) in [of_int (v div 256) OR 0xC0, of_int (v mod 256)])
      else if v \<ge> - 32768 \<and> v \<le> 32767 then
        (let v = (if v < 0 then 2 ^ 16 + v else v) in 0xF1 # le_bytes 2 (nat v))
      else if v \<ge> - 8388608 \<and> v \<le> 8388607 then
        (let v = (if v < 0 then 2 ^ 24 + v else v) in 0xF2 # le_bytes 3 (nat v))
      else if v \<ge> - 2147483648 \<and> v \<le> 2147483647 then
        (let v = (if v < 0 then 2 ^ 32 + v else v) in 0xF3 # le_bytes 4 (nat v))
      else 0xF4 # le_bytes 8 (of_signed 64 v))"

text \<open>\<open>Some intenc\<close> is the return value \<open>LP_ENCODING_INT\<close>; the second component is \<open>enclen\<close>.\<close>

definition lpEncodeGetType :: "bytes \<Rightarrow> bytes option \<times> nat" where
  "lpEncodeGetType ele =
     (case lpStringToInt64 ele of
        Some v \<Rightarrow> (let intenc = lpEncodeIntegerGetType v in (Some intenc, length intenc))
      | None \<Rightarrow>
          (None,
           if length ele < 64 then 1 + length ele
           else if length ele < 4096 then 2 + length ele
           else 5 + length ele))"

text \<open>The bytes stored in \<open>buf\<close>; the return value is their number, also when \<open>buf\<close> is \<open>NULL\<close>.\<close>

definition lpEncodeBacklen :: "nat \<Rightarrow> bytes" where
  "lpEncodeBacklen l =
     (if l \<le> 127 then [of_nat l]
      else if l < 16383 then [of_nat (l div 2 ^ 7), of_nat (l mod 128 + 128)]
      else if l < 2097151 then
        [of_nat (l div 2 ^ 14), of_nat (l div 2 ^ 7 mod 128 + 128), of_nat (l mod 128 + 128)]
      else if l < 268435455 then
        [of_nat (l div 2 ^ 21), of_nat (l div 2 ^ 14 mod 128 + 128),
         of_nat (l div 2 ^ 7 mod 128 + 128), of_nat (l mod 128 + 128)]
      else
        [of_nat (l div 2 ^ 28), of_nat (l div 2 ^ 21 mod 128 + 128),
         of_nat (l div 2 ^ 14 mod 128 + 128), of_nat (l div 2 ^ 7 mod 128 + 128),
         of_nat (l mod 128 + 128)])"

definition lpBacklenSize :: "nat \<Rightarrow> nat" where
  "lpBacklenSize l = length (lpEncodeBacklen l)"

text \<open>The loop of \<open>lpDecodeBacklen\<close>, walking towards the start of the block.\<close>

function lpDecodeBacklen_loop :: "bytes \<Rightarrow> nat \<Rightarrow> nat \<Rightarrow> nat \<Rightarrow> nat option" where
  "lpDecodeBacklen_loop lp p val shift = do {
     b \<leftarrow> rd lp p;
     let val = val + unat (b AND 127) * 2 ^ shift;
     if b AND 128 = 0 then Some val
     else if shift + 7 > 28 then Some ULLONG_MAX
     else if p = 0 then None
     else lpDecodeBacklen_loop lp (p - 1) val (shift + 7)
   }"
  by pat_completeness auto
termination by (relation "measure (\<lambda>(lp, p, val, shift). 35 - shift)") auto

declare lpDecodeBacklen_loop.simps [simp del]

definition lpDecodeBacklen :: "bytes \<Rightarrow> nat \<Rightarrow> nat option" where
  "lpDecodeBacklen lp p = lpDecodeBacklen_loop lp p 0 0"

text \<open>The bytes \<open>lpEncodeString\<close> stores in \<open>buf\<close>.\<close>

definition lpEncodeString :: "bytes \<Rightarrow> bytes" where
  "lpEncodeString s =
     (let len = length s in
      if len < 64 then (of_nat len OR 0x80) # s
      else if len < 4096 then (of_nat (len div 256) OR 0xE0) # of_nat (len mod 256) # s
      else 0xF0 # le_bytes 4 len @ s)"

section \<open>Reading an entry\<close>

definition lpCurrentEncodedSizeUnsafe :: "bytes \<Rightarrow> nat \<Rightarrow> nat option" where
  "lpCurrentEncodedSizeUnsafe lp p = do {
     b \<leftarrow> rd lp p;
     if LP_ENCODING_IS_7BIT_UINT b then Some 1
     else if LP_ENCODING_IS_6BIT_STR b then Some (1 + LP_ENCODING_6BIT_STR_LEN b)
     else if LP_ENCODING_IS_13BIT_INT b then Some 2
     else if LP_ENCODING_IS_16BIT_INT b then Some 3
     else if LP_ENCODING_IS_24BIT_INT b then Some 4
     else if LP_ENCODING_IS_32BIT_INT b then Some 5
     else if LP_ENCODING_IS_64BIT_INT b then Some 9
     else if LP_ENCODING_IS_12BIT_STR b then do {
       b1 \<leftarrow> rd lp (p + 1);
       Some (2 + LP_ENCODING_12BIT_STR_LEN b b1)
     }
     else if LP_ENCODING_IS_32BIT_STR b then do {
       l \<leftarrow> mem_read lp (p + 1) 4;
       Some (wadd 32 5 (LP_ENCODING_32BIT_STR_LEN l))
     }
     else if b = LP_EOF then Some 1
     else Some 0
   }"

definition lpCurrentEncodedSizeBytes :: "bytes \<Rightarrow> nat \<Rightarrow> nat option" where
  "lpCurrentEncodedSizeBytes lp p = do {
     b \<leftarrow> rd lp p;
     Some (if LP_ENCODING_IS_7BIT_UINT b then 1
           else if LP_ENCODING_IS_6BIT_STR b then 1
           else if LP_ENCODING_IS_13BIT_INT b then 1
           else if LP_ENCODING_IS_16BIT_INT b then 1
           else if LP_ENCODING_IS_24BIT_INT b then 1
           else if LP_ENCODING_IS_32BIT_INT b then 1
           else if LP_ENCODING_IS_64BIT_INT b then 1
           else if LP_ENCODING_IS_12BIT_STR b then 2
           else if LP_ENCODING_IS_32BIT_STR b then 5
           else if b = LP_EOF then 1
           else 0)
   }"

definition lpSkip :: "bytes \<Rightarrow> nat \<Rightarrow> nat option" where
  "lpSkip lp p = do {
     entrylen \<leftarrow> lpCurrentEncodedSizeUnsafe lp p;
     Some (p + (entrylen + lpBacklenSize entrylen))
   }"

text \<open>
  \<open>lpValidateNext\<close> takes the current position (\<open>None\<close> for \<open>NULL\<close>) and returns
  whether the entry is valid and the position after it.
\<close>

definition lp_out_of_range :: "nat \<Rightarrow> nat \<Rightarrow> bool" where
  "lp_out_of_range lpbytes p \<longleftrightarrow> p < LP_HDR_SIZE \<or> p + 1 > lpbytes"

definition lpValidateNext :: "bytes \<Rightarrow> nat option \<Rightarrow> nat \<Rightarrow> (bool \<times> nat option) option" where
  "lpValidateNext lp pp lpbytes =
     (case pp of
        None \<Rightarrow> Some (False, pp)
      | Some p \<Rightarrow>
          if lp_out_of_range lpbytes p then Some (False, pp)
          else do {
            b \<leftarrow> rd lp p;
            if b = LP_EOF then Some (True, None)
            else do {
              lenbytes \<leftarrow> lpCurrentEncodedSizeBytes lp p;
              if lenbytes = 0 then Some (False, pp)
              else if lp_out_of_range lpbytes (p + lenbytes) then Some (False, pp)
              else do {
                entrylen \<leftarrow> lpCurrentEncodedSizeUnsafe lp p;
                let encodedBacklen = lpBacklenSize entrylen;
                let entrylen = entrylen + encodedBacklen;
                if lp_out_of_range lpbytes (p + entrylen) then Some (False, pp)
                else do {
                  let p = p + entrylen;
                  prevlen \<leftarrow> lpDecodeBacklen lp (p - 1);
                  if wadd 64 prevlen encodedBacklen \<noteq> entrylen then Some (False, pp)
                  else Some (True, Some p)
                }
              }
            }
          })"

definition lpAssertValidEntry :: "bytes \<Rightarrow> nat \<Rightarrow> nat \<Rightarrow> unit option" where
  "lpAssertValidEntry lp lpbytes p = do {
     (ok, _) \<leftarrow> lpValidateNext lp (Some p) lpbytes;
     c_assert ok
   }"

section \<open>Moving between entries\<close>

definition lpNext :: "bytes \<Rightarrow> nat \<Rightarrow> nat option option" where
  "lpNext lp p = do {
     p \<leftarrow> lpSkip lp p;
     b \<leftarrow> rd lp p;
     if b = LP_EOF then Some None
     else do {
       total \<leftarrow> lpBytes lp;
       lpAssertValidEntry lp total p;
       Some (Some p)
     }
   }"

text \<open>
  A step that would leave the block on the left stops at offset 0, which is out of range as
  well, so that the assertion fails in both cases.
\<close>

definition lpPrev :: "bytes \<Rightarrow> nat \<Rightarrow> nat option option" where
  "lpPrev lp p =
     (if p = LP_HDR_SIZE then Some None
      else if p = 0 then None
      else do {
        let p = p - 1;
        prevlen \<leftarrow> lpDecodeBacklen lp p;
        let prevlen = wadd 64 prevlen (lpBacklenSize prevlen);
        let p = p - (prevlen - 1);
        total \<leftarrow> lpBytes lp;
        lpAssertValidEntry lp total p;
        Some (Some p)
      })"

definition lpFirst :: "bytes \<Rightarrow> nat option option" where
  "lpFirst lp = do {
     let p = LP_HDR_SIZE;
     b \<leftarrow> rd lp p;
     if b = LP_EOF then Some None
     else do {
       total \<leftarrow> lpBytes lp;
       lpAssertValidEntry lp total p;
       Some (Some p)
     }
   }"

definition lpLast :: "bytes \<Rightarrow> nat option option" where
  "lpLast lp = do {
     total \<leftarrow> lpGetTotalBytes lp;
     if total = 0 then None else lpPrev lp (total - 1)
   }"

text \<open>The scan of \<open>lpLength\<close>: \<open>count\<close> is a \<open>uint32_t\<close>.\<close>

partial_function (option) lpLength_loop :: "bytes \<Rightarrow> nat option \<Rightarrow> nat \<Rightarrow> nat option" where
  "lpLength_loop lp p count =
     (case p of
        None \<Rightarrow> Some count
      | Some p \<Rightarrow> do {
          p \<leftarrow> lpNext lp p;
          lpLength_loop lp p (wadd 32 count 1)
        })"

declare lpLength_loop.simps [code]

text \<open>The block is returned too, because the header may be updated.\<close>

definition lpLength :: "bytes \<Rightarrow> (bytes \<times> nat) option" where
  "lpLength lp = do {
     numele \<leftarrow> lpGetNumElements lp;
     if numele \<noteq> LP_HDR_NUMELE_UNKNOWN then Some (lp, numele)
     else do {
       p \<leftarrow> lpFirst lp;
       count \<leftarrow> lpLength_loop lp p 0;
       lp \<leftarrow> (if count < LP_HDR_NUMELE_UNKNOWN then lpSetNumElements lp count else Some lp);
       Some (lp, count)
     }
   }"

section \<open>The value of an entry\<close>

text \<open>
  What \<open>lpGetWithSize\<close> returns: a pointer into the listpack with a length, an integer
  (return value \<open>NULL\<close>), or the caller's \<open>intbuf\<close> with the number of bytes stored there.
\<close>

datatype lp_value = LpStr nat nat | LpInt int | LpBuf bytes nat

abbreviation (input) "LP_INTBUF_SIZE \<equiv> (21 :: nat)"
abbreviation (input) "UINT64_MAX \<equiv> (18446744073709551615 :: nat)"

text \<open>
  The conversion of an unsigned pattern with the thresholds \<open>negstart\<close> and \<open>negmax\<close>,
  in \<open>uint64_t\<close> and \<open>int64_t\<close> arithmetic, and the two ways to return it.
\<close>

definition lp_signed :: "nat \<Rightarrow> nat \<Rightarrow> nat \<Rightarrow> int" where
  "lp_signed uval negstart negmax =
     (if uval \<ge> negstart then - to_signed 64 (wsub 64 negmax uval) - 1 else to_signed 64 uval)"

definition lp_return_int :: "bytes option \<Rightarrow> int \<Rightarrow> lp_value option" where
  "lp_return_int intbuf val =
     (case intbuf of
        None \<Rightarrow> Some (LpInt val)
      | Some buf \<Rightarrow> do {
          (buf, n) \<leftarrow> ll2string buf 0 LP_INTBUF_SIZE val;
          Some (LpBuf buf n)
        })"

text \<open>The second component is \<open>entry_size\<close>, \<open>None\<close> on the one path that does not set it.\<close>

definition lpGetWithSize :: "bytes \<Rightarrow> nat \<Rightarrow> bytes option \<Rightarrow> (lp_value \<times> nat option) option" where
  "lpGetWithSize lp p intbuf = do {
     b \<leftarrow> rd lp p;
     if LP_ENCODING_IS_7BIT_UINT b then do {
       v \<leftarrow> lp_return_int intbuf (lp_signed (unat (b AND 0x7f)) UINT64_MAX 0);
       Some (v, Some 2)
     }
     else if LP_ENCODING_IS_6BIT_STR b then do {
       let count = LP_ENCODING_6BIT_STR_LEN b;
       Some (LpStr (p + 1) count, Some (1 + count + lpBacklenSize (count + 1)))
     }
     else if LP_ENCODING_IS_13BIT_INT b then do {
       b1 \<leftarrow> rd lp (p + 1);
       v \<leftarrow> lp_return_int intbuf (lp_signed (unat (b AND 0x1f) * 256 + unat b1) (2 ^ 12) 8191);
       Some (v, Some 3)
     }
     else if LP_ENCODING_IS_16BIT_INT b then do {
       bs \<leftarrow> mem_read lp (p + 1) 2;
       v \<leftarrow> lp_return_int intbuf (lp_signed (le_nat bs) (2 ^ 15) 65535);
       Some (v, Some 4)
     }
     else if LP_ENCODING_IS_24BIT_INT b then do {
       bs \<leftarrow> mem_read lp (p + 1) 3;
       v \<leftarrow> lp_return_int intbuf (lp_signed (le_nat bs) (2 ^ 23) (UINT32_MAX div 2 ^ 8));
       Some (v, Some 5)
     }
     else if LP_ENCODING_IS_32BIT_INT b then do {
       bs \<leftarrow> mem_read lp (p + 1) 4;
       v \<leftarrow> lp_return_int intbuf (lp_signed (le_nat bs) (2 ^ 31) UINT32_MAX);
       Some (v, Some 6)
     }
     else if LP_ENCODING_IS_64BIT_INT b then do {
       bs \<leftarrow> mem_read lp (p + 1) 8;
       v \<leftarrow> lp_return_int intbuf (lp_signed (le_nat bs) (2 ^ 63) UINT64_MAX);
       Some (v, Some 10)
     }
     else if LP_ENCODING_IS_12BIT_STR b then do {
       b1 \<leftarrow> rd lp (p + 1);
       let count = LP_ENCODING_12BIT_STR_LEN b b1;
       Some (LpStr (p + 2) count, Some (2 + count + lpBacklenSize (count + 2)))
     }
     else if LP_ENCODING_IS_32BIT_STR b then do {
       l \<leftarrow> mem_read lp (p + 1) 4;
       let count = LP_ENCODING_32BIT_STR_LEN l;
       Some (LpStr (p + 5) count, Some (5 + count + lpBacklenSize (count + 5)))
     }
     else do {
       v \<leftarrow> lp_return_int intbuf (lp_signed (12345678900000000 + unat b) UINT64_MAX 0);
       Some (v, None)
     }
   }"

definition lpGet :: "bytes \<Rightarrow> nat \<Rightarrow> bytes option \<Rightarrow> lp_value option" where
  "lpGet lp p intbuf = map_option fst (lpGetWithSize lp p intbuf)"

text \<open>\<open>slen\<close> is an \<open>unsigned int\<close>: the length is truncated to 32 bits.\<close>

definition lpGetValue :: "bytes \<Rightarrow> nat \<Rightarrow> lp_value option" where
  "lpGetValue lp p = do {
     v \<leftarrow> lpGet lp p None;
     Some (case v of LpStr s n \<Rightarrow> LpStr s (n mod 2 ^ 32) | LpInt i \<Rightarrow> LpInt i | LpBuf b n \<Rightarrow> LpBuf b n)
   }"

definition lpCompare :: "bytes \<Rightarrow> nat \<Rightarrow> bytes \<Rightarrow> bool option" where
  "lpCompare lp p s = do {
     b \<leftarrow> rd lp p;
     if b = LP_EOF then Some False
     else do {
       v \<leftarrow> lpGet lp p None;
       (case v of
          LpStr q n \<Rightarrow>
            if length s = n then map_option (\<lambda>bs. bs = s) (mem_read lp q n) else Some False
        | LpInt i \<Rightarrow> Some (case lpStringToInt64 s of Some sval \<Rightarrow> i = sval | None \<Rightarrow> False)
        | LpBuf _ _ \<Rightarrow> None)
     }
   }"

section \<open>Searching\<close>

text \<open>
  The loop of \<open>lpFind\<close>. \<open>venc\<close> stands for \<open>vencoding\<close> and \<open>vll\<close>: \<open>None\<close>
  before the searched string was looked at, \<open>Some None\<close> when it is not an integer
  (\<open>UCHAR_MAX\<close>), \<open>Some (Some v)\<close> when it is the integer \<open>v\<close>. \<open>skipcnt\<close> is a C
  \<open>int\<close>; a negative count only ends by wrapping around.
\<close>

definition lp_venc :: "bytes \<Rightarrow> int option" where
  "lp_venc s = (if length s \<ge> 32 \<or> length s = 0 then None else lpStringToInt64 s)"

definition lpFind_check :: "bytes \<Rightarrow> nat \<Rightarrow> nat \<Rightarrow> bool option" where
  "lpFind_check lp lp_bytes p = do {
     (if p + 8 \<ge> lp_bytes then lpAssertValidEntry lp lp_bytes p
      else c_assert (p \<ge> LP_HDR_SIZE \<and> p < lp_bytes));
     b \<leftarrow> rd lp p;
     Some (b = LP_EOF)
   }"

partial_function (option) lpFind_loop ::
  "bytes \<Rightarrow> nat \<Rightarrow> bytes \<Rightarrow> int \<Rightarrow> nat \<Rightarrow> int \<Rightarrow> int option option \<Rightarrow> nat \<Rightarrow> nat option option"
where
  "lpFind_loop lp lp_bytes s skip p skipcnt venc entry_size =
     (if skipcnt = 0 then do {
        (val, es) \<leftarrow> lpGetWithSize lp p None;
        let entry_size = (case es of Some n \<Rightarrow> n | None \<Rightarrow> entry_size);
        (hit, venc) \<leftarrow>
          (case val of
             LpStr q n \<Rightarrow> do {
               c_assert (p \<ge> LP_HDR_SIZE \<and> p + entry_size < lp_bytes);
               hit \<leftarrow> (if length s = n then map_option (\<lambda>bs. bs = s) (mem_read lp q n) else Some False);
               Some (hit, venc)
             }
           | LpInt ll \<Rightarrow>
               (let v = (case venc of Some v \<Rightarrow> v | None \<Rightarrow> lp_venc s) in Some (v = Some ll, Some v))
           | LpBuf _ _ \<Rightarrow> None);
        if hit then Some (Some p)
        else do {
          let p = p + entry_size;
          eof \<leftarrow> lpFind_check lp lp_bytes p;
          if eof then Some None else lpFind_loop lp lp_bytes s skip p skip venc entry_size
        }
      }
      else do {
        p \<leftarrow> lpSkip lp p;
        eof \<leftarrow> lpFind_check lp lp_bytes p;
        if eof then Some None
        else lpFind_loop lp lp_bytes s skip p (to_signed 32 (of_signed 32 (skipcnt - 1))) venc entry_size
      })"

declare lpFind_loop.simps [code]

definition lpFind :: "bytes \<Rightarrow> nat \<Rightarrow> bytes \<Rightarrow> nat \<Rightarrow> nat option option" where
  "lpFind lp p s skip = do {
     lp_bytes \<leftarrow> lpBytes lp;
     lpFind_loop lp lp_bytes s (to_signed 32 skip) p 0 None 123456789
   }"

section \<open>Inserting, replacing, deleting\<close>

datatype lp_where = LP_BEFORE | LP_AFTER | LP_REPLACE

text \<open>
  \<open>lpInsert\<close>. \<open>elestr\<close> and \<open>eleint\<close> are the bytes behind the two pointers, of
  \<open>size\<close> many; \<open>newp\<close> says whether the caller asked for the new position, which is the
  second component of the result. The inner \<open>None\<close> is the return value \<open>NULL\<close>.
\<close>

definition lpInsert_store :: "bytes \<Rightarrow> nat \<Rightarrow> bytes option \<Rightarrow> bytes option \<Rightarrow> bytes \<Rightarrow> bytes option" where
  "lpInsert_store lp dst eleint elestr backlen = do {
     enc \<leftarrow> (case eleint of
        Some e \<Rightarrow> Some e
      | None \<Rightarrow> (case elestr of Some s \<Rightarrow> Some (lpEncodeString s) | None \<Rightarrow> None));
     lp \<leftarrow> mem_write lp dst enc;
     mem_write lp (dst + length enc) backlen
   }"

definition lpInsert_numele :: "bytes \<Rightarrow> bool \<Rightarrow> bytes option" where
  "lpInsert_numele lp delete = do {
     n \<leftarrow> lpGetNumElements lp;
     if n \<noteq> LP_HDR_NUMELE_UNKNOWN then
       (if \<not> delete then lpSetNumElements lp (wadd 32 n 1) else lpSetNumElements lp (wsub 32 n 1))
     else Some lp
   }"

text \<open>From the first reallocation to the end: make room, move the tail, store the entry, update the header.\<close>

definition lpInsert_write :: "(nat \<Rightarrow> nat) \<Rightarrow> (nat \<Rightarrow> u8) \<Rightarrow> bytes \<Rightarrow> bool \<Rightarrow> bytes option \<Rightarrow> bytes option \<Rightarrow>
    nat \<Rightarrow> bytes \<Rightarrow> lp_where \<Rightarrow> bool \<Rightarrow> nat \<Rightarrow> nat \<Rightarrow> nat \<Rightarrow> nat \<Rightarrow> (bytes \<times> nat option) option" where
  "lpInsert_write us junk lp delete elestr eleint enclen backlen where0 newp poff replaced_len
      old_listpack_bytes new_listpack_bytes = do {
     let lp = (if new_listpack_bytes > old_listpack_bytes \<and> new_listpack_bytes > length lp
               then lp_realloc us junk lp new_listpack_bytes else lp);
     \<comment> \<open>otherwise the length given to memmove wraps around\<close>
     c_assert (poff + replaced_len \<le> old_listpack_bytes);
     lp \<leftarrow>
       (if where0 = LP_BEFORE then
          mem_move lp (poff + enclen + length backlen) poff (old_listpack_bytes - poff)
        else
          mem_move lp (poff + enclen + length backlen) (poff + replaced_len)
            (old_listpack_bytes - poff - replaced_len));
     let lp = (if new_listpack_bytes < old_listpack_bytes
               then lp_realloc us junk lp new_listpack_bytes else lp);
     np \<leftarrow> (if newp \<and> delete then do {
               b \<leftarrow> rd lp poff;
               Some (if b = LP_EOF then None else Some poff)
             } else Some (if newp then Some poff else None));
     lp \<leftarrow> (if \<not> delete then lpInsert_store lp poff eleint elestr backlen else Some lp);
     lp \<leftarrow> (if where0 \<noteq> LP_REPLACE \<or> delete then lpInsert_numele lp delete else Some lp);
     lp \<leftarrow> lpSetTotalBytes lp new_listpack_bytes;
     Some (lp, np)
   }"

definition lpInsert :: "(nat \<Rightarrow> nat) \<Rightarrow> (nat \<Rightarrow> u8) \<Rightarrow> bytes \<Rightarrow> bytes option \<Rightarrow> bytes option \<Rightarrow> nat \<Rightarrow>
    lp_where \<Rightarrow> bool \<Rightarrow> (bytes \<times> nat option) option option" where
  "lpInsert us junk lp elestr eleint p where0 newp = do {
     let delete = (elestr = None \<and> eleint = None);
     let where1 = (if delete then LP_REPLACE else where0);
     (poff, where2) \<leftarrow>
       (if where1 = LP_AFTER then do {
          p \<leftarrow> lpSkip lp p;
          ASSERT_INTEGRITY lp p;
          Some (p, LP_BEFORE)
        } else Some (p, where1));
     let (eleint, enclen) =
       (case elestr of
          Some s \<Rightarrow> lpEncodeGetType s
        | None \<Rightarrow> (case eleint of Some e \<Rightarrow> (Some e, length e) | None \<Rightarrow> (None, 0)));
     let backlen = (if \<not> delete then lpEncodeBacklen enclen else []);
     old_listpack_bytes \<leftarrow> lpGetTotalBytes lp;
     replaced_len \<leftarrow>
       (if where2 = LP_REPLACE then do {
          r \<leftarrow> lpCurrentEncodedSizeUnsafe lp poff;
          let r = wadd 32 r (lpBacklenSize r);
          ASSERT_INTEGRITY_LEN lp poff r;
          Some r
        } else Some 0);
     let new_listpack_bytes = wsub 64 (old_listpack_bytes + enclen + length backlen) replaced_len;
     if new_listpack_bytes > UINT32_MAX then Some None
     else map_option Some (lpInsert_write us junk lp delete elestr eleint enclen backlen where2 newp poff
       replaced_len old_listpack_bytes new_listpack_bytes)
   }"

definition lpInsertString where
  "lpInsertString us junk lp s p where0 newp = lpInsert us junk lp (Some s) None p where0 newp"

definition lpInsertInteger where
  "lpInsertInteger us junk lp lval p where0 newp =
     lpInsert us junk lp None (Some (lpEncodeIntegerGetType lval)) p where0 newp"

definition lpAppend :: "(nat \<Rightarrow> nat) \<Rightarrow> (nat \<Rightarrow> u8) \<Rightarrow> bytes \<Rightarrow> bytes \<Rightarrow> bytes option option" where
  "lpAppend us junk lp ele = do {
     listpack_bytes \<leftarrow> lpGetTotalBytes lp;
     c_assert (0 < listpack_bytes);
     r \<leftarrow> lpInsert us junk lp (Some ele) None (listpack_bytes - 1) LP_BEFORE False;
     Some (map_option fst r)
   }"

definition lpAppendInteger :: "(nat \<Rightarrow> nat) \<Rightarrow> (nat \<Rightarrow> u8) \<Rightarrow> bytes \<Rightarrow> int \<Rightarrow> bytes option option" where
  "lpAppendInteger us junk lp lval = do {
     listpack_bytes \<leftarrow> lpGetTotalBytes lp;
     c_assert (0 < listpack_bytes);
     r \<leftarrow> lpInsertInteger us junk lp lval (listpack_bytes - 1) LP_BEFORE False;
     Some (map_option fst r)
   }"

definition lpPrepend :: "(nat \<Rightarrow> nat) \<Rightarrow> (nat \<Rightarrow> u8) \<Rightarrow> bytes \<Rightarrow> bytes \<Rightarrow> bytes option option" where
  "lpPrepend us junk lp s = do {
     p \<leftarrow> lpFirst lp;
     case p of
       None \<Rightarrow> lpAppend us junk lp s
     | Some p \<Rightarrow> do {
         r \<leftarrow> lpInsert us junk lp (Some s) None p LP_BEFORE False;
         Some (map_option fst r)
       }
   }"

definition lpPrependInteger :: "(nat \<Rightarrow> nat) \<Rightarrow> (nat \<Rightarrow> u8) \<Rightarrow> bytes \<Rightarrow> int \<Rightarrow> bytes option option" where
  "lpPrependInteger us junk lp lval = do {
     p \<leftarrow> lpFirst lp;
     case p of
       None \<Rightarrow> lpAppendInteger us junk lp lval
     | Some p \<Rightarrow> do {
         r \<leftarrow> lpInsertInteger us junk lp lval p LP_BEFORE False;
         Some (map_option fst r)
       }
   }"

definition lpReplace where
  "lpReplace us junk lp p s = lpInsert us junk lp (Some s) None p LP_REPLACE True"

definition lpReplaceInteger where
  "lpReplaceInteger us junk lp p lval = lpInsertInteger us junk lp lval p LP_REPLACE True"

definition lpDelete where
  "lpDelete us junk lp p newp = lpInsert us junk lp None None p LP_REPLACE newp"

section \<open>Deleting ranges, seeking, merging\<close>

text \<open>The loop of \<open>lpDeleteRangeWithEntry\<close>: entries deleted and the position after them.\<close>

fun lpDeleteRange_loop :: "bytes \<Rightarrow> nat \<Rightarrow> nat \<Rightarrow> nat \<Rightarrow> nat \<Rightarrow> (nat \<times> nat) option" where
  "lpDeleteRange_loop lp lpbytes 0 deleted tail = Some (deleted, tail)"
| "lpDeleteRange_loop lp lpbytes (Suc num) deleted tail = do {
     tail \<leftarrow> lpSkip lp tail;
     b \<leftarrow> rd lp tail;
     if b = LP_EOF then Some (deleted + 1, tail)
     else do {
       lpAssertValidEntry lp lpbytes tail;
       lpDeleteRange_loop lp lpbytes num (deleted + 1) tail
     }
   }"

text \<open>The second component is the updated \<open>*p\<close>.\<close>

definition lpDeleteRangeWithEntry ::
  "(nat \<Rightarrow> nat) \<Rightarrow> (nat \<Rightarrow> u8) \<Rightarrow> bytes \<Rightarrow> nat \<Rightarrow> nat \<Rightarrow> (bytes \<times> nat option) option" where
  "lpDeleteRangeWithEntry us junk lp p num = do {
     lpbytes \<leftarrow> lpBytes lp;
     if num = 0 then Some (lp, Some p)
     else do {
       (deleted, tail) \<leftarrow> lpDeleteRange_loop lp lpbytes num 0 p;
       \<comment> \<open>otherwise the length given to memmove wraps around\<close>
       c_assert (tail \<le> lpbytes);
       lp \<leftarrow> mem_move lp p tail (lpbytes - tail);
       lp \<leftarrow> lpSetTotalBytes lp (lpbytes - (tail - p));
       numele \<leftarrow> lpGetNumElements lp;
       lp \<leftarrow> (if numele \<noteq> LP_HDR_NUMELE_UNKNOWN then lpSetNumElements lp (wsub 64 numele deleted) else Some lp);
       lp \<leftarrow> lpShrinkToFit us junk lp;
       b \<leftarrow> rd lp p;
       Some (lp, if b = LP_EOF then None else Some p)
     }
   }"

text \<open>The two scans of \<open>lpSeek\<close>, forwards and backwards.\<close>

fun lpSeek_forward :: "bytes \<Rightarrow> nat \<Rightarrow> nat option \<Rightarrow> nat option option" where
  "lpSeek_forward lp (Suc n) (Some ele) = do { ele \<leftarrow> lpNext lp ele; lpSeek_forward lp n ele }"
| "lpSeek_forward lp _ ele = Some ele"

fun lpSeek_backward :: "bytes \<Rightarrow> nat \<Rightarrow> nat option \<Rightarrow> nat option option" where
  "lpSeek_backward lp (Suc n) (Some ele) = do { ele \<leftarrow> lpPrev lp ele; lpSeek_backward lp n ele }"
| "lpSeek_backward lp _ ele = Some ele"

definition lpSeek_scan :: "bytes \<Rightarrow> bool \<Rightarrow> int \<Rightarrow> nat option option" where
  "lpSeek_scan lp forward index =
     (if forward then do { ele \<leftarrow> lpFirst lp; lpSeek_forward lp (nat index) ele }
      else do { ele \<leftarrow> lpLast lp; lpSeek_backward lp (nat (- 1 - index)) ele })"

definition lpSeek :: "bytes \<Rightarrow> int \<Rightarrow> nat option option" where
  "lpSeek lp index = do {
     numele \<leftarrow> lpGetNumElements lp;
     if numele \<noteq> LP_HDR_NUMELE_UNKNOWN then
       (let index = (if index < 0 then int numele + index else index) in
        if index < 0 then Some None
        else if index \<ge> int numele then Some None
        else if index > int numele div 2 then lpSeek_scan lp False (index - int numele)
        else lpSeek_scan lp True index)
     else lpSeek_scan lp (\<not> index < 0) index
   }"

definition lpDeleteRange ::
  "(nat \<Rightarrow> nat) \<Rightarrow> (nat \<Rightarrow> u8) \<Rightarrow> bytes \<Rightarrow> int \<Rightarrow> nat \<Rightarrow> bytes option" where
  "lpDeleteRange us junk lp index num = do {
     numele \<leftarrow> lpGetNumElements lp;
     if num = 0 then Some lp
     else do {
       p \<leftarrow> lpSeek lp index;
       case p of
         None \<Rightarrow> Some lp
       | Some p \<Rightarrow>
           (let index = (if numele \<noteq> LP_HDR_NUMELE_UNKNOWN \<and> index < 0 then int numele + index else index) in
            if numele \<noteq> LP_HDR_NUMELE_UNKNOWN \<and> wsub 64 numele (of_signed 64 index) \<le> num then do {
              lp \<leftarrow> wr lp p LP_EOF;
              lp \<leftarrow> lpSetTotalBytes lp (p + 1);
              lp \<leftarrow> lpSetNumElements lp (of_signed 64 index);
              lpShrinkToFit us junk lp
            }
            else map_option fst (lpDeleteRangeWithEntry us junk lp p num))
     }
   }"

text \<open>The loop of \<open>lpBatchDelete\<close> over the positions that are left.\<close>

fun lpBatchDelete_loop :: "bytes \<Rightarrow> nat \<Rightarrow> nat list \<Rightarrow> nat \<Rightarrow> (bytes \<times> nat) option" where
  "lpBatchDelete_loop lp lp_end [] dst = Some (lp, dst)"
| "lpBatchDelete_loop lp lp_end (skip # ps) dst = do {
     b \<leftarrow> rd lp skip;
     c_assert (b \<noteq> LP_EOF);
     keep_start \<leftarrow> lpSkip lp skip;
     let keep_end = (case ps of [] \<Rightarrow> lp_end | nxt # _ \<Rightarrow> nxt);
     if ps \<noteq> [] \<and> keep_start = keep_end then lpBatchDelete_loop lp lp_end ps dst
     else do {
       c_assert (keep_end > keep_start);
       let bytes_to_keep = keep_end - keep_start;
       lp \<leftarrow> mem_move lp dst keep_start bytes_to_keep;
       lpBatchDelete_loop lp lp_end ps (dst + bytes_to_keep)
     }
   }"

definition lpBatchDelete :: "(nat \<Rightarrow> nat) \<Rightarrow> (nat \<Rightarrow> u8) \<Rightarrow> bytes \<Rightarrow> nat list \<Rightarrow> bytes option" where
  "lpBatchDelete us junk lp ps =
     (case ps of
        [] \<Rightarrow> Some lp
      | dst # _ \<Rightarrow> do {
          total_bytes \<leftarrow> lpGetTotalBytes lp;
          c_assert (0 < total_bytes);
          e \<leftarrow> rd lp (total_bytes - 1);
          c_assert (e = LP_EOF);
          (lp, dst) \<leftarrow> lpBatchDelete_loop lp total_bytes ps dst;
          let total_bytes = wsub 64 total_bytes (wsub 64 total_bytes dst);
          c_assert (0 < total_bytes);
          e \<leftarrow> rd lp (total_bytes - 1);
          c_assert (e = LP_EOF);
          lp \<leftarrow> lpSetTotalBytes lp total_bytes;
          numele \<leftarrow> lpGetNumElements lp;
          lp \<leftarrow> (if numele \<noteq> LP_HDR_NUMELE_UNKNOWN then lpSetNumElements lp (wsub 64 numele (length ps)) else Some lp);
          lpShrinkToFit us junk lp
        })"

text \<open>
  \<open>first\<close> and \<open>second\<close> are the two blocks, \<open>None\<close> when the pointer is \<open>NULL\<close>;
  \<open>same\<close> says that both point to the same block. The result is the merged block, and
  whether it is the first one (the second is then freed) or the second one. The two
  assertions that are not in the source exclude lengths that wrap around.
\<close>

definition lpMerge :: "(nat \<Rightarrow> nat) \<Rightarrow> (nat \<Rightarrow> u8) \<Rightarrow> bool \<Rightarrow> bytes option \<Rightarrow> bytes option \<Rightarrow>
    (bytes \<times> bool) option option" where
  "lpMerge us junk same first second =
     (case (first, second) of
        (Some first, Some second) \<Rightarrow>
          if same then Some None
          else do {
            first_bytes \<leftarrow> lpBytes first;
            (first, first_len) \<leftarrow> lpLength first;
            second_bytes \<leftarrow> lpBytes second;
            (second, second_len) \<leftarrow> lpLength second;
            let append = (first_bytes \<ge> second_bytes);
            let (target, target_bytes, source, source_bytes) =
              (if append then (first, first_bytes, second, second_bytes)
               else (second, second_bytes, first, first_bytes));
            let lpbytes = wsub 64 (wsub 64 (first_bytes + second_bytes) LP_HDR_SIZE) 1;
            c_assert (lpbytes < UINT32_MAX);
            let lplength = first_len + second_len;
            let lplength = (if lplength < 65535 then lplength else 65535);
            let target = lp_realloc us junk target lpbytes;
            target \<leftarrow>
              (if append then do {
                 c_assert (LP_HDR_SIZE \<le> source_bytes \<and> 1 \<le> target_bytes);
                 xs \<leftarrow> mem_read source LP_HDR_SIZE (source_bytes - LP_HDR_SIZE);
                 mem_write target (target_bytes - 1) xs
               } else do {
                 c_assert (1 \<le> source_bytes \<and> LP_HDR_SIZE \<le> target_bytes);
                 target \<leftarrow> mem_move target (source_bytes - 1) LP_HDR_SIZE (target_bytes - LP_HDR_SIZE);
                 xs \<leftarrow> mem_read source 0 (source_bytes - 1);
                 mem_write target 0 xs
               });
            target \<leftarrow> lpSetNumElements target lplength;
            target \<leftarrow> lpSetTotalBytes target lpbytes;
            Some (Some (target, append))
          }
      | _ \<Rightarrow> Some None)"

definition lpEstimateBytesRepeatedInteger :: "int \<Rightarrow> nat \<Rightarrow> nat" where
  "lpEstimateBytesRepeatedInteger lval rep =
     (let enclen = length (lpEncodeIntegerGetType lval); backlen = lpBacklenSize enclen in
      (LP_HDR_SIZE + (enclen + backlen) * rep + 1) mod 2 ^ 64)"

section \<open>Validating a block\<close>

definition lpValidateFirst :: "bytes \<Rightarrow> nat option option" where
  "lpValidateFirst lp = do {
     b \<leftarrow> rd lp LP_HDR_SIZE;
     Some (if b = LP_EOF then None else Some LP_HDR_SIZE)
   }"

text \<open>
  \<open>entry_cb\<close> is the caller's check of an entry at a position, given the block and the
  number of elements of the header; \<open>None\<close> when there is none.
\<close>

partial_function (option) lpValidate_loop ::
  "bytes \<Rightarrow> nat \<Rightarrow> nat \<Rightarrow> (bytes \<Rightarrow> nat \<Rightarrow> nat \<Rightarrow> bool) option \<Rightarrow> nat option \<Rightarrow> nat \<Rightarrow>
    (bool \<times> nat option \<times> nat) option"
where
  "lpValidate_loop lp lpbytes numele entry_cb p count =
     (case p of
        None \<Rightarrow> Some (True, None, count)
      | Some prev \<Rightarrow> do {
          b \<leftarrow> rd lp prev;
          if b = LP_EOF then Some (True, p, count)
          else do {
            (ok, p) \<leftarrow> lpValidateNext lp (Some prev) lpbytes;
            if \<not> ok then Some (False, p, count)
            else if (case entry_cb of Some cb \<Rightarrow> \<not> cb lp prev numele | None \<Rightarrow> False) then Some (False, p, count)
            else lpValidate_loop lp lpbytes numele entry_cb p (wadd 32 count 1)
          }
        })"

declare lpValidate_loop.simps [code]

definition lpValidateIntegrity ::
  "bytes \<Rightarrow> nat \<Rightarrow> bool \<Rightarrow> (bytes \<Rightarrow> nat \<Rightarrow> nat \<Rightarrow> bool) option \<Rightarrow> bool option" where
  "lpValidateIntegrity lp lpsize deep entry_cb =
     (if lpsize < LP_HDR_SIZE + 1 then Some False
      else do {
        lpbytes \<leftarrow> lpGetTotalBytes lp;
        if lpbytes \<noteq> lpsize then Some False
        else do {
          e \<leftarrow> rd lp (lpsize - 1);
          if e \<noteq> LP_EOF then Some False
          else if \<not> deep then Some True
          else do {
            numele \<leftarrow> lpGetNumElements lp;
            (ok, p, count) \<leftarrow> lpValidate_loop lp lpbytes numele entry_cb (Some LP_HDR_SIZE) 0;
            if \<not> ok then Some False
            else if p \<noteq> Some (lpsize - 1) then Some False
            else if numele \<noteq> LP_HDR_NUMELE_UNKNOWN \<and> numele \<noteq> count then Some False
            else Some True
          }
        }
      })"

end
