(* ===== verification/Listpack_Entries.thy ===== *)
theory Listpack_Entries
  imports Listpack
begin

text \<open>
  The entry codec of \<open>src/listpack.c\<close>: the tests of the first byte, the backward
  length, the encoded integers and strings, and how each is read back inside a block.
\<close>

section \<open>Classes of the first byte\<close>

lemma enc_class_all:
  "\<forall>b. (LP_ENCODING_IS_7BIT_UINT b \<longleftrightarrow> unat b < 128) \<and>
    (LP_ENCODING_IS_6BIT_STR b \<longleftrightarrow> 128 \<le> unat b \<and> unat b < 192) \<and>
    (LP_ENCODING_IS_13BIT_INT b \<longleftrightarrow> 192 \<le> unat b \<and> unat b < 224) \<and>
    (LP_ENCODING_IS_12BIT_STR b \<longleftrightarrow> 224 \<le> unat b \<and> unat b < 240)"
  unfolding u8_all by code_simp

lemma enc_exact_all:
  "\<forall>b. (LP_ENCODING_IS_32BIT_STR b \<longleftrightarrow> unat b = 240) \<and>
    (LP_ENCODING_IS_16BIT_INT b \<longleftrightarrow> unat b = 241) \<and>
    (LP_ENCODING_IS_24BIT_INT b \<longleftrightarrow> unat b = 242) \<and>
    (LP_ENCODING_IS_32BIT_INT b \<longleftrightarrow> unat b = 243) \<and>
    (LP_ENCODING_IS_64BIT_INT b \<longleftrightarrow> unat b = 244) \<and>
    (b = LP_EOF \<longleftrightarrow> unat b = 255)"
  unfolding u8_all by code_simp

lemma enc_mask_all:
  "\<forall>b::u8. unat (b AND 0x3F) = unat b mod 64 \<and> unat (b AND 0xF) = unat b mod 16 \<and>
    unat (b AND 0x1f) = unat b mod 32 \<and> unat (b AND 127) = unat b mod 128 \<and>
    (b AND 128 = 0 \<longleftrightarrow> unat b < 128)"
  unfolding u8_all by code_simp

named_theorems lp_class \<open>the encoding tests as ranges of the first byte\<close>

lemma enc_class [lp_class]:
  "LP_ENCODING_IS_7BIT_UINT b \<longleftrightarrow> unat b < 128"
  "LP_ENCODING_IS_6BIT_STR b \<longleftrightarrow> 128 \<le> unat b \<and> unat b < 192"
  "LP_ENCODING_IS_13BIT_INT b \<longleftrightarrow> 192 \<le> unat b \<and> unat b < 224"
  "LP_ENCODING_IS_12BIT_STR b \<longleftrightarrow> 224 \<le> unat b \<and> unat b < 240"
  using enc_class_all by blast+

lemma enc_exact [lp_class]:
  "LP_ENCODING_IS_32BIT_STR b \<longleftrightarrow> unat b = 240"
  "LP_ENCODING_IS_16BIT_INT b \<longleftrightarrow> unat b = 241"
  "LP_ENCODING_IS_24BIT_INT b \<longleftrightarrow> unat b = 242"
  "LP_ENCODING_IS_32BIT_INT b \<longleftrightarrow> unat b = 243"
  "LP_ENCODING_IS_64BIT_INT b \<longleftrightarrow> unat b = 244"
  using enc_exact_all by blast+

lemma lp_eof_iff: "b = LP_EOF \<longleftrightarrow> unat b = 255"
  using enc_exact_all by blast

lemma enc_mask [lp_class]:
  "unat (b AND 0x3F) = unat b mod 64" "unat (b AND 0xF) = unat b mod 16"
  "unat (b AND 0x1f) = unat b mod 32" "unat (b AND 127) = unat b mod 128"
  "b AND 128 = 0 \<longleftrightarrow> unat b < 128" for b :: u8
  using enc_mask_all by blast+

lemma enc_or_all:
  "list_all (\<lambda>n. unat (of_nat n OR 0x80 :: u8) = 128 + n) [0..<64]"
  "list_all (\<lambda>n. unat (of_nat n OR 0xC0 :: u8) = 192 + n) [0..<32]"
  "list_all (\<lambda>n. unat (of_nat n OR 0xE0 :: u8) = 224 + n) [0..<16]"
  by code_simp+

lemma enc_or [lp_class]:
  "n < 64 \<Longrightarrow> unat (of_nat n OR 0x80 :: u8) = 128 + n"
  "n < 32 \<Longrightarrow> unat (of_nat n OR 0xC0 :: u8) = 192 + n"
  "n < 16 \<Longrightarrow> unat (of_nat n OR 0xE0 :: u8) = 224 + n"
  using enc_or_all by (auto simp: list_all_iff)

section \<open>The backward length\<close>

lemma backlen_size_cases: "lpBacklenSize l \<in> {1..5}"
  by (simp add: lpBacklenSize_def lpEncodeBacklen_def)

lemma decode_end:
  "rd lp p = Some b \<Longrightarrow> unat b < 128 \<Longrightarrow>
   lpDecodeBacklen_loop lp p val shift = Some (val + unat b * 2 ^ shift)"
  by (simp add: lpDecodeBacklen_loop.simps [of lp] lp_class)

lemma decode_more:
  "rd lp p = Some b \<Longrightarrow> 128 \<le> unat b \<Longrightarrow> shift + 7 \<le> 28 \<Longrightarrow> 0 < p \<Longrightarrow>
   lpDecodeBacklen_loop lp p val shift =
     lpDecodeBacklen_loop lp (p - 1) (val + unat b mod 128 * 2 ^ shift) (shift + 7)"
  by (subst lpDecodeBacklen_loop.simps) (simp add: lp_class)

lemma rd_in [mem_simps]: "rd xs k = Some b \<Longrightarrow> rd (A @ xs @ B) (length A + k) = Some b"
  by (auto simp: rd_def nth_append split: if_splits)

lemma mem_read_in [mem_simps]:
  "mem_read xs k n = Some ys \<Longrightarrow> mem_read (A @ xs @ B) (length A + k) n = Some ys"
  by (auto simp: mem_read_def split: if_splits)

lemma unat_cont [simp]: "unat (of_nat (n mod 128) + 128 :: u8) = n mod 128 + 128"
proof -
  have "of_nat (n mod 128) + 128 = (of_nat (n mod 128 + 128) :: u8)" by simp
  then show ?thesis unfolding unat_of_nat_u8 by (simp add: unat_of_nat_u8 del: of_nat_add)
qed

lemma base128:
  assumes "l = l1 * 128 + a" "l1 = l2 * 128 + b" "l2 = l3 * 128 + c" "l3 = l4 * 128 + (d::nat)"
  shows "l = a + l1 * 128" "l = a + b * 2 ^ 7 + l2 * 2 ^ 14"
    "l = a + b * 2 ^ 7 + c * 2 ^ 14 + l3 * 2 ^ 21"
    "l = a + b * 2 ^ 7 + c * 2 ^ 14 + d * 2 ^ 21 + l4 * 2 ^ 28"
  using assms by simp_all

lemma decode_encode:
  assumes "l < 2 ^ 35"
  shows "lpDecodeBacklen (A @ lpEncodeBacklen l @ B) (length A + lpBacklenSize l - 1) = Some l"
proof -
  let ?m = "A @ lpEncodeBacklen l @ B"
  let ?d = "lpDecodeBacklen ?m (length A + lpBacklenSize l - 1)"
  have r: "k < lpBacklenSize l \<Longrightarrow> rd ?m (length A + k) = Some (lpEncodeBacklen l ! k)" for k
    by (rule rd_in) (simp add: rd_def lpBacklenSize_def)
  have q: "l div 2 ^ 14 = l div 2 ^ 7 div 128" "l div 2 ^ 21 = l div 2 ^ 14 div 128" "l div 2 ^ 28 = l div 2 ^ 21 div 128"
    by (simp_all add: div_mult2_eq [symmetric])
  have e: "l = l div 2 ^ 7 * 128 + l mod 128"
    "l div 2 ^ 7 = l div 2 ^ 14 * 128 + l div 2 ^ 7 mod 128"
    "l div 2 ^ 14 = l div 2 ^ 21 * 128 + l div 2 ^ 14 mod 128"
    "l div 2 ^ 21 = l div 2 ^ 28 * 128 + l div 2 ^ 21 mod 128"
    unfolding q by simp_all
  have d7: "l = l mod 128 + l div 2 ^ 7 * 128"
    and d14: "l = l mod 128 + l div 2 ^ 7 mod 128 * 2 ^ 7 + l div 2 ^ 14 * 2 ^ 14"
    and d21: "l = l mod 128 + l div 2 ^ 7 mod 128 * 2 ^ 7 + l div 2 ^ 14 mod 128 * 2 ^ 14 + l div 2 ^ 21 * 2 ^ 21"
    and d28: "l = l mod 128 + l div 2 ^ 7 mod 128 * 2 ^ 7 + l div 2 ^ 14 mod 128 * 2 ^ 14 +
      l div 2 ^ 21 mod 128 * 2 ^ 21 + l div 2 ^ 28 * 2 ^ 28"
    by (rule base128 [OF e])+
  consider "l \<le> 127" | "127 < l" "l < 16383" | "16383 \<le> l" "l < 2097151"
    | "2097151 \<le> l" "l < 268435455" | "268435455 \<le> l" by linarith
  then show ?thesis
  proof cases
    case 1
    then have "?d = Some (l)"
      using r [of 0]
      by (simp add: lpDecodeBacklen_def lpBacklenSize_def lpEncodeBacklen_def decode_end decode_more)
    then show ?thesis .
  next
    case 2
    then have "?d = Some (l mod 128 + l div 2 ^ 7 * 128)"
      using r [of 0] r [of 1]
      by (simp add: lpDecodeBacklen_def lpBacklenSize_def lpEncodeBacklen_def decode_end decode_more)
    then show ?thesis by (rule trans [OF _ arg_cong [OF d7 [symmetric]]])
  next
    case 3
    then have "?d = Some (l mod 128 + l div 2 ^ 7 mod 128 * 2 ^ 7 + l div 2 ^ 14 * 2 ^ 14)"
      using r [of 0] r [of 1] r [of "Suc (Suc 0)"]
      by (simp add: lpDecodeBacklen_def lpBacklenSize_def lpEncodeBacklen_def decode_end decode_more)
    then show ?thesis by (rule trans [OF _ arg_cong [OF d14 [symmetric]]])
  next
    case 4
    then have "?d = Some (l mod 128 + l div 2 ^ 7 mod 128 * 2 ^ 7 + l div 2 ^ 14 mod 128 * 2 ^ 14 + l div 2 ^ 21 * 2 ^ 21)"
      using r [of 0] r [of 1] r [of "Suc (Suc 0)"] r [of "Suc (Suc (Suc 0))"]
      by (simp add: lpDecodeBacklen_def lpBacklenSize_def lpEncodeBacklen_def decode_end decode_more)
    then show ?thesis by (rule trans [OF _ arg_cong [OF d21 [symmetric]]])
  next
    case 5
    then have "?d = Some (l mod 128 + l div 2 ^ 7 mod 128 * 2 ^ 7 + l div 2 ^ 14 mod 128 * 2 ^ 14 + l div 2 ^ 21 mod 128 * 2 ^ 21 + l div 2 ^ 28 * 2 ^ 28)"
      using r [of 0] r [of 1] r [of "Suc (Suc 0)"] r [of "Suc (Suc (Suc 0))"] r [of "Suc (Suc (Suc (Suc 0)))"] assms
      by (simp add: lpDecodeBacklen_def lpBacklenSize_def lpEncodeBacklen_def decode_end decode_more)
    then show ?thesis by (rule trans [OF _ arg_cong [OF d28 [symmetric]]])
  qed
qed

section \<open>Encoded elements\<close>

text \<open>
  An encoded element, without its backward length: its first byte is an encoding byte other
  than the terminator, and the size that byte announces is its length.
\<close>

definition lp_encoding :: "bytes \<Rightarrow> bool" where
  "lp_encoding e \<longleftrightarrow> e \<noteq> [] \<and> hd e \<noteq> LP_EOF \<and> length e < 2 ^ 32 \<and>
     lpCurrentEncodedSizeUnsafe e 0 = Some (length e)"

datatype lp_elem = LInt int | LStr bytes

text \<open>The element an encoding stands for.\<close>

definition lp_elem_of :: "bytes \<Rightarrow> lp_elem" where
  "lp_elem_of e =
     (case lpGetWithSize e 0 None of
        Some (LpStr q n, _) \<Rightarrow> LStr (take n (drop q e))
      | Some (LpInt i, _) \<Rightarrow> LInt i
      | _ \<Rightarrow> LStr [])"

text \<open>The string an element is shown as, and the element a string is stored as.\<close>

fun lp_string :: "lp_elem \<Rightarrow> bytes" where
  "lp_string (LInt i) = ll_repr i"
| "lp_string (LStr s) = s"

lemma mod_range:
  assumes "c * m \<le> n" and "n < c * m + m"
  shows "n mod m = n - c * (m::nat)"
proof -
  obtain k where k: "n = c * m + k" using assms(1) le_Suc_ex by blast
  then show ?thesis using assms(2) by simp
qed

lemma encoding_cases:
  assumes "lp_encoding e"
  obtains (b7) b where "e = [b]" "unat b < 128"
    | (b6) b s where "e = b # s" "128 \<le> unat b" "unat b < 192" "length s = unat b - 128"
    | (b13) b c where "e = [b, c]" "192 \<le> unat b" "unat b < 224"
    | (int) b s where "e = b # s" "unat b \<in> {241, 242, 243}" "length s = unat b - 239"
    | (int64) b s where "e = b # s" "unat b = 244" "length s = 8"
    | (b12) b c s where "e = b # c # s" "224 \<le> unat b" "unat b < 240" "length s = (unat b - 224) * 256 + unat c"
    | (b32) b l s where "e = b # l @ s" "unat b = 240" "length l = 4" "length s = le_nat l"
proof -
  obtain b s where e: "e = b # s" using assms by (cases e) (auto simp: lp_encoding_def)
  have sz: "lpCurrentEncodedSizeUnsafe e 0 = Some (Suc (length s))" and ff: "unat b \<noteq> 255"
    and len: "Suc (length s) < 2 ^ 32"
    using assms e lp_eof_iff by (auto simp: lp_encoding_def)
  have rd0: "rd e 0 = Some b" by (simp add: e rd_def)
  note size = sz [unfolded lpCurrentEncodedSizeUnsafe_def rd0 lp_class LP_ENCODING_6BIT_STR_LEN_def
      LP_ENCODING_12BIT_STR_LEN_def LP_ENCODING_32BIT_STR_LEN_def]
  have bl: "unat b < 256" by simp
  consider "unat b < 128" | "128 \<le> unat b" "unat b < 192" | "192 \<le> unat b" "unat b < 224"
    | "224 \<le> unat b" "unat b < 240" | "unat b = 240" | "241 \<le> unat b" "unat b \<le> 243" | "unat b = 244"
    | "244 < unat b" "unat b < 255" using ff bl by linarith
  then show thesis
  proof cases
    case 1
    then show thesis using size e b7 by simp
  next
    case 2
    then have "unat b mod 64 = unat b - 128" using mod_range [of 2 64 "unat b"] by simp
    then show thesis using 2 size e b6 by simp
  next
    case 3
    then show thesis using size e b13 by (cases s) auto
  next
    case 4
    then obtain c t where s: "s = c # t" using size e by (cases s) (auto simp: rd_def)
    have "unat b mod 16 = unat b - 224" using 4 mod_range [of 14 16 "unat b"] by simp
    then show thesis using 4 size e s b12 by (simp add: rd_def)
  next
    case 5
    then obtain l where l: "mem_read e 1 4 = Some l" "wadd 32 5 (le_nat l) = Suc (length s)"
      using size by (auto simp: bind_eq_Some_conv)
    then have "4 \<le> length s" "l = take 4 s" by (auto simp: mem_read_def e split: if_splits)
    moreover from this have "le_nat l < 2 ^ 32" using le_nat_less [of l] by simp
    then have "length s = le_nat l + 4"
      using l(2) \<open>4 \<le> length s\<close> by (auto simp: wadd_def mod_if split: if_splits)
    ultimately show thesis using 5 e b32 [of b l "drop 4 s"] by simp
  next
    case 6
    then consider "unat b = 241" | "unat b = 242" | "unat b = 243" by linarith
    then show thesis using size e int by cases simp_all
  next
    case 7
    then show thesis using size e int64 by simp
  next
    case 8
    then have "b \<noteq> LP_EOF" using lp_eof_iff [of b] by simp
    then show thesis using 8 size by simp
  qed
qed

section \<open>Reading an encoding inside a block\<close>

lemma size_local:
  "lpCurrentEncodedSizeUnsafe e 0 = Some n \<Longrightarrow> lpCurrentEncodedSizeUnsafe (A @ e @ B) (length A) = Some n"
  using rd_in [of e 0 _ A B] rd_in [of e 1 _ A B] mem_read_in [of e 1 4 _ A B]
  unfolding lpCurrentEncodedSizeUnsafe_def bind_eq_Some_conv
  by (elim exE conjE, simp) (auto simp: bind_eq_Some_conv split: if_split_asm)

lemma encoding_size: "lp_encoding e \<Longrightarrow> lpCurrentEncodedSizeUnsafe (A @ e @ B) (length A) = Some (length e)"
  by (simp add: lp_encoding_def size_local)

lemma encoding_lenbytes:
  assumes "lp_encoding e"
  shows "\<exists>k. lpCurrentEncodedSizeBytes (A @ e @ B) (length A) = Some k \<and> 0 < k \<and> k \<le> length e"
proof -
  obtain b s where e: "e = b # s" using assms by (cases e) (auto simp: lp_encoding_def)
  show ?thesis using assms
    by (cases rule: encoding_cases)
      (auto simp: lpCurrentEncodedSizeBytes_def rd_def lp_class)
qed

section \<open>Integers\<close>

lemma signed_adjust:
  assumes "0 < w" and "- (2 ^ (w - 1)) \<le> v" and "v < 2 ^ (w - 1)"
  shows "nat (if v < 0 then 2 ^ w + v else v) = of_signed w v"
proof (cases "v < 0")
  case True
  have "- (2 ^ w) \<le> v" using assms two_power_pred [OF assms(1)] by simp
  then have "int (of_signed w v) = v + 2 ^ w" by (rule of_signed_neg [OF True])
  then show ?thesis using True by simp
next
  case False
  then show ?thesis using of_signed_nonneg [of v w] assms two_power_pred [OF assms(1)] by simp
qed

lemma lp_signed_to_signed:
  assumes "u < 2 ^ w" and "0 < w" and "w \<le> 64"
  shows "lp_signed u (2 ^ (w - 1)) (2 ^ w - 1) = to_signed w u"
proof -
  have p: "(2::nat) ^ w = 2 * 2 ^ (w - 1)" using assms(2) by (cases w) auto
  have p63: "(2::nat) ^ (w - 1) \<le> 2 ^ 63" using assms(3) by (intro power_increasing) auto
  have p64: "(2::nat) ^ w \<le> 2 ^ 64" using assms(3) by (intro power_increasing) auto
  show ?thesis
  proof (cases "u < 2 ^ (w - 1)")
    case True
    then show ?thesis using p63 by (simp add: lp_signed_def to_signed_def)
  next
    case False
    have "wsub 64 (2 ^ w - 1) u = 2 ^ w - 1 - u"
      using assms(1) p64 by (intro wsub_exact) auto
    moreover have "2 ^ w - 1 - u < 2 ^ (64 - 1)"
      using False p p63 by simp
    ultimately have "lp_signed u (2 ^ (w - 1)) (2 ^ w - 1) = - int (2 ^ w - 1 - u) - 1"
      using False by (simp add: lp_signed_def to_signed_def)
    also have "\<dots> = int u - 2 ^ w" using assms(1) by (simp add: of_nat_diff)
    finally show ?thesis using False by (simp add: to_signed_def)
  qed
qed

lemma lp_signed_small: "u < 2 ^ 63 \<Longrightarrow> lp_signed u 18446744073709551615 m = int u"
  by (simp add: lp_signed_def to_signed_def)

lemma encodeInteger_eq:
  "lpEncodeIntegerGetType v =
     (if v \<ge> 0 \<and> v \<le> 127 then [of_int v]
      else if v \<ge> - 4096 \<and> v \<le> 4095 then
        [of_nat (of_signed 13 v div 256) OR 0xC0, of_nat (of_signed 13 v mod 256)]
      else if v \<ge> - 32768 \<and> v \<le> 32767 then 0xF1 # le_bytes 2 (of_signed 16 v)
      else if v \<ge> - 8388608 \<and> v \<le> 8388607 then 0xF2 # le_bytes 3 (of_signed 24 v)
      else if v \<ge> - 2147483648 \<and> v \<le> 2147483647 then 0xF3 # le_bytes 4 (of_signed 32 v)
      else 0xF4 # le_bytes 8 (of_signed 64 v))"
proof -
  have i: "of_int x = (of_nat (nat x) :: u8)" if "0 \<le> x" for x using that by simp
  have b13: "[of_int (u div 256) OR 0xC0, of_int (u mod 256)] =
      [of_nat (of_signed 13 v div 256) OR 0xC0 :: u8, of_nat (of_signed 13 v mod 256)]"
    if "v \<ge> - 4096 \<and> v \<le> 4095" "u = (if v < 0 then 2 ^ 13 + v else v)" for u
  proof -
    have "0 \<le> u" using that by simp
    moreover have "nat u = of_signed 13 v" using signed_adjust [of 13 v] that by simp
    ultimately show ?thesis
      using i [of "u div 256"] i [of "u mod 256"] by (simp add: nat_div_distrib nat_mod_distrib)
  qed
  have a16: "nat (if v < 0 then 2 ^ 16 + v else v) = of_signed 16 v" if "v \<ge> - 32768 \<and> v \<le> 32767"
    using that by (intro signed_adjust) auto
  have a24: "nat (if v < 0 then 2 ^ 24 + v else v) = of_signed 24 v" if "v \<ge> - 8388608 \<and> v \<le> 8388607"
    using that by (intro signed_adjust) auto
  have a32: "nat (if v < 0 then 2 ^ 32 + v else v) = of_signed 32 v" if "v \<ge> - 2147483648 \<and> v \<le> 2147483647"
    using that by (intro signed_adjust) auto
  show ?thesis
    unfolding lpEncodeIntegerGetType_def Let_def
    by (intro if_cong refl b13) (simp_all only: a16 a24 a32)
qed

section \<open>Values\<close>

lemma lp_return_int_None [simp]: "lp_return_int None v = Some (LpInt v)"
  by (simp add: lp_return_int_def)

lemma backlen_size_small [simp]: "l \<le> 127 \<Longrightarrow> lpBacklenSize l = 1"
  by (simp add: lpBacklenSize_def lpEncodeBacklen_def)

text \<open>A value as a pointer relative to the start of the entry.\<close>

fun lp_shift :: "nat \<Rightarrow> lp_value \<Rightarrow> lp_value" where
  "lp_shift k (LpStr q n) = LpStr (k + q) n"
| "lp_shift k v = v"

lemma get_local:
  assumes "lpGetWithSize e 0 None = Some (v, n)"
  shows "lpGetWithSize (A @ e @ B) (length A) None = Some (lp_shift (length A) v, n)"
proof -
  have r: "rd e 0 = Some x \<Longrightarrow> rd (A @ e @ B) (length A) = Some x"
    "rd e (Suc 0) = Some x \<Longrightarrow> rd (A @ e @ B) (Suc (length A)) = Some x"
    "mem_read e (Suc 0) k = Some l \<Longrightarrow> mem_read (A @ e @ B) (Suc (length A)) k = Some l" for x k l
    using rd_in [of e 0 _ A B] rd_in [of e 1 _ A B] mem_read_in [of e 1 _ _ A B] by simp_all
  obtain b where b: "rd e 0 = Some b" using assms by (cases "rd e 0") (auto simp: lpGetWithSize_def)
  note get = assms [unfolded lpGetWithSize_def Let_def lp_return_int_None b bind.bind_lunit]
  show ?thesis
    unfolding lpGetWithSize_def Let_def lp_return_int_None r(1) [OF b] bind.bind_lunit
    using get by (auto simp: bind_eq_Some_conv dest!: r(2,3) split: if_split_asm)
qed


text \<open>The value at offset \<open>k\<close>: an integer, or a pointer to the last bytes of the encoding.\<close>

definition lp_ptr :: "nat \<Rightarrow> bytes \<Rightarrow> lp_value" where
  "lp_ptr k e = (case lp_elem_of e of LInt i \<Rightarrow> LpInt i | LStr s \<Rightarrow> LpStr (k + (length e - length s)) (length s))"

lemma get_at_0:
  assumes "lp_encoding e"
  shows "lpGetWithSize e 0 None = Some (lp_ptr 0 e, Some (length e + lpBacklenSize (length e)))"
    "lp_elem_of e = LStr s \<Longrightarrow> length s \<le> length e \<and> drop (length e - length s) e = s \<and> length s < 2 ^ 32"
proof -
  have "(\<exists>i. lpGetWithSize e 0 None = Some (LpInt i, Some (length e + lpBacklenSize (length e)))) \<or>
    (\<exists>k. k \<le> length e \<and> lpGetWithSize e 0 None = Some (LpStr k (length e - k), Some (length e + lpBacklenSize (length e))))"
    using assms
  proof (cases rule: encoding_cases)
    case (b6 b s)
    then show ?thesis using mod_range [of 2 64 "unat b"]
      by (intro disjI2 exI [of _ 1]) (simp add: lpGetWithSize_def Let_def rd_def lp_class LP_ENCODING_6BIT_STR_LEN_def)
  next
    case (b12 b c s)
    then show ?thesis using mod_range [of 14 16 "unat b"]
      by (intro disjI2 exI [of _ 2]) (simp add: lpGetWithSize_def Let_def rd_def lp_class LP_ENCODING_12BIT_STR_LEN_def)
  next
    case (b32 b l s)
    then show ?thesis
      by (intro disjI2 exI [of _ 5])
        (simp add: lpGetWithSize_def Let_def rd_def mem_read_def lp_class LP_ENCODING_32BIT_STR_LEN_def add.commute)
  next
    case (int b s)
    then show ?thesis by (auto simp: lpGetWithSize_def rd_def mem_read_def lp_class)
  qed (simp_all add: lpGetWithSize_def rd_def mem_read_def lp_class)
  moreover have "length e < 2 ^ 32" using assms by (simp add: lp_encoding_def)
  ultimately show "lpGetWithSize e 0 None = Some (lp_ptr 0 e, Some (length e + lpBacklenSize (length e)))"
    "lp_elem_of e = LStr s \<Longrightarrow> length s \<le> length e \<and> drop (length e - length s) e = s \<and> length s < 2 ^ 32"
    by (auto simp: lp_ptr_def lp_elem_of_def)
qed

lemma get_entry:
  assumes "lp_encoding e"
  shows "lpGetWithSize (A @ e @ B) (length A) None =
    Some (lp_ptr (length A) e, Some (length e + lpBacklenSize (length e)))"
  using get_local [OF get_at_0(1) [OF assms], of A B] by (simp add: lp_ptr_def split: lp_elem.splits)

section \<open>Encoding and reading back\<close>

lemma fixed_16: "length s = 2 \<Longrightarrow> lp_encoding (0xF1 # s) \<and>
    lp_elem_of (0xF1 # s) = LInt (lp_signed (le_nat s) (2 ^ 15) (2 ^ 16 - 1))"
  by (simp add: lp_encoding_def lpCurrentEncodedSizeUnsafe_def lp_elem_of_def lpGetWithSize_def
      rd_def mem_read_def lp_class)

lemma fixed_24: "length s = 3 \<Longrightarrow> lp_encoding (0xF2 # s) \<and>
    lp_elem_of (0xF2 # s) = LInt (lp_signed (le_nat s) (2 ^ 23) (2 ^ 24 - 1))"
  by (simp add: lp_encoding_def lpCurrentEncodedSizeUnsafe_def lp_elem_of_def lpGetWithSize_def
      rd_def mem_read_def lp_class)

lemma fixed_32: "length s = 4 \<Longrightarrow> lp_encoding (0xF3 # s) \<and>
    lp_elem_of (0xF3 # s) = LInt (lp_signed (le_nat s) (2 ^ 31) (2 ^ 32 - 1))"
  by (simp add: lp_encoding_def lpCurrentEncodedSizeUnsafe_def lp_elem_of_def lpGetWithSize_def
      rd_def mem_read_def lp_class)

lemma fixed_64: "length s = 8 \<Longrightarrow> lp_encoding (0xF4 # s) \<and>
    lp_elem_of (0xF4 # s) = LInt (lp_signed (le_nat s) (2 ^ 63) (2 ^ 64 - 1))"
  by (simp add: lp_encoding_def lpCurrentEncodedSizeUnsafe_def lp_elem_of_def lpGetWithSize_def
      rd_def mem_read_def lp_class)

lemma enc_7bit: "unat b < 128 \<Longrightarrow> lp_encoding [b] \<and> lp_elem_of [b] = LInt (int (unat b))"
proof -
  assume b: "unat b < 128"
  then have "b \<noteq> LP_EOF" using lp_eof_iff [of b] by simp
  then show ?thesis using b lp_signed_small [of "unat b" 0]
    by (simp add: lp_encoding_def lpCurrentEncodedSizeUnsafe_def lp_elem_of_def lpGetWithSize_def rd_def lp_class)
qed

lemma enc_13bit:
  assumes "192 \<le> unat b" "unat b < 224"
  shows "lp_encoding [b, c] \<and>
    lp_elem_of [b, c] = LInt (lp_signed ((unat b - 192) * 256 + unat c) (2 ^ 12) (2 ^ 13 - 1))"
proof -
  have "b \<noteq> LP_EOF" using assms lp_eof_iff [of b] by simp
  moreover have "unat b mod 32 = unat b - 192" using assms mod_range [of 6 32 "unat b"] by simp
  ultimately show ?thesis using assms
    by (simp add: lp_encoding_def lpCurrentEncodedSizeUnsafe_def lp_elem_of_def lpGetWithSize_def rd_def lp_class)
qed

lemma signed_bytes:
  assumes "8 * n = w" and "0 < w" and "w \<le> 64" and "- (2 ^ (w - 1)) \<le> v" and "v < 2 ^ (w - 1)"
  shows "lp_signed (le_nat (le_bytes n (of_signed w v))) (2 ^ (w - 1)) (2 ^ w - 1) = v"
proof -
  have "le_nat (le_bytes n (of_signed w v)) = of_signed w v"
    using assms(1) pow256 [of n] by (simp add: le_nat_le_bytes)
  then show ?thesis
    using lp_signed_to_signed [OF of_signed_less assms(2,3)] to_of_signed [OF assms(2,4,5)] by simp
qed

lemma encodeInteger_props:
  assumes "is_int64 v"
  shows "lp_encoding (lpEncodeIntegerGetType v) \<and> lp_elem_of (lpEncodeIntegerGetType v) = LInt v"
proof -
  consider "v \<ge> 0 \<and> v \<le> 127" | "\<not> (v \<ge> 0 \<and> v \<le> 127)" "v \<ge> - 4096 \<and> v \<le> 4095"
    | "\<not> (v \<ge> - 4096 \<and> v \<le> 4095)" "v \<ge> - 32768 \<and> v \<le> 32767"
    | "\<not> (v \<ge> - 32768 \<and> v \<le> 32767)" "v \<ge> - 8388608 \<and> v \<le> 8388607"
    | "\<not> (v \<ge> - 8388608 \<and> v \<le> 8388607)" "v \<ge> - 2147483648 \<and> v \<le> 2147483647"
    | "\<not> (v \<ge> - 2147483648 \<and> v \<le> 2147483647)" by blast
  then show ?thesis
  proof cases
    case 1
    then have "of_int v = (of_nat (nat v) :: u8)" by simp
    moreover have "nat v mod 256 = nat v" using 1 by (intro mod_less) linarith
    ultimately have "unat (of_int v :: u8) = nat v" by (simp only: unat_of_nat_u8)
    moreover have "lpEncodeIntegerGetType v = [of_int v]" using 1 unfolding encodeInteger_eq by simp
    moreover have "nat v < 128" using 1 by linarith
    ultimately show ?thesis using enc_7bit [of "of_int v"] 1 by simp
  next
    case 2
    define u where "u = of_signed 13 v"
    have e: "lpEncodeIntegerGetType v = [of_nat (u div 256) OR 0xC0, of_nat (u mod 256)]"
      using 2 unfolding encodeInteger_eq u_def by (simp only: if_P if_not_P not_False_eq_True)
    have u: "u < 2 ^ 13" unfolding u_def by (rule of_signed_less)
    then have b: "unat (of_nat (u div 256) OR 0xC0 :: u8) = 192 + u div 256" by (intro enc_or) simp
    have "lp_signed u (2 ^ (13 - 1)) (2 ^ 13 - 1) = to_signed 13 u"
      using u by (intro lp_signed_to_signed) simp_all
    also have "\<dots> = v" unfolding u_def using 2 by (intro to_of_signed) simp_all
    finally have s: "lp_signed u (2 ^ 12) (2 ^ 13 - 1) = v" by simp
    have "u div 256 < 32" using u by simp
    then show ?thesis
      using enc_13bit [of "of_nat (u div 256) OR 0xC0" "of_nat (u mod 256)"] s unfolding e b by simp
  next
    case 3
    then have e: "lpEncodeIntegerGetType v = 0xF1 # le_bytes 2 (of_signed 16 v)"
      unfolding encodeInteger_eq by (simp only: if_P if_not_P) auto
    show ?thesis using 3 fixed_16 [of "le_bytes 2 (of_signed 16 v)"] signed_bytes [of 2 16 v] unfolding e by simp
  next
    case 4
    then have e: "lpEncodeIntegerGetType v = 0xF2 # le_bytes 3 (of_signed 24 v)"
      unfolding encodeInteger_eq by auto
    show ?thesis using 4 fixed_24 [of "le_bytes 3 (of_signed 24 v)"] signed_bytes [of 3 24 v] unfolding e by simp
  next
    case 5
    then have e: "lpEncodeIntegerGetType v = 0xF3 # le_bytes 4 (of_signed 32 v)"
      unfolding encodeInteger_eq by auto
    show ?thesis using 5 fixed_32 [of "le_bytes 4 (of_signed 32 v)"] signed_bytes [of 4 32 v] unfolding e by simp
  next
    case 6
    then have e: "lpEncodeIntegerGetType v = 0xF4 # le_bytes 8 (of_signed 64 v)"
      unfolding encodeInteger_eq by auto
    show ?thesis
      using assms fixed_64 [of "le_bytes 8 (of_signed 64 v)"] signed_bytes [of 8 64 v] unfolding e
      by (simp add: is_int64_def)
  qed
qed

lemma encodeString_props:
  assumes "length s < 2 ^ 32 - 5"
  shows "lp_encoding (lpEncodeString s) \<and> lp_elem_of (lpEncodeString s) = LStr s"
proof -
  consider "length s < 64" | "64 \<le> length s" "length s < 4096" | "4096 \<le> length s" by linarith
  then show ?thesis
  proof cases
    case 1
    define b where "b = (of_nat (length s) OR 0x80 :: u8)"
    have b: "unat b = 128 + length s" unfolding b_def using 1 by (rule enc_or)
    then have "b \<noteq> LP_EOF" "unat b mod 64 = length s"
      using 1 lp_eof_iff [of b] mod_range [of 2 64 "unat b"] by simp_all
    moreover have "lpEncodeString s = b # s" using 1 by (simp add: lpEncodeString_def b_def)
    ultimately show ?thesis using 1 b
      by (simp add: lp_encoding_def lpCurrentEncodedSizeUnsafe_def lp_elem_of_def lpGetWithSize_def Let_def
          rd_def lp_class LP_ENCODING_6BIT_STR_LEN_def)
  next
    case 2
    define b c where "b = (of_nat (length s div 256) OR 0xE0 :: u8)" and "c = (of_nat (length s mod 256) :: u8)"
    have "length s div 256 < 16" using 2 by simp
    then have b: "unat b = 224 + length s div 256" "length s div 256 < 16" unfolding b_def by (simp_all add: enc_or)
    then have "b \<noteq> LP_EOF" "unat b mod 16 = length s div 256"
      using lp_eof_iff [of b] mod_range [of 14 16 "unat b"] by simp_all
    moreover have "unat c = length s mod 256" by (simp add: c_def)
    moreover have "lpEncodeString s = b # c # s" using 2 by (simp add: lpEncodeString_def Let_def b_def c_def)
    ultimately show ?thesis using b 2
      by (simp add: lp_encoding_def lpCurrentEncodedSizeUnsafe_def lp_elem_of_def lpGetWithSize_def Let_def
          rd_def lp_class LP_ENCODING_12BIT_STR_LEN_def)
  next
    case 3
    have "lpEncodeString s = 0xF0 # le_bytes 4 (length s) @ s" using 3 by (simp add: lpEncodeString_def Let_def)
    moreover have "le_nat (le_bytes 4 (length s)) = length s" using assms by (simp add: le_nat_le_bytes)
    ultimately show ?thesis using assms 3
      by (simp add: lp_encoding_def lpCurrentEncodedSizeUnsafe_def lp_elem_of_def lpGetWithSize_def Let_def
          rd_def mem_read_def lp_class LP_ENCODING_32BIT_STR_LEN_def)
  qed
qed

lemma of_char_digits: "of_char CHR ''0'' = (48 :: u8)" "of_char CHR ''9'' = (57 :: u8)"
  by simp_all

lemma lpStringToInt64_loop_eq: "lpStringToInt64_loop v p = string2ll_loop v p"
proof (induction p arbitrary: v)
  case Nil
  then show ?case by simp
next
  case (Cons c p)
  then show ?case
    by (simp only: lpStringToInt64_loop.simps string2ll_loop.simps Let_def is_digit_def of_char_digits)
qed

lemma lpStringToInt64_eq: "lpStringToInt64 s = string2ll s"
proof (cases s)
  case Nil
  then show ?thesis by (simp add: lpStringToInt64_def string2ll_def)
next
  case (Cons c p)
  then show ?thesis
    by (cases p) (simp_all add: lpStringToInt64_def string2ll_def Let_def lpStringToInt64_loop_eq)
qed

text \<open>The bytes \<open>lpInsert\<close> stores for a string: an integer if the string is one.\<close>

definition lp_encode :: "bytes \<Rightarrow> bytes" where
  "lp_encode s = (case fst (lpEncodeGetType s) of Some intenc \<Rightarrow> intenc | None \<Rightarrow> lpEncodeString s)"

lemma length_lpEncodeString:
  "length (lpEncodeString s) =
     (if length s < 64 then 1 + length s else if length s < 4096 then 2 + length s else 5 + length s)"
  by (simp add: lpEncodeString_def Let_def)

lemma lp_encode_length: "snd (lpEncodeGetType s) = length (lp_encode s)"
  by (simp add: lp_encode_def lpEncodeGetType_def Let_def length_lpEncodeString split: option.split)

lemma lp_encode_props:
  assumes "length s < 2 ^ 32 - 5"
  shows "lp_encoding (lp_encode s) \<and> lp_string (lp_elem_of (lp_encode s)) = s"
proof (cases "string2ll s")
  case None
  then have "lp_encode s = lpEncodeString s"
    by (simp add: lp_encode_def lpEncodeGetType_def lpStringToInt64_eq)
  then show ?thesis using encodeString_props [OF assms] by simp
next
  case (Some v)
  then have "lp_encode s = lpEncodeIntegerGetType v"
    by (simp add: lp_encode_def lpEncodeGetType_def lpStringToInt64_eq Let_def)
  moreover have "is_int64 v" "s = ll_repr v" using Some string2ll_iff [of s v] by simp_all
  ultimately show ?thesis using encodeInteger_props by simp
qed

end
