(* ===== verification/Listpack_Blocks.thy ===== *)
theory Listpack_Blocks
  imports Listpack_Entries
begin

text \<open>
  Listpack blocks as lists of encoded elements, and the traversal of a block: the header
  fields, \<open>lpSkip\<close>, \<open>lpValidateNext\<close>, \<open>lpFirst\<close>, \<open>lpNext\<close>, \<open>lpPrev\<close>,
  \<open>lpLast\<close>, \<open>lpLength\<close>, \<open>lpSeek\<close>, \<open>lpGet\<close>, \<open>lpCompare\<close>.
\<close>

section \<open>Representation\<close>

definition lp_entry :: "bytes \<Rightarrow> bytes" where
  "lp_entry e = e @ lpEncodeBacklen (length e)"

definition lp_body :: "bytes list \<Rightarrow> bytes" where
  "lp_body es = concat (map lp_entry es)"

definition lp_total :: "bytes list \<Rightarrow> nat" where
  "lp_total es = 7 + length (lp_body es)"

definition lp_block :: "nat \<Rightarrow> bytes list \<Rightarrow> bytes \<Rightarrow> bytes" where
  "lp_block num es slack =
     le_bytes 4 (lp_total es) @ le_bytes 2 num @ lp_body es @ [LP_EOF] @ slack"

text \<open>The header holds the number of elements, or the marker for an unknown number.\<close>

definition lp_num_ok :: "nat \<Rightarrow> bytes list \<Rightarrow> bool" where
  "lp_num_ok num es \<longleftrightarrow> num = 65535 \<or> num = length es \<and> num < 65535"

definition lp_rep :: "bytes \<Rightarrow> bytes list \<Rightarrow> bool" where
  "lp_rep lp es \<longleftrightarrow> (\<exists>num slack. lp = lp_block num es slack \<and> lp_num_ok num es) \<and>
     list_all lp_encoding es \<and> lp_total es < 2 ^ 32"

text \<open>The offset of the element with index \<open>i\<close>; of the terminator for \<open>i = length es\<close>.\<close>

definition lp_off :: "bytes list \<Rightarrow> nat \<Rightarrow> nat" where
  "lp_off es i = 6 + length (lp_body (take i es))"

lemma lp_body_append [simp]: "lp_body (xs @ ys) = lp_body xs @ lp_body ys"
  by (simp add: lp_body_def)

lemma lp_body_Cons [simp]: "lp_body (e # es) = lp_entry e @ lp_body es"
  by (simp add: lp_body_def)

lemma lp_body_Nil [simp]: "lp_body [] = []"
  by (simp add: lp_body_def)

lemma length_lp_entry: "length (lp_entry e) = length e + lpBacklenSize (length e)"
  by (simp add: lp_entry_def lpBacklenSize_def)

lemma lp_off_0 [simp]: "lp_off es 0 = 6"
  by (simp add: lp_off_def)

lemma lp_off_Suc: "i < length es \<Longrightarrow> lp_off es (Suc i) = lp_off es i + length (lp_entry (es ! i))"
  by (simp add: lp_off_def take_Suc_conv_app_nth)

lemma lp_off_length: "lp_off es (length es) = lp_total es - 1"
  by (simp add: lp_off_def lp_total_def)

lemma lp_off_end: "length es \<le> i \<Longrightarrow> lp_off es i = lp_total es - 1"
  by (simp add: lp_off_def lp_total_def)

lemma lp_off_mono: "i \<le> j \<Longrightarrow> lp_off es i \<le> lp_off es j"
proof -
  assume "i \<le> j"
  then obtain k where "j = i + k" by (auto simp: le_iff_add)
  then show ?thesis by (simp add: lp_off_def take_add)
qed

lemma lp_off_less:
  assumes "i < length es"
  shows "lp_off es i + length (lp_entry (es ! i)) \<le> lp_total es - 1"
proof -
  have "lp_off es (Suc i) \<le> lp_off es (length es)" using assms by (intro lp_off_mono) simp
  then show ?thesis using lp_off_Suc [OF assms] lp_off_length by simp
qed

lemma entry_pos: "0 < length (lp_entry e)"
  using backlen_size_cases [of "length e"] by (simp add: length_lp_entry)

section \<open>The header\<close>

lemma total_block [simp]: "lp_total es < 2 ^ 32 \<Longrightarrow> lpGetTotalBytes (lp_block num es slack) = Some (lp_total es)"
  by (simp add: lpGetTotalBytes_def lp_block_def mem_read_def le_nat_le_bytes)

lemma bytes_block [simp]: "lp_total es < 2 ^ 32 \<Longrightarrow> lpBytes (lp_block num es slack) = Some (lp_total es)"
  by (simp add: lpBytes_def)

lemma num_block [simp]: "num < 65536 \<Longrightarrow> lpGetNumElements (lp_block num es slack) = Some num"
  by (simp add: lpGetNumElements_def lp_block_def mem_read_def le_nat_le_bytes)

lemma le_bytes_mod: "le_bytes n (v mod 256 ^ n) = le_bytes n v"
proof (induction n arbitrary: v)
  case 0
  then show ?case by simp
next
  case (Suc n)
  have "v mod (256 * 256 ^ n) = 256 * (v div 256 mod 256 ^ n) + v mod 256" by (rule mod_mult2_eq)
  then show ?case using Suc [of "v div 256"] by simp
qed

lemma set_num_block: "lpSetNumElements (lp_block num es slack) n = Some (lp_block (n mod 65536) es slack)"
proof -
  have "le_bytes 2 n = le_bytes 2 (n mod 65536)"
    using le_bytes_mod [of 2 n] by simp
  then show ?thesis by (simp add: lpSetNumElements_def lp_block_def mem_write_def)
qed

lemma num_ok_less: "lp_num_ok num es \<Longrightarrow> num < 65536"
  by (auto simp: lp_num_ok_def)

section \<open>One element inside a block\<close>

text \<open>A block around the element with index \<open>i\<close>.\<close>

lemma block_split:
  assumes "i < length es"
  shows "\<exists>A B. lp_block num es slack = A @ (es ! i @ lpEncodeBacklen (length (es ! i))) @ B \<and> length A = lp_off es i"
proof -
  have "lp_body es = lp_body (take i es) @ lp_entry (es ! i) @ lp_body (drop (Suc i) es)"
    using id_take_nth_drop [OF assms] by (metis lp_body_append lp_body_Cons)
  then have "lp_block num es slack = (le_bytes 4 (lp_total es) @ le_bytes 2 num @ lp_body (take i es)) @
      (es ! i @ lpEncodeBacklen (length (es ! i))) @ (lp_body (drop (Suc i) es) @ [LP_EOF] @ slack)"
    by (simp add: lp_block_def lp_entry_def)
  moreover have "length (le_bytes 4 (lp_total es) @ le_bytes 2 num @ lp_body (take i es)) = lp_off es i"
    by (simp add: lp_off_def)
  ultimately show ?thesis by blast
qed

lemma eof_block: "length es \<le> i \<Longrightarrow> rd (lp_block num es slack) (lp_off es i) = Some LP_EOF"
proof -
  assume "length es \<le> i"
  then have o: "lp_off es i = 4 + 2 + length (lp_body es) + 0" by (simp add: lp_off_def)
  have "lp_block num es slack = (le_bytes 4 (lp_total es) @ le_bytes 2 num @ lp_body es) @ [LP_EOF] @ slack"
    by (simp add: lp_block_def)
  then show ?thesis unfolding o by (simp add: rd_def nth_append)
qed

lemma length_block: "length (lp_block num es slack) = lp_total es + length slack"
  by (simp add: lp_block_def lp_total_def)

lemma hd_not_eof: "i < length es \<Longrightarrow> list_all lp_encoding es \<Longrightarrow> hd (es ! i) \<noteq> LP_EOF"
  by (auto simp: list_all_length lp_encoding_def)

text \<open>What the reading functions see at the offset of element \<open>i\<close>.\<close>

lemma at_index:
  assumes "i < length es" and "list_all lp_encoding es" and "lp_total es < 2 ^ 32"
  shows "rd (lp_block num es slack) (lp_off es i) = Some (hd (es ! i))"
    "lpCurrentEncodedSizeUnsafe (lp_block num es slack) (lp_off es i) = Some (length (es ! i))"
    "\<exists>k. lpCurrentEncodedSizeBytes (lp_block num es slack) (lp_off es i) = Some k \<and> 0 < k \<and> k \<le> length (es ! i)"
    "lpSkip (lp_block num es slack) (lp_off es i) = Some (lp_off es (Suc i))"
    "lpDecodeBacklen (lp_block num es slack) (lp_off es (Suc i) - 1) = Some (length (es ! i))"
    "lpGetWithSize (lp_block num es slack) (lp_off es i) None =
      Some (lp_ptr (lp_off es i) (es ! i), Some (length (lp_entry (es ! i))))"
proof -
  let ?e = "es ! i"
  obtain A B where b: "lp_block num es slack = A @ (?e @ lpEncodeBacklen (length ?e)) @ B" "length A = lp_off es i"
    using block_split [OF assms(1)] by blast
  have enc: "lp_encoding ?e" using assms(1,2) by (simp add: list_all_length)
  then have e: "?e \<noteq> []" "hd ?e \<noteq> LP_EOF" "length ?e < 2 ^ 32" by (simp_all add: lp_encoding_def)
  show "rd (lp_block num es slack) (lp_off es i) = Some (hd ?e)"
    using e(1) unfolding b(1) b(2) [symmetric] by (cases ?e) (simp_all add: rd_def)
  have sz: "lpCurrentEncodedSizeUnsafe (A @ ?e @ lpEncodeBacklen (length ?e) @ B) (length A) = Some (length ?e)"
    using encoding_size [OF enc] by simp
  then show "lpCurrentEncodedSizeUnsafe (lp_block num es slack) (lp_off es i) = Some (length ?e)"
    unfolding b(1) b(2) [symmetric] by simp
  then show "lpSkip (lp_block num es slack) (lp_off es i) = Some (lp_off es (Suc i))"
    using lp_off_Suc [OF assms(1)] by (simp add: lpSkip_def length_lp_entry)
  show "\<exists>k. lpCurrentEncodedSizeBytes (lp_block num es slack) (lp_off es i) = Some k \<and> 0 < k \<and> k \<le> length ?e"
    using encoding_lenbytes [OF enc, of A "lpEncodeBacklen (length ?e) @ B"] unfolding b(1) b(2) [symmetric] by simp
  have "lpDecodeBacklen ((A @ ?e) @ lpEncodeBacklen (length ?e) @ B)
      (length (A @ ?e) + lpBacklenSize (length ?e) - 1) = Some (length ?e)"
    using e(3) by (intro decode_encode) simp
  then show "lpDecodeBacklen (lp_block num es slack) (lp_off es (Suc i) - 1) = Some (length ?e)"
    unfolding b(1) using lp_off_Suc [OF assms(1)] b(2) by (simp add: length_lp_entry add.assoc)
  show "lpGetWithSize (lp_block num es slack) (lp_off es i) None =
      Some (lp_ptr (lp_off es i) ?e, Some (length (lp_entry ?e)))"
    using get_entry [OF enc, of A "lpEncodeBacklen (length ?e) @ B"] unfolding b(1) b(2) [symmetric]
    by (simp add: length_lp_entry)
qed

section \<open>Traversal\<close>

lemma backlen_le: "lpBacklenSize l \<le> 5" "1 \<le> lpBacklenSize l"
  using backlen_size_cases [of l] by simp_all

lemma validateNext_entry:
  assumes "i < length es" and "list_all lp_encoding es" and "lp_total es < 2 ^ 32"
  shows "lpValidateNext (lp_block num es slack) (Some (lp_off es i)) (lp_total es) =
    Some (True, Some (lp_off es (Suc i)))"
proof -
  note a = at_index [OF assms, of num slack] hd_not_eof [OF assms(1,2)]
  obtain k where k: "lpCurrentEncodedSizeBytes (lp_block num es slack) (lp_off es i) = Some k" "0 < k"
      "k \<le> length (es ! i)" using a(3) by blast
  have n: "lp_off es (Suc i) = lp_off es i + (length (es ! i) + lpBacklenSize (length (es ! i)))"
    using lp_off_Suc [OF assms(1)] by (simp add: length_lp_entry)
  have le: "lp_off es i + (length (es ! i) + lpBacklenSize (length (es ! i))) \<le> lp_total es - 1" "7 \<le> lp_total es"
    using lp_off_less [OF assms(1)] by (simp_all add: length_lp_entry lp_total_def)
  have o6: "6 \<le> lp_off es i" by (simp add: lp_off_def)
  have "wadd 64 (length (es ! i)) (lpBacklenSize (length (es ! i))) = length (es ! i) + lpBacklenSize (length (es ! i))"
    using le assms(3) by (intro wadd_exact) simp
  then show ?thesis
    using a k le o6 n by (simp add: lpValidateNext_def Let_def lp_out_of_range_def)
qed

lemma validateNext_eof:
  assumes "list_all lp_encoding es" and "lp_total es < 2 ^ 32" and "length es \<le> i"
  shows "lpValidateNext (lp_block num es slack) (Some (lp_off es i)) (lp_total es) = Some (True, None)"
  using eof_block [OF assms(3), of num slack] lp_off_end [OF assms(3)]
  by (simp add: lpValidateNext_def lp_out_of_range_def lp_total_def)

lemma assertValid_index:
  "list_all lp_encoding es \<Longrightarrow> lp_total es < 2 ^ 32 \<Longrightarrow>
   lpAssertValidEntry (lp_block num es slack) (lp_total es) (lp_off es i) = Some ()"
  using validateNext_entry [of i es num slack] validateNext_eof [of es i num slack]
  by (cases "i < length es") (simp_all add: lpAssertValidEntry_def)

text \<open>The position of index \<open>i\<close> as the C code reports it: \<open>NULL\<close> past the end.\<close>

definition lp_pos :: "bytes list \<Rightarrow> nat \<Rightarrow> nat option" where
  "lp_pos es i = (if i < length es then Some (lp_off es i) else None)"

lemma move_to_index:
  assumes "list_all lp_encoding es" and "lp_total es < 2 ^ 32"
  shows "do { b \<leftarrow> rd (lp_block num es slack) (lp_off es i);
      if b = LP_EOF then Some None
      else do { total \<leftarrow> lpBytes (lp_block num es slack);
        lpAssertValidEntry (lp_block num es slack) total (lp_off es i);
        Some (Some (lp_off es i)) } } = Some (lp_pos es i)"
  using at_index(1) [OF _ assms, of i num slack] hd_not_eof [OF _ assms(1), of i] eof_block [of es i num slack]
    assertValid_index [OF assms, of num slack i] assms
  by (cases "i < length es") (simp_all add: lp_pos_def)

lemma lpFirst_block:
  assumes "list_all lp_encoding es" and "lp_total es < 2 ^ 32"
  shows "lpFirst (lp_block num es slack) = Some (lp_pos es 0)"
  using move_to_index [OF assms, of num slack 0] by (simp only: lpFirst_def Let_def lp_off_0)

lemma lpNext_block:
  assumes "i < length es" and "list_all lp_encoding es" and "lp_total es < 2 ^ 32"
  shows "lpNext (lp_block num es slack) (lp_off es i) = Some (lp_pos es (Suc i))"
  using move_to_index [OF assms(2,3), of num slack "Suc i"] at_index(4) [OF assms, of num slack]
  by (simp add: lpNext_def)

lemma lpPrev_block:
  assumes "i \<le> length es" and "list_all lp_encoding es" and "lp_total es < 2 ^ 32"
  shows "lpPrev (lp_block num es slack) (lp_off es i) =
    Some (if i = 0 then None else Some (lp_off es (i - 1)))"
proof (cases i)
  case 0
  then show ?thesis by (simp add: lpPrev_def)
next
  case (Suc j)
  then have j: "j < length es" using assms(1) by simp
  have n: "lp_off es i = lp_off es j + (length (es ! j) + lpBacklenSize (length (es ! j)))"
    using lp_off_Suc [OF j] Suc by (simp add: length_lp_entry)
  have o: "6 \<le> lp_off es j" by (simp add: lp_off_def)
  have "wadd 64 (length (es ! j)) (lpBacklenSize (length (es ! j))) = length (es ! j) + lpBacklenSize (length (es ! j))"
    using lp_off_less [OF j] assms(3) by (intro wadd_exact) (simp add: length_lp_entry)
  then show ?thesis
    using at_index(5) [OF j assms(2,3), of num slack] assertValid_index [OF assms(2,3), of num slack j] n Suc o
      backlen_le(2) [of "length (es ! j)"] assms(3)
    by (simp add: lpPrev_def Let_def)
qed

lemma lpLast_block:
  assumes "list_all lp_encoding es" and "lp_total es < 2 ^ 32"
  shows "lpLast (lp_block num es slack) = Some (if es = [] then None else Some (lp_off es (length es - 1)))"
  using lpPrev_block [OF order_refl assms, of num slack] assms lp_off_length [of es]
  by (simp add: lpLast_def lp_total_def)

lemma lpLength_loop_block:
  assumes "list_all lp_encoding es" and "lp_total es < 2 ^ 32"
  shows "i \<le> length es \<Longrightarrow> count + length es < 2 ^ 32 + i \<Longrightarrow>
    lpLength_loop (lp_block num es slack) (lp_pos es i) count = Some (count + (length es - i))"
proof (induction "length es - i" arbitrary: i count)
  case 0
  then show ?case by (simp add: lp_pos_def lpLength_loop.simps [of _ None])
next
  case (Suc n)
  then have i: "i < length es" by simp
  have "lpLength_loop (lp_block num es slack) (lp_pos es (Suc i)) (count + 1) = Some (count + 1 + (length es - Suc i))"
    using Suc by (intro Suc.hyps(1)) auto
  then show ?case
    using lpNext_block [OF i assms, of num slack] i Suc.prems
    by (subst lpLength_loop.simps) (simp add: lp_pos_def [of es i] wadd_def)
qed

lemma length_le_total: "list_all lp_encoding es \<Longrightarrow> 2 * length es + 7 \<le> lp_total es"
proof (induction es)
  case Nil
  then show ?case by (simp add: lp_total_def)
next
  case (Cons e es)
  then have "1 \<le> length e" by (auto simp: lp_encoding_def Suc_le_eq)
  then have "2 \<le> length (lp_entry e)" using backlen_le(2) [of "length e"] by (simp add: length_lp_entry)
  then show ?case using Cons by (simp add: lp_total_def)
qed

lemma lpLength_block:
  assumes "list_all lp_encoding es" and "lp_total es < 2 ^ 32" and "lp_num_ok num es"
  shows "\<exists>num'. lpLength (lp_block num es slack) = Some (lp_block num' es slack, length es) \<and> lp_num_ok num' es"
proof (cases "num = 65535")
  case True
  have "lpLength_loop (lp_block num es slack) (lp_pos es 0) 0 = Some (length es)"
    using lpLength_loop_block [OF assms(1,2), of 0 0 num slack] length_le_total [OF assms(1)] assms(2) by simp
  then show ?thesis
    using True lpFirst_block [OF assms(1,2), of num slack] set_num_block [of num es slack "length es"]
    by (cases "length es < 65535") (auto simp: lpLength_def lp_num_ok_def)
next
  case False
  then show ?thesis using assms(3) by (auto simp: lpLength_def lp_num_ok_def)
qed

section \<open>Seeking\<close>

lemma seek_forward_block:
  assumes "list_all lp_encoding es" and "lp_total es < 2 ^ 32"
  shows "lpSeek_forward (lp_block num es slack) n (lp_pos es i) = Some (lp_pos es (i + n))"
proof (induction n arbitrary: i)
  case 0
  then show ?case by simp
next
  case (Suc n)
  then show ?case
    using lpNext_block [OF _ assms, of i num slack] Suc [of "Suc i"]
    by (cases "i < length es") (simp_all add: lp_pos_def [of es i] lp_pos_def [of es "Suc (i + n)"])
qed

lemma seek_backward_block:
  assumes "list_all lp_encoding es" and "lp_total es < 2 ^ 32"
  shows "j < length es \<Longrightarrow> lpSeek_backward (lp_block num es slack) n (Some (lp_off es j)) =
    Some (if n \<le> j then Some (lp_off es (j - n)) else None)"
proof (induction n arbitrary: j)
  case 0
  then show ?case by simp
next
  case (Suc n)
  show ?case
  proof (cases j)
    case 0
    then show ?thesis using lpPrev_block [OF _ assms, of 0 num slack] by simp
  next
    case (Suc k)
    then show ?thesis
      using lpPrev_block [OF _ assms, of j num slack] Suc.IH [of k] Suc.prems by simp
  qed
qed

text \<open>The element a possibly negative index denotes.\<close>

definition lp_index :: "bytes list \<Rightarrow> int \<Rightarrow> nat option" where
  "lp_index es index =
     (let j = (if index < 0 then int (length es) + index else index) in
      if 0 \<le> j \<and> j < int (length es) then Some (nat j) else None)"

lemma seek_scan_back:
  assumes "list_all lp_encoding es" and "lp_total es < 2 ^ 32" and "index < 0"
  shows "lpSeek_scan (lp_block num es slack) False index = Some (map_option (lp_off es) (lp_index es index))"
proof (cases "es = []")
  case True
  then show ?thesis using lpLast_block [OF assms(1,2), of num slack] assms(3)
    by (simp add: lpSeek_scan_def lp_index_def Let_def)
next
  case False
  define n where "n = nat (- 1 - index)"
  have i: "index = - 1 - int n" using assms(3) by (simp add: n_def)
  have "lp_index es index = (if n \<le> length es - 1 then Some (length es - 1 - n) else None)"
  proof (cases "n \<le> length es - 1")
    case True
    then have "int (length es) + index = int (length es - 1 - n)" using False by (cases es) (simp_all add: i of_nat_diff)
    moreover have "length es - 1 - n < length es" using False by (cases es) simp_all
    ultimately show ?thesis using True assms(3) by (simp only: lp_index_def Let_def if_True of_nat_0_le_iff) simp
  next
    case nle: False
    then have "int (length es) + index < 0" by (simp add: i)
    then show ?thesis using nle assms(3) by (simp add: lp_index_def Let_def)
  qed
  then show ?thesis
    using seek_backward_block [OF assms(1,2), of "length es - 1" num slack n] False
      lpLast_block [OF assms(1,2), of num slack]
    by (simp add: lpSeek_scan_def n_def [symmetric])
qed

lemma seek_scan_forward:
  assumes "list_all lp_encoding es" and "lp_total es < 2 ^ 32" and "0 \<le> index"
  shows "lpSeek_scan (lp_block num es slack) True index = Some (map_option (lp_off es) (lp_index es index))"
  using seek_forward_block [OF assms(1,2), of num slack "nat index" 0] lpFirst_block [OF assms(1,2), of num slack] assms(3)
  by (auto simp: lpSeek_scan_def lp_index_def Let_def lp_pos_def nat_less_iff)

lemma lpSeek_block:
  assumes "list_all lp_encoding es" and "lp_total es < 2 ^ 32" and "lp_num_ok num es"
  shows "lpSeek (lp_block num es slack) index = Some (map_option (lp_off es) (lp_index es index))"
proof (cases "num = 65535")
  case True
  then show ?thesis
    using seek_scan_back [OF assms(1,2)] seek_scan_forward [OF assms(1,2)]
    by (cases "index < 0") (simp_all add: lpSeek_def)
next
  case False
  then have num: "num = length es" "num < 65535" using assms(3) by (auto simp: lp_num_ok_def)
  define j where "j = (if index < 0 then int num + index else index)"
  have seek: "lpSeek (lp_block num es slack) index =
      (if j < 0 then Some None else if j \<ge> int num then Some None
       else if j > int num div 2 then lpSeek_scan (lp_block num es slack) False (j - int num)
       else lpSeek_scan (lp_block num es slack) True j)"
    using num_block [of num es slack] num(2) False unfolding lpSeek_def j_def by (simp only: Let_def) simp
  consider "j < 0" | "int num \<le> j" | "0 \<le> j" "j < int num" "j > int num div 2"
    | "0 \<le> j" "j < int num" "\<not> j > int num div 2" by linarith
  then show ?thesis
  proof cases
    case 3
    then have "lp_index es (j - int num) = lp_index es index" by (auto simp: lp_index_def Let_def j_def num(1))
    then show ?thesis
      using 3 seek_scan_back [OF assms(1,2), of "j - int num" num slack] by (simp add: seek)
  next
    case 4
    then have "lp_index es j = lp_index es index" by (auto simp: lp_index_def Let_def j_def num(1))
    then show ?thesis
      using 4 seek_scan_forward [OF assms(1,2), of j num slack] by (simp add: seek)
  next
    case 1
    then have "lp_index es index = None" by (auto simp: lp_index_def Let_def j_def num(1) split: if_splits)
    then show ?thesis using 1 by (simp add: seek)
  next
    case 2
    then have "lp_index es index = None" by (auto simp: lp_index_def Let_def j_def num(1) split: if_splits)
    then show ?thesis using 2 by (simp add: seek)
  qed
qed

section \<open>Values\<close>

lemma read_string_block:
  assumes "i < length es" and "list_all lp_encoding es" and "lp_elem_of (es ! i) = LStr s"
  shows "mem_read (lp_block num es slack) (lp_off es i + (length (es ! i) - length s)) (length s) = Some s"
proof -
  let ?e = "es ! i"
  obtain A B where b: "lp_block num es slack = A @ (?e @ lpEncodeBacklen (length ?e)) @ B" "length A = lp_off es i"
    using block_split [OF assms(1)] by blast
  have enc: "lp_encoding ?e" using assms(1,2) by (simp add: list_all_length)
  have s: "length s \<le> length ?e" "drop (length ?e - length s) ?e = s" using get_at_0(2) [OF enc assms(3)] by simp_all
  then have "mem_read ?e (length ?e - length s) (length s) = Some s" by (simp add: mem_read_def)
  from mem_read_in [OF this, of A "lpEncodeBacklen (length ?e) @ B"] show ?thesis
    by (simp add: b)
qed

lemma enc_byte:
  "unat b = 241 \<Longrightarrow> b = 0xF1" "unat b = 242 \<Longrightarrow> b = 0xF2" "unat b = 243 \<Longrightarrow> b = 0xF3"
  "unat b = 244 \<Longrightarrow> b = 0xF4" for b :: u8
  by (simp_all add: word_unat_eq_iff)

lemma small_int64: "n < 256 \<Longrightarrow> is_int64 (int n)"
  by (simp add: is_int64_def)

lemma elem_int64:
  assumes "lp_encoding e" and "lp_elem_of e = LInt v"
  shows "is_int64 v"
proof -
  have bound: "is_int64 (lp_signed u (2 ^ (w - 1)) (2 ^ w - 1))" if "u < 2 ^ w" "0 < w" "w \<le> 64" for u w
  proof -
    have "(2::int) ^ (w - 1) \<le> 2 ^ 63" using that(3) by (intro power_increasing) auto
    then show ?thesis using lp_signed_to_signed [OF that] to_signed_bounds [OF that(2,1)] by (simp add: is_int64_def)
  qed
  from assms(1) show ?thesis
  proof (cases rule: encoding_cases)
    case (b7 b)
    moreover have "is_int64 (int (unat b))" by (rule small_int64) simp
    ultimately show ?thesis using enc_7bit [of b] assms(2) by auto
  next
    case (b13 b c)
    have "unat c < 256" by simp
    moreover have "(unat b - 192) * 256 \<le> 31 * 256" using b13 by (intro mult_le_mono1) simp
    ultimately have "(unat b - 192) * 256 + unat c < 31 * 256 + 256" by (rule add_le_less_mono [rotated])
    then have "(unat b - 192) * 256 + unat c < 2 ^ 13" by (rule order_less_le_trans) simp
    then show ?thesis using enc_13bit [of b c] b13 assms(2) bound [of _ 13] by auto
  next
    case (int b s)
    have "le_nat s < 2 ^ (8 * length s)" using le_nat_less [of s] by (simp add: pow256)
    moreover have "b = 0xF1 \<and> length s = 2 \<or> b = 0xF2 \<and> length s = 3 \<or> b = 0xF3 \<and> length s = 4"
      using int(2,3) enc_byte [of b] by auto
    ultimately show ?thesis
      using int(1) assms(2) fixed_16 [of s] fixed_24 [of s] fixed_32 [of s]
        bound [of "le_nat s" 16] bound [of "le_nat s" 24] bound [of "le_nat s" 32] by (elim disjE) simp_all
  next
    case (int64 b s)
    have "le_nat s < 2 ^ (8 * length s)" using le_nat_less [of s] by (simp add: pow256)
    moreover have "b = 0xF4" using int64(2) enc_byte by blast
    ultimately show ?thesis using int64 assms(2) fixed_64 [of s] bound [of "le_nat s" 64] by auto
  qed (use assms(2) in \<open>auto simp: lp_elem_of_def lpGetWithSize_def Let_def rd_def mem_read_def lp_class\<close>)
qed

lemma int_match:
  assumes "lp_encoding e" and "lp_elem_of e = LInt v"
  shows "lpStringToInt64 s = Some v \<longleftrightarrow> lp_string (lp_elem_of e) = s"
  using string2ll_iff [of s v] elem_int64 [OF assms] by (auto simp: lpStringToInt64_eq assms(2))

lemma lpCompare_block:
  assumes "i < length es" and "list_all lp_encoding es" and "lp_total es < 2 ^ 32"
  shows "lpCompare (lp_block num es slack) (lp_off es i) s = Some (lp_string (lp_elem_of (es ! i)) = s)"
proof -
  have enc: "lp_encoding (es ! i)" using assms(1,2) by (simp add: list_all_length)
  show ?thesis
  proof (cases "lp_elem_of (es ! i)")
    case (LInt v)
    then show ?thesis
      using at_index [OF assms, of num slack] hd_not_eof [OF assms(1,2)] int_match [OF enc LInt, of s]
      by (auto simp: lpCompare_def lpGet_def lp_ptr_def split: option.split)
  next
    case (LStr t)
    then show ?thesis
      using at_index [OF assms, of num slack] hd_not_eof [OF assms(1,2)]
        read_string_block [OF assms(1,2) LStr, of num slack]
      by (auto simp: lpCompare_def lpGet_def lp_ptr_def)
  qed
qed

end
