(* ===== verification/Listpack_Insert.thy ===== *)
theory Listpack_Insert
  imports Listpack_Blocks
begin

text \<open>
  \<open>lpInsert\<close> and its wrappers refine insertion, replacement and deletion on the list of
  encoded elements, for every allocator and every content of uninitialised memory.
\<close>

section \<open>Moving a tail and resizing the block\<close>

lemma move_gap:
  assumes "n \<le> length X + length S" and "dst = length A + n" and "src = length A + length X" and "len = length T"
  shows "\<exists>G S'. mem_move (A @ X @ T @ S) dst src len = Some (A @ G @ T @ S') \<and> length G = n \<and>
    length S' = length X + length S - n"
proof -
  define Y where "Y = X @ T @ S"
  have lY: "length Y = length X + length T + length S" by (simp add: Y_def)
  have "mem_read (A @ Y) src len = Some T" using assms by (simp add: mem_read_def Y_def)
  moreover have "mem_write (A @ Y) dst T = Some (A @ take n Y @ T @ drop (n + length T) Y)"
    using assms(1,2) lY by (simp add: mem_write_def add.assoc)
  ultimately have "mem_move (A @ Y) dst src len = Some (A @ take n Y @ T @ drop (n + length T) Y)"
    by (simp add: mem_move_def)
  moreover have "length (take n Y) = n" "length (drop (n + length T) Y) = length X + length S - n"
    using assms(1) lY by simp_all
  ultimately show ?thesis unfolding Y_def by blast
qed

lemma realloc_keep: "length A \<le> n \<Longrightarrow> \<exists>S'. realloc junk (A @ S) n = A @ S' \<and> length S' = n - length A"
  by (simp add: realloc_def)

lemma write_at: "length Y = length N \<Longrightarrow> i = length A \<Longrightarrow> mem_write (A @ Y @ Z) i N = Some (A @ N @ Z)"
  by (rule mem_write_middle) simp_all

lemma store_entry:
  assumes "length G = length e + length bk" and "poff = length A"
    and "(case eleint of Some x \<Rightarrow> x | None \<Rightarrow> (case elestr of Some s \<Rightarrow> lpEncodeString s | None \<Rightarrow> [])) = e"
    and "eleint \<noteq> None \<or> elestr \<noteq> None"
  shows "lpInsert_store (A @ G @ Z) poff eleint elestr bk = Some (A @ (e @ bk) @ Z)"
proof -
  have enc: "(case eleint of Some x \<Rightarrow> Some x | None \<Rightarrow>
      (case elestr of Some s \<Rightarrow> Some (lpEncodeString s) | None \<Rightarrow> None)) = Some e"
    using assms(3,4) by (auto split: option.splits)
  obtain G1 G2 where G: "G = G1 @ G2" "length G1 = length e" "length G2 = length bk"
    using that [of "take (length e) G" "drop (length e) G"] assms(1) by simp
  have "mem_write (A @ G1 @ (G2 @ Z)) poff e = Some (A @ e @ (G2 @ Z))"
    using assms(2) G by (intro write_at)
  moreover have "mem_write ((A @ e) @ G2 @ Z) (poff + length e) bk = Some ((A @ e) @ bk @ Z)"
    using assms(2) G by (intro write_at) simp_all
  ultimately show ?thesis unfolding lpInsert_store_def enc by (simp add: G)
qed

section \<open>The header of a block in parts\<close>

lemma total_parts: "length H = 4 \<Longrightarrow> lpSetTotalBytes (H @ R) v = Some (le_bytes 4 v @ R)"
  using mem_write_middle [of 0 "[]" "le_bytes 4 v" H R] by (simp add: lpSetTotalBytes_def)

lemma num_parts:
  assumes "length H = 4" "length N = 2"
  shows "lpGetNumElements (H @ N @ R) = Some (le_nat N)"
    "lpSetNumElements (H @ N @ R) v = Some (H @ le_bytes 2 v @ R)"
  using assms mem_read_middle [of 4 H 2 N R] mem_write_middle [of 4 H "le_bytes 2 v" N R]
  by (simp_all add: lpGetNumElements_def lpSetNumElements_def)

text \<open>The number of elements in the header after an insertion or a deletion.\<close>

definition lp_num_step :: "bool \<Rightarrow> nat \<Rightarrow> nat" where
  "lp_num_step delete num = (if num = 65535 then num else if delete then num - 1 else num + 1)"

lemma numele_step:
  assumes "length H = 4" and "num < 65536" and "delete \<Longrightarrow> 0 < num"
  shows "lpInsert_numele (H @ le_bytes 2 num @ R) delete = Some (H @ le_bytes 2 (lp_num_step delete num) @ R)"
  using assms num_parts [of H "le_bytes 2 num" R]
  by (auto simp: lpInsert_numele_def lp_num_step_def le_nat_le_bytes)

lemma num_ok_insert: "lp_num_ok num es \<Longrightarrow> length es' = Suc (length es) \<Longrightarrow> lp_num_ok (lp_num_step False num) es'"
  by (auto simp: lp_num_ok_def lp_num_step_def)

lemma num_ok_delete: "lp_num_ok num es \<Longrightarrow> length es = Suc (length es') \<Longrightarrow> lp_num_ok (lp_num_step True num) es'"
  by (auto simp: lp_num_ok_def lp_num_step_def)

section \<open>The write phase\<close>

lemma lpInsert_write_parts:
  assumes us: "\<forall>n. n \<le> us n" and H: "length H = 4" and num: "num < 65536" "delete \<Longrightarrow> 0 < num"
    and A: "A = H @ le_bytes 2 num @ P" and X: "where0 = LP_BEFORE \<Longrightarrow> X = []"
    and N: "N = (if delete then [] else e @ bk)" and enclen: "enclen + length bk = length N" "\<not> delete \<Longrightarrow> enclen = length e"
    and enc: "\<not> delete \<Longrightarrow> (case eleint of Some x \<Rightarrow> x | None \<Rightarrow> (case elestr of Some s \<Rightarrow> lpEncodeString s | None \<Rightarrow> [])) = e \<and>
        (eleint \<noteq> None \<or> elestr \<noteq> None)"
    and old: "old = length A + length X + length T" and new: "new = length A + length N + length T"
    and T: "T \<noteq> []"
    and num': "num' = (if where0 \<noteq> LP_REPLACE \<or> delete then lp_num_step delete num else num)"
  shows "\<exists>S'. lpInsert_write us junk (A @ X @ T @ S) delete elestr eleint enclen bk where0 newp (length A) (length X) old new =
    Some (le_bytes 4 new @ le_bytes 2 num' @ P @ N @ T @ S',
      if newp \<and> delete then (if hd T = LP_EOF then None else Some (length A)) else if newp then Some (length A) else None)"
proof -
  define lp1 where "lp1 = (if new > old \<and> new > length (A @ X @ T @ S) then lp_realloc us junk (A @ X @ T @ S) new else A @ X @ T @ S)"
  have "\<exists>S1. lp1 = A @ X @ T @ S1 \<and> length N \<le> length X + length S1"
  proof (cases "new > old \<and> new > length (A @ X @ T @ S)")
    case True
    moreover have "length (A @ X @ T @ S) \<le> us new" using True us by (meson less_imp_le order_trans)
    ultimately have "lp1 = (A @ X @ T @ S) @ map junk [length (A @ X @ T @ S)..<us new]"
      by (simp add: lp1_def lp_realloc_def realloc_grow del: append_assoc length_append)
    then have e: "lp1 = A @ X @ T @ S @ map junk [length (A @ X @ T @ S)..<us new]" by simp
    moreover have "new \<le> us new" using us by simp
    then have "length N \<le> length X + length (S @ map junk [length (A @ X @ T @ S)..<us new])"
      using new True by simp
    ultimately show ?thesis by blast
  next
    case False
    then show ?thesis using old new by (auto simp: lp1_def)
  qed
  then obtain S1 where S1: "lp1 = A @ X @ T @ S1" "length N \<le> length X + length S1" by blast
  obtain G S2 where mv: "mem_move lp1 (length A + length N) (length A + length X) (length T) = Some (A @ G @ T @ S2)"
    and G: "length G = length N" using move_gap [OF S1(2) refl refl refl, of A T] S1(1) by auto
  define lp3 where "lp3 = (if new < old then lp_realloc us junk (A @ G @ T @ S2) new else A @ G @ T @ S2)"
  have "\<exists>S3. lp3 = A @ G @ T @ S3"
  proof (cases "new < old")
    case True
    have "length (A @ G @ T) = new" using new G by simp
    then have "length (A @ G @ T) \<le> us new" using us by metis
    from realloc_keep [OF this, of junk S2] show ?thesis using True by (auto simp: lp3_def lp_realloc_def)
  qed (simp add: lp3_def)
  then obtain S3 where S3: "lp3 = A @ G @ T @ S3" by blast
  have mv': "(if where0 = LP_BEFORE then mem_move lp1 (length A + enclen + length bk) (length A) (old - length A)
      else mem_move lp1 (length A + enclen + length bk) (length A + length X) (old - length A - length X)) = Some (A @ G @ T @ S2)"
    using mv enclen(1) X old by (auto simp: add.assoc)
  have rd3: "delete \<Longrightarrow> rd lp3 (length A) = Some (hd T)"
    using S3 G N T by (cases T) (auto simp: rd_def)
  have st: "(if \<not> delete then lpInsert_store lp3 (length A) eleint elestr bk else Some lp3) = Some (A @ N @ T @ S3)"
    using store_entry [of G e bk "length A" A elestr eleint "T @ S3"] S3 G N enc by auto
  have nm: "(if where0 \<noteq> LP_REPLACE \<or> delete then lpInsert_numele (A @ N @ T @ S3) delete else Some (A @ N @ T @ S3)) =
      Some (H @ le_bytes 2 num' @ P @ N @ T @ S3)"
    using numele_step [OF H num, of delete "P @ N @ T @ S3"] A num' by auto
  have tot: "lpSetTotalBytes (H @ le_bytes 2 num' @ P @ N @ T @ S3) new = Some (le_bytes 4 new @ le_bytes 2 num' @ P @ N @ T @ S3)"
    using total_parts [OF H] .
  have as: "c_assert (length A + length X \<le> old) = Some ()" using old by simp
  show ?thesis
    unfolding lpInsert_write_def Let_def lp1_def [symmetric] as mv' bind.bind_lunit lp3_def [symmetric] st nm tot
    using rd3 by (intro exI [of _ S3]) auto
qed

section \<open>Insertion, replacement and deletion on lists\<close>

text \<open>The bytes of the element that is inserted, from the two ways to pass it.\<close>

definition lp_new_enc :: "bytes option \<Rightarrow> bytes option \<Rightarrow> bytes" where
  "lp_new_enc elestr eleint =
     (case elestr of Some s \<Rightarrow> lp_encode s | None \<Rightarrow> (case eleint of Some e \<Rightarrow> e | None \<Rightarrow> []))"

lemma block_parts_before:
  "lp_block num es slack = (le_bytes 4 (lp_total es) @ le_bytes 2 num @ lp_body (take i es)) @ [] @
     (lp_body (drop i es) @ [LP_EOF]) @ slack"
proof -
  have "lp_body es = lp_body (take i es) @ lp_body (drop i es)" by (simp flip: lp_body_append)
  then show ?thesis by (simp add: lp_block_def)
qed

lemma block_parts_at:
  assumes "i < length es"
  shows "lp_block num es slack = (le_bytes 4 (lp_total es) @ le_bytes 2 num @ lp_body (take i es)) @
     lp_entry (es ! i) @ (lp_body (drop (Suc i) es) @ [LP_EOF]) @ slack"
proof -
  have "lp_body es = lp_body (take i es) @ lp_entry (es ! i) @ lp_body (drop (Suc i) es)"
    using id_take_nth_drop [OF assms] by (metis lp_body_append lp_body_Cons)
  then show ?thesis by (simp add: lp_block_def)
qed

lemma hd_tail:
  assumes "list_all lp_encoding es"
  shows "(if hd (lp_body es @ [LP_EOF]) = LP_EOF then None else Some k) = (if es = [] then None else Some k)"
  using assms by (cases es) (auto simp: lp_entry_def lp_encoding_def)

lemma encode_choice:
  assumes "elestr \<noteq> None \<or> eleint \<noteq> None"
  obtains eleint' where
    "(case elestr of Some s \<Rightarrow> lpEncodeGetType s
      | None \<Rightarrow> (case eleint of Some e \<Rightarrow> (Some e, length e) | None \<Rightarrow> (None, 0))) =
      (eleint', length (lp_new_enc elestr eleint))"
    "(case eleint' of Some x \<Rightarrow> x | None \<Rightarrow> (case elestr of Some s \<Rightarrow> lpEncodeString s | None \<Rightarrow> [])) =
      lp_new_enc elestr eleint \<and> (eleint' \<noteq> None \<or> elestr \<noteq> None)"
proof (cases elestr)
  case None
  then show thesis using assms that by (auto simp: lp_new_enc_def)
next
  case (Some s)
  obtain el n where g: "lpEncodeGetType s = (el, n)" by fastforce
  then have "n = length (lp_encode s)" using lp_encode_length [of s] by simp
  moreover have "(case el of Some x \<Rightarrow> x | None \<Rightarrow> lpEncodeString s) = lp_encode s"
    using g by (simp add: lp_encode_def)
  ultimately show thesis using g by (intro that [of el]; cases el) (simp_all add: lp_new_enc_def Some)
qed

lemma off_parts: "length (le_bytes 4 x @ le_bytes 2 num @ lp_body (take i es)) = lp_off es i"
  by (simp add: lp_off_def)

lemma lpInsert_before_block:
  assumes us: "\<forall>n. n \<le> us n" and enc: "list_all lp_encoding es" and tot: "lp_total es < 2 ^ 32"
    and num: "lp_num_ok num es" and i: "i \<le> length es" and some: "elestr \<noteq> None \<or> eleint \<noteq> None"
    and e: "lp_encoding (lp_new_enc elestr eleint)"
    and es': "es' = take i es @ lp_new_enc elestr eleint # drop i es"
  shows "if lp_total es' < 2 ^ 32 then
      \<exists>lp'. lpInsert us junk (lp_block num es slack) elestr eleint (lp_off es i) LP_BEFORE newp =
        Some (Some (lp', if newp then Some (lp_off es' i) else None)) \<and> lp_rep lp' es'
    else lpInsert us junk (lp_block num es slack) elestr eleint (lp_off es i) LP_BEFORE newp = Some None"
proof -
  define en where "en = lp_new_enc elestr eleint"
  obtain el where c1: "(case elestr of Some s \<Rightarrow> lpEncodeGetType s
      | None \<Rightarrow> (case eleint of Some e \<Rightarrow> (Some e, length e) | None \<Rightarrow> (None, 0))) = (el, length en)"
    and c2: "(case el of Some x \<Rightarrow> x | None \<Rightarrow> (case elestr of Some s \<Rightarrow> lpEncodeString s | None \<Rightarrow> [])) = en \<and>
        (el \<noteq> None \<or> elestr \<noteq> None)"
    by (rule encode_choice [OF some, folded en_def])
  define bk T where "bk = lpEncodeBacklen (length en)" and "T = lp_body (drop i es) @ [LP_EOF]"
  have tl': "lp_total es' = lp_total es + length en + length bk"
  proof -
    have "length (lp_body es) = length (lp_body (take i es)) + length (lp_body (drop i es))"
      by (simp flip: lp_body_append length_append)
    then show ?thesis by (simp add: lp_total_def es' en_def [symmetric] lp_entry_def bk_def)
  qed
  have old: "lp_total es = lp_off es i + 0 + length T"
  proof -
    have "length (lp_body es) = length (lp_body (take i es)) + length (lp_body (drop i es))"
      by (simp flip: lp_body_append length_append)
    then show ?thesis by (simp add: lp_total_def lp_off_def T_def)
  qed
  have le: "length en < 2 ^ 32" using e by (simp add: lp_encoding_def en_def)
  have bk5: "length bk \<le> 5" using backlen_le(1) [of "length en"] by (simp add: bk_def lpBacklenSize_def)
  have ws: "wsub 64 (lp_total es + length en + length bk) 0 = lp_total es'"
    using tl' tot le bk5 by (subst wsub_exact) auto
  have off': "lp_off es' i = lp_off es i" using i by (simp add: lp_off_def es')
  have unf: "lpInsert us junk (lp_block num es slack) elestr eleint (lp_off es i) LP_BEFORE newp =
    (if lp_total es' > 4294967295 then Some None
     else map_option Some (lpInsert_write us junk (lp_block num es slack) False elestr el (length en) bk LP_BEFORE newp
        (lp_off es i) 0 (lp_total es) (lp_total es')))"
    using some tot by (auto simp: lpInsert_def Let_def c1 ws bk_def [symmetric])
  define num' where "num' = lp_num_step False num"
  have "\<exists>S'. lpInsert_write us junk ((le_bytes 4 (lp_total es) @ le_bytes 2 num @ lp_body (take i es)) @ [] @ T @ slack)
      False elestr el (length en) bk LP_BEFORE newp
      (length (le_bytes 4 (lp_total es) @ le_bytes 2 num @ lp_body (take i es))) (length ([] :: bytes)) (lp_total es) (lp_total es') =
    Some (le_bytes 4 (lp_total es') @ le_bytes 2 num' @ lp_body (take i es) @ (en @ bk) @ T @ S',
      if newp \<and> False then (if hd T = LP_EOF then None else Some (length (le_bytes 4 (lp_total es) @ le_bytes 2 num @ lp_body (take i es))))
      else if newp then Some (length (le_bytes 4 (lp_total es) @ le_bytes 2 num @ lp_body (take i es))) else None)"
    using us num_ok_less [OF num] c2 old tl'
    by (intro lpInsert_write_parts) (simp_all add: lp_off_def num'_def T_def)
  then obtain S' where wr: "lpInsert_write us junk (lp_block num es slack) False elestr el (length en) bk LP_BEFORE newp
        (lp_off es i) 0 (lp_total es) (lp_total es') =
      Some (le_bytes 4 (lp_total es') @ le_bytes 2 num' @ lp_body (take i es) @ (en @ bk) @ T @ S',
        if newp then Some (lp_off es i) else None)"
    unfolding off_parts block_parts_before [of num es slack i] T_def by auto
  have "le_bytes 4 (lp_total es') @ le_bytes 2 num' @ lp_body (take i es) @ (en @ bk) @ T @ S' = lp_block num' es' S'"
    by (simp add: lp_block_def es' en_def [symmetric] lp_entry_def bk_def T_def)
  moreover have "lp_num_ok num' es'" unfolding num'_def using i by (intro num_ok_insert [OF num]) (simp add: es')
  moreover have "list_all lp_encoding es'"
    using enc e by (auto simp: es' list_all_iff dest: in_set_takeD in_set_dropD)
  ultimately show ?thesis using unf wr off' by (auto simp: lp_rep_def)
qed

lemma lpInsert_after_eq:
  assumes "i < length es" and "list_all lp_encoding es" and "lp_total es < 2 ^ 32"
    and "elestr \<noteq> None \<or> eleint \<noteq> None"
  shows "lpInsert us junk (lp_block num es slack) elestr eleint (lp_off es i) LP_AFTER newp =
    lpInsert us junk (lp_block num es slack) elestr eleint (lp_off es (Suc i)) LP_BEFORE newp"
proof -
  have "lp_off es (Suc i) \<le> lp_total es - 1" "6 \<le> lp_off es (Suc i)"
    using lp_off_mono [of "Suc i" "length es" es] lp_off_length [of es] assms(1) by (simp_all add: lp_off_def)
  then have "ASSERT_INTEGRITY (lp_block num es slack) (lp_off es (Suc i)) = Some ()"
    using assms(3) by (simp add: ASSERT_INTEGRITY_def lp_total_def)
  then show ?thesis using at_index(4) [OF assms(1-3), of num slack] assms(4) by (auto simp: lpInsert_def Let_def)
qed

lemma lpInsert_replace_unfold:
  assumes "i < length es" and "list_all lp_encoding es" and "lp_total es < 2 ^ 32"
    and "(case elestr of Some s \<Rightarrow> lpEncodeGetType s
      | None \<Rightarrow> (case eleint of Some e \<Rightarrow> (Some e, length e) | None \<Rightarrow> (None, 0))) = (el, n)"
    and "bk = (if elestr = None \<and> eleint = None then [] else lpEncodeBacklen n)" and "n < 2 ^ 32"
    and "new = lp_total es + n + length bk - length (lp_entry (es ! i))"
    and "where0 = LP_REPLACE \<or> elestr = None \<and> eleint = None"
  shows "lpInsert us junk (lp_block num es slack) elestr eleint (lp_off es i) where0 newp =
    (if new > 4294967295 then Some None
     else map_option Some (lpInsert_write us junk (lp_block num es slack) (elestr = None \<and> eleint = None) elestr el n bk
       LP_REPLACE newp (lp_off es i) (length (lp_entry (es ! i))) (lp_total es) new))"
proof -
  let ?x = "length (lp_entry (es ! i))"
  have x: "lp_off es i + ?x < lp_total es" using lp_off_less [OF assms(1)] by (simp add: lp_total_def)
  have r: "wadd 32 (length (es ! i)) (lpBacklenSize (length (es ! i))) = ?x"
    using x assms(3) by (simp add: length_lp_entry)
  have "length bk \<le> 5" using backlen_le(1) [of n] assms(5) by (auto simp: lpBacklenSize_def)
  then have ws: "wsub 64 (lp_total es + n + length bk) ?x = new"
    using x assms(3,6,7) by (subst wsub_exact) auto
  have "ASSERT_INTEGRITY_LEN (lp_block num es slack) (lp_off es i) ?x = Some ()"
    using x assms(3) by (simp add: ASSERT_INTEGRITY_LEN_def lp_off_def)
  moreover have w: "(if elestr = None \<and> eleint = None then LP_REPLACE else where0) = LP_REPLACE"
    and bk: "(if \<not> (elestr = None \<and> eleint = None) then lpEncodeBacklen n else []) = bk"
    using assms(5,8) by auto
  ultimately show ?thesis
    using at_index(2) [OF assms(1-3), of num slack]
    unfolding lpInsert_def Let_def w assms(4) prod.case bk by (simp add: total_block [OF assms(3)] r ws)
qed

lemma total_at:
  assumes "i < length es"
  shows "lp_total es = lp_off es i + length (lp_entry (es ! i)) + length (lp_body (drop (Suc i) es) @ [LP_EOF])"
proof -
  have "lp_body es = lp_body (take i es) @ lp_entry (es ! i) @ lp_body (drop (Suc i) es)"
    using id_take_nth_drop [OF assms] by (metis lp_body_append lp_body_Cons)
  then show ?thesis by (simp add: lp_total_def lp_off_def)
qed

lemma write_replace_block:
  assumes us: "\<forall>n. n \<le> us n" and enc: "list_all lp_encoding es" and tot: "lp_total es < 2 ^ 32"
    and num: "lp_num_ok num es" and i: "i < length es"
    and N: "N = (if delete then [] else e @ bk)" and n: "n + length bk = length N" "\<not> delete \<Longrightarrow> n = length e"
    and c: "\<not> delete \<Longrightarrow> (case el of Some x \<Rightarrow> x | None \<Rightarrow> (case elestr of Some s \<Rightarrow> lpEncodeString s | None \<Rightarrow> [])) = e \<and>
        (el \<noteq> None \<or> elestr \<noteq> None)"
    and new: "new = lp_total es + n + length bk - length (lp_entry (es ! i))"
  shows "\<exists>S'. lpInsert_write us junk (lp_block num es slack) delete elestr el n bk LP_REPLACE newp (lp_off es i)
      (length (lp_entry (es ! i))) (lp_total es) new =
    Some (le_bytes 4 new @ le_bytes 2 (if delete then lp_num_step delete num else num) @ lp_body (take i es) @ N @
        (lp_body (drop (Suc i) es) @ [LP_EOF]) @ S',
      if newp \<and> delete then (if Suc i = length es then None else Some (lp_off es i))
      else if newp then Some (lp_off es i) else None)"
proof -
  define A T where "A = le_bytes 4 (lp_total es) @ le_bytes 2 num @ lp_body (take i es)"
    and "T = lp_body (drop (Suc i) es) @ [LP_EOF]"
  have lA: "length A = lp_off es i" unfolding A_def by (rule off_parts)
  have nw: "new = length A + length N + length T"
    using new n(1) total_at [OF i] lA by (simp add: T_def)
  have num0: "delete \<Longrightarrow> 0 < num" using num i by (auto simp: lp_num_ok_def)
  have w: "\<exists>S'. lpInsert_write us junk (A @ lp_entry (es ! i) @ T @ slack) delete elestr el n bk LP_REPLACE newp (length A)
      (length (lp_entry (es ! i))) (lp_total es) new =
    Some (le_bytes 4 new @ le_bytes 2 (if delete then lp_num_step delete num else num) @ lp_body (take i es) @ N @ T @ S',
      if newp \<and> delete then (if hd T = LP_EOF then None else Some (length A)) else if newp then Some (length A) else None)"
    using us num_ok_less [OF num] num0 N n c total_at [OF i] lA nw
    by (intro lpInsert_write_parts [where H = "le_bytes 4 (lp_total es)"])
      (simp_all only: length_le_bytes A_def T_def if_True if_False lp_where.simps, auto)
  have hdT: "(if hd T = LP_EOF then None else Some (length A)) = (if Suc i = length es then None else Some (length A))"
  proof -
    have "list_all lp_encoding (drop (Suc i) es)" using enc by (auto simp: list_all_iff dest: in_set_dropD)
    then show ?thesis using hd_tail [of "drop (Suc i) es" "length A"] i unfolding T_def by auto
  qed
  show ?thesis
    using w unfolding hdT unfolding block_parts_at [OF i] A_def [symmetric] T_def [symmetric] lA .
qed

lemma lp_repI: "lp_num_ok num es \<Longrightarrow> list_all lp_encoding es \<Longrightarrow> lp_total es < 2 ^ 32 \<Longrightarrow> lp_rep (lp_block num es slack) es"
  by (auto simp: lp_rep_def)

lemma lpInsert_replace_block:
  assumes us: "\<forall>n. n \<le> us n" and enc: "list_all lp_encoding es" and tot: "lp_total es < 2 ^ 32"
    and num: "lp_num_ok num es" and i: "i < length es" and some: "elestr \<noteq> None \<or> eleint \<noteq> None"
    and e: "lp_encoding (lp_new_enc elestr eleint)"
    and es': "es' = es[i := lp_new_enc elestr eleint]"
  shows "if lp_total es' < 2 ^ 32 then
      \<exists>lp'. lpInsert us junk (lp_block num es slack) elestr eleint (lp_off es i) LP_REPLACE newp =
        Some (Some (lp', if newp then Some (lp_off es' i) else None)) \<and> lp_rep lp' es'
    else lpInsert us junk (lp_block num es slack) elestr eleint (lp_off es i) LP_REPLACE newp = Some None"
proof -
  define en where "en = lp_new_enc elestr eleint"
  obtain el where c1: "(case elestr of Some s \<Rightarrow> lpEncodeGetType s
      | None \<Rightarrow> (case eleint of Some e \<Rightarrow> (Some e, length e) | None \<Rightarrow> (None, 0))) = (el, length en)"
    and c2: "(case el of Some x \<Rightarrow> x | None \<Rightarrow> (case elestr of Some s \<Rightarrow> lpEncodeString s | None \<Rightarrow> [])) = en \<and>
        (el \<noteq> None \<or> elestr \<noteq> None)"
    by (rule encode_choice [OF some, folded en_def])
  define bk where "bk = lpEncodeBacklen (length en)"
  have le: "length en < 2 ^ 32" using e by (simp add: lp_encoding_def en_def)
  have body': "lp_body es' = lp_body (take i es) @ (en @ bk) @ lp_body (drop (Suc i) es)"
    using i by (simp add: es' upd_conv_take_nth_drop en_def [symmetric] lp_entry_def bk_def)
  have new: "lp_total es' = lp_total es + length en + length bk - length (lp_entry (es ! i))"
    using total_at [OF i] body' by (simp add: lp_total_def lp_off_def)
  have off': "lp_off es' i = lp_off es i" by (simp add: lp_off_def es')
  obtain S' where wr: "lpInsert_write us junk (lp_block num es slack) False elestr el (length en) bk LP_REPLACE newp
      (lp_off es i) (length (lp_entry (es ! i))) (lp_total es) (lp_total es') =
      Some (le_bytes 4 (lp_total es') @ le_bytes 2 num @ lp_body (take i es) @ (en @ bk) @
        (lp_body (drop (Suc i) es) @ [LP_EOF]) @ S', if newp then Some (lp_off es i) else None)"
    using write_replace_block [OF us enc tot num i, of "en @ bk" False en bk "length en" elestr el "lp_total es'" junk slack newp]
      c2 new by auto
  have "le_bytes 4 (lp_total es') @ le_bytes 2 num @ lp_body (take i es) @ (en @ bk) @
        (lp_body (drop (Suc i) es) @ [LP_EOF]) @ S' = lp_block num es' S'"
    by (simp add: lp_block_def body')
  moreover have "lp_num_ok num es'" using num by (simp add: lp_num_ok_def es')
  moreover have "list_all lp_encoding es'"
    using enc e by (auto simp: es' list_all_iff dest: set_update_subset_insert [THEN subsetD])
  ultimately show ?thesis
    using lpInsert_replace_unfold [OF i enc tot c1 _ le new, of LP_REPLACE us junk num slack newp] some wr off'
      lp_repI [of num es' S'] by (auto simp: bk_def)
qed

lemma lpDelete_block:
  assumes us: "\<forall>n. n \<le> us n" and enc: "list_all lp_encoding es" and tot: "lp_total es < 2 ^ 32"
    and num: "lp_num_ok num es" and i: "i < length es" and es': "es' = take i es @ drop (Suc i) es"
  shows "\<exists>lp'. lpInsert us junk (lp_block num es slack) None None (lp_off es i) where0 newp =
        Some (Some (lp', if newp then lp_pos es' i else None)) \<and> lp_rep lp' es'"
proof -
  have new: "lp_total es' = lp_total es + 0 + length ([] :: bytes) - length (lp_entry (es ! i))"
    using total_at [OF i] by (simp add: lp_total_def lp_off_def es')
  have off': "lp_off es' i = lp_off es i" using i by (simp add: lp_off_def es')
  obtain S' where wr: "lpInsert_write us junk (lp_block num es slack) True None None 0 [] LP_REPLACE newp
      (lp_off es i) (length (lp_entry (es ! i))) (lp_total es) (lp_total es') =
      Some (le_bytes 4 (lp_total es') @ le_bytes 2 (lp_num_step True num) @ lp_body (take i es) @ [] @
        (lp_body (drop (Suc i) es) @ [LP_EOF]) @ S',
        if newp then (if Suc i = length es then None else Some (lp_off es i)) else None)"
    using write_replace_block [OF us enc tot num i, of "[]" True "[]" "[]" 0 None None "lp_total es'" junk slack newp] new
    by auto
  have "le_bytes 4 (lp_total es') @ le_bytes 2 (lp_num_step True num) @ lp_body (take i es) @ [] @
        (lp_body (drop (Suc i) es) @ [LP_EOF]) @ S' = lp_block (lp_num_step True num) es' S'"
    by (simp add: lp_block_def es')
  moreover have "lp_num_ok (lp_num_step True num) es'" using i by (intro num_ok_delete [OF num]) (simp add: es')
  moreover have "list_all lp_encoding es'"
    using enc by (auto simp: es' list_all_iff dest: in_set_takeD in_set_dropD)
  moreover have "lp_pos es' i = (if Suc i = length es then None else Some (lp_off es i))"
    using i off' by (auto simp: lp_pos_def es')
  moreover have "lp_total es' < 2 ^ 32" using new tot by simp
  ultimately show ?thesis
    using lpInsert_replace_unfold [OF i enc tot _ _ _ new, of None None None where0 us junk num slack newp] wr
    by (auto simp: lp_rep_def)
qed

section \<open>The wrappers\<close>

lemma lp_repE:
  assumes "lp_rep lp es"
  obtains num slack where "lp = lp_block num es slack" "lp_num_ok num es" "list_all lp_encoding es" "lp_total es < 2 ^ 32"
  using assms by (auto simp: lp_rep_def)

lemma bind_Some_map: "Option.bind m (\<lambda>r. Some (f r)) = map_option f m"
  by (cases m) simp_all

lemma lpAppend_insert:
  assumes "lp_rep lp es"
  shows "lpAppend us junk lp s = map_option (map_option fst) (lpInsert us junk lp (Some s) None (lp_off es (length es)) LP_BEFORE False)"
    "lpAppendInteger us junk lp v =
      map_option (map_option fst) (lpInsert us junk lp None (Some (lpEncodeIntegerGetType v)) (lp_off es (length es)) LP_BEFORE False)"
proof -
  obtain num slack where "lp = lp_block num es slack" "lp_total es < 2 ^ 32" using assms by (rule lp_repE)
  then have "lpGetTotalBytes lp = Some (lp_total es)" "0 < lp_total es" by (simp_all add: lp_total_def)
  then show "lpAppend us junk lp s = map_option (map_option fst) (lpInsert us junk lp (Some s) None (lp_off es (length es)) LP_BEFORE False)"
    "lpAppendInteger us junk lp v =
      map_option (map_option fst) (lpInsert us junk lp None (Some (lpEncodeIntegerGetType v)) (lp_off es (length es)) LP_BEFORE False)"
    using lp_off_length [of es] by (simp_all add: lpAppend_def lpAppendInteger_def lpInsertInteger_def bind_Some_map)
qed

lemma lpAppend_rep:
  assumes us: "\<forall>n. n \<le> us n" and rep: "lp_rep lp es" and s: "length s < 2 ^ 32 - 5"
  shows "if lp_total (es @ [lp_encode s]) < 2 ^ 32 then
      \<exists>lp'. lpAppend us junk lp s = Some (Some lp') \<and> lp_rep lp' (es @ [lp_encode s])
    else lpAppend us junk lp s = Some None"
proof -
  obtain num slack where lp: "lp = lp_block num es slack" "lp_num_ok num es" "list_all lp_encoding es" "lp_total es < 2 ^ 32"
    using rep by (rule lp_repE)
  show ?thesis
    using lpInsert_before_block [OF us lp(3,4,2) order_refl, of "Some s" None "es @ [lp_encode s]" junk slack False]
      lpAppend_insert(1) [OF rep, of us junk s] lp_encode_props [OF s]
    by (auto simp: lp_new_enc_def lp(1) split: if_splits)
qed

lemma lpAppendInteger_rep:
  assumes us: "\<forall>n. n \<le> us n" and rep: "lp_rep lp es" and v: "is_int64 v"
  shows "if lp_total (es @ [lpEncodeIntegerGetType v]) < 2 ^ 32 then
      \<exists>lp'. lpAppendInteger us junk lp v = Some (Some lp') \<and> lp_rep lp' (es @ [lpEncodeIntegerGetType v])
    else lpAppendInteger us junk lp v = Some None"
proof -
  obtain num slack where lp: "lp = lp_block num es slack" "lp_num_ok num es" "list_all lp_encoding es" "lp_total es < 2 ^ 32"
    using rep by (rule lp_repE)
  show ?thesis
    using lpInsert_before_block [OF us lp(3,4,2) order_refl, of None "Some (lpEncodeIntegerGetType v)"
        "es @ [lpEncodeIntegerGetType v]" junk slack False]
      lpAppend_insert(2) [OF rep, of us junk v] encodeInteger_props [OF v]
    by (auto simp: lp_new_enc_def lp(1) split: if_splits)
qed

lemma lpPrepend_rep:
  assumes us: "\<forall>n. n \<le> us n" and rep: "lp_rep lp es" and s: "length s < 2 ^ 32 - 5"
  shows "if lp_total (lp_encode s # es) < 2 ^ 32 then
      \<exists>lp'. lpPrepend us junk lp s = Some (Some lp') \<and> lp_rep lp' (lp_encode s # es)
    else lpPrepend us junk lp s = Some None"
proof -
  obtain num slack where lp: "lp = lp_block num es slack" "lp_num_ok num es" "list_all lp_encoding es" "lp_total es < 2 ^ 32"
    using rep by (rule lp_repE)
  show ?thesis
  proof (cases "es = []")
    case True
    then show ?thesis using lpAppend_rep [OF us rep s, of junk] lpFirst_block [OF lp(3,4), of num slack]
      by (auto simp: lpPrepend_def lp(1) lp_pos_def split: if_splits)
  next
    case False
    then have f: "lpFirst lp = Some (Some (lp_off es 0))"
      using lpFirst_block [OF lp(3,4), of num slack] by (simp add: lp_pos_def lp(1))
    show ?thesis
      using lpInsert_before_block [OF us lp(3,4,2), of 0 "Some s" None "lp_encode s # es" junk slack False]
        lp_encode_props [OF s] f
      by (auto simp: lpPrepend_def lp_new_enc_def lp(1) split: if_splits)
  qed
qed

lemma lpNew_rep:
  assumes us: "\<forall>n. n \<le> us n"
  shows "\<exists>lp. lpNew us junk capacity = Some lp \<and> lp_rep lp []"
proof -
  define cap where "cap = (if capacity > 7 then capacity else 7 :: nat)"
  have "7 \<le> us cap" using us [rule_format, of cap] by (auto simp: cap_def split: if_splits)
  then obtain m where m: "us cap = 7 + m" using le_Suc_ex by blast
  define lp where "lp = lp_malloc us junk cap"
  have "length lp = 7 + m" by (simp add: lp_def lp_malloc_def m)
  then obtain x S where S: "drop 6 lp = x # S" by (cases "drop 6 lp") simp_all
  have t: "lpSetTotalBytes lp 7 = Some (le_bytes 4 7 @ drop 4 lp)"
    using \<open>length lp = 7 + m\<close> by (simp add: lpSetTotalBytes_def mem_write_def)
  have n: "lpSetNumElements (le_bytes 4 7 @ drop 4 lp) 0 = Some (le_bytes 4 7 @ le_bytes 2 0 @ x # S)"
    using \<open>length lp = 7 + m\<close> S by (simp add: lpSetNumElements_def mem_write_def)
  have w: "wr (le_bytes 4 7 @ le_bytes 2 0 @ x # S) 6 LP_EOF = Some (lp_block 0 [] S)"
    by (simp add: wr_def list_update_append lp_block_def lp_total_def)
  have "lp_malloc us junk (if capacity > 6 + 1 then capacity else 6 + 1) = lp" by (simp add: lp_def cap_def)
  then have "lpNew us junk capacity = Some (lp_block 0 [] S)"
    unfolding lpNew_def Let_def using t n w by simp
  then show ?thesis using lp_repI [of 0 "[]" S] by (auto simp: lp_num_ok_def lp_total_def)
qed

end
