(* ===== verification/Listpack_Validate.thy ===== *)
theory Listpack_Validate
  imports Listpack_Insert
begin

text \<open>
  \<open>lpFind\<close> on well-formed blocks, and the validator \<open>lpValidateIntegrity\<close> on arbitrary
  bytes: it returns on every input without reading outside of it, accepts every well-formed
  block, and what it accepts can be traversed in both directions without a failing assertion.
\<close>

section \<open>Searching a block\<close>

lemma find_check_block:
  assumes "list_all lp_encoding es" and "lp_total es < 2 ^ 32" and "i \<le> length es"
  shows "lpFind_check (lp_block num es slack) (lp_total es) (lp_off es i) = Some (i = length es)"
proof -
  have "6 \<le> lp_off es i" "lp_off es i < lp_total es"
    using lp_off_mono [OF assms(3), of es] lp_off_length [of es] by (simp_all add: lp_off_def lp_total_def)
  then show ?thesis
    using assertValid_index [OF assms(1,2), of num slack i] at_index(1) [OF _ assms(1,2), of i num slack]
      hd_not_eof [OF _ assms(1), of i] eof_block [of es i num slack] assms(3)
    by (cases "i = length es") (simp_all add: lpFind_check_def)
qed

lemma venc_match:
  assumes "lp_encoding e" and "lp_elem_of e = LInt v"
  shows "lp_venc s = Some v \<longleftrightarrow> lp_string (lp_elem_of e) = s"
proof -
  have "lpStringToInt64 s = None" if "length s \<ge> 32 \<or> length s = 0"
    using that by (auto simp: lpStringToInt64_def)
  then show ?thesis using int_match [OF assms, of s] by (auto simp: lp_venc_def)
qed

text \<open>The indices compared: \<open>i + c\<close> and every \<open>skip + 1\<close> elements after it.\<close>

definition lp_probe :: "nat \<Rightarrow> nat \<Rightarrow> nat \<Rightarrow> nat \<Rightarrow> nat list" where
  "lp_probe n skip i c = filter (\<lambda>k. i + c \<le> k \<and> (k - (i + c)) mod (skip + 1) = 0) [i..<n]"

lemma probe_skip: "i < n \<Longrightarrow> lp_probe n skip i (Suc c) = lp_probe n skip (Suc i) c"
  by (simp add: lp_probe_def upt_conv_Cons)

lemma probe_hit: "i < n \<Longrightarrow> lp_probe n skip i 0 = i # lp_probe n skip (Suc i) skip"
proof -
  assume i: "i < n"
  have "(k - i) mod (skip + 1) = 0 \<longleftrightarrow> Suc i + skip \<le> k \<and> (k - (Suc i + skip)) mod (skip + 1) = 0"
    if "Suc i \<le> k" for k
  proof (cases "Suc i + skip \<le> k")
    case True
    then have "k - i = (k - (Suc i + skip)) + (skip + 1)" by simp
    then show ?thesis using True by (metis mod_add_self2)
  next
    case False
    then show ?thesis using that by simp
  qed
  then have "filter (\<lambda>k. i \<le> k \<and> (k - i) mod (skip + 1) = 0) [Suc i..<n] =
      filter (\<lambda>k. Suc i + skip \<le> k \<and> (k - (Suc i + skip)) mod (skip + 1) = 0) [Suc i..<n]"
    by (intro filter_cong) auto
  then show ?thesis using i by (simp add: lp_probe_def upt_conv_Cons)
qed

lemma probe_end: "n \<le> i \<Longrightarrow> lp_probe n skip i c = []"
  by (simp add: lp_probe_def)

lemma lpFind_loop_block:
  assumes enc: "list_all lp_encoding es" and tot: "lp_total es < 2 ^ 32" and skip: "skip < 2 ^ 31"
  shows "i < length es \<Longrightarrow> c \<le> skip \<Longrightarrow> venc = None \<or> venc = Some (lp_venc s) \<Longrightarrow>
    lpFind_loop (lp_block num es slack) (lp_total es) s (int skip) (lp_off es i) (int c) venc es0 =
    Some (map_option (lp_off es) (find (\<lambda>k. lp_string (lp_elem_of (es ! k)) = s) (lp_probe (length es) skip i c)))"
proof (induction "length es - i" arbitrary: i c venc es0)
  case 0
  then show ?case by simp
next
  case (Suc m)
  note at = at_index [OF Suc.prems(1) enc tot, of num slack]
  note chk = find_check_block [OF enc tot Suc_leI [OF Suc.prems(1)], of num slack]
  have nxt: "lp_off es i + length (lp_entry (es ! i)) = lp_off es (Suc i)"
    using lp_off_Suc [OF Suc.prems(1)] by simp
  have lt: "6 \<le> lp_off es i" "lp_off es (Suc i) < lp_total es"
    using lp_off_less [OF Suc.prems(1)] nxt by (simp_all add: lp_off_def lp_total_def)
  have e: "lp_encoding (es ! i)" using enc Suc.prems(1) by (simp add: list_all_length)
  show ?case
  proof (cases c)
    case (Suc c')
    have sc: "to_signed 32 (of_signed 32 (int c - 1)) = int c'"
      using Suc Suc.prems(2) skip by (subst to_of_signed) auto
    show ?thesis
    proof (cases "Suc i = length es")
      case True
      then show ?thesis using at(4) chk Suc probe_skip [OF Suc.prems(1), of skip c'] probe_end [of "length es" "Suc i"]
        by (subst lpFind_loop.simps) simp
    next
      case False
      have "lpFind_loop (lp_block num es slack) (lp_total es) s (int skip) (lp_off es (Suc i)) (int c') venc es0 =
        Some (map_option (lp_off es) (find (\<lambda>k. lp_string (lp_elem_of (es ! k)) = s) (lp_probe (length es) skip (Suc i) c')))"
        using Suc.hyps Suc.prems Suc False by (intro Suc.hyps(1)) auto
      then show ?thesis using at(4) chk Suc sc False probe_skip [OF Suc.prems(1), of skip c']
        by (subst lpFind_loop.simps) simp
    qed
  next
    case 0
    have step: "lpFind_loop (lp_block num es slack) (lp_total es) s (int skip) (lp_off es i) 0 venc es0 =
        (if lp_string (lp_elem_of (es ! i)) = s then Some (Some (lp_off es i))
         else if Suc i = length es then Some None
         else lpFind_loop (lp_block num es slack) (lp_total es) s (int skip) (lp_off es (Suc i)) (int skip) venc'
           (length (lp_entry (es ! i))))"
      if "venc' = (case lp_elem_of (es ! i) of LInt _ \<Rightarrow> Some (lp_venc s) | LStr _ \<Rightarrow> venc)" for venc'
    proof (cases "lp_elem_of (es ! i)")
      case (LInt v)
      have "(case venc of Some v \<Rightarrow> v | None \<Rightarrow> lp_venc s) = lp_venc s" using Suc.prems(3) by auto
      then show ?thesis
        using at(6) chk nxt LInt that venc_match [OF e LInt, of s]
        by (subst lpFind_loop.simps) (simp add: lp_ptr_def)
    next
      case (LStr t)
      let ?q = "lp_off es i + (length (es ! i) - length t)"
      have hit: "(if length s = length t then map_option (\<lambda>bs. bs = s) (mem_read (lp_block num es slack) ?q (length t)) else Some False) =
          Some (t = s)"
        using read_string_block [OF Suc.prems(1) enc LStr, of num slack] by auto
      have "c_assert (lp_off es i \<ge> 6 \<and> lp_off es i + length (lp_entry (es ! i)) < lp_total es) = Some ()"
        using lt nxt by simp
      then show ?thesis
        using at(6) chk nxt LStr that by (subst lpFind_loop.simps) (simp add: lp_ptr_def hit del: c_assert_True)
    qed
    define venc' where "venc' = (case lp_elem_of (es ! i) of LInt _ \<Rightarrow> Some (lp_venc s) | LStr _ \<Rightarrow> venc)"
    have "venc' = None \<or> venc' = Some (lp_venc s)" using Suc.prems(3) by (auto simp: venc'_def split: lp_elem.split)
    then have "Suc i \<noteq> length es \<Longrightarrow>
        lpFind_loop (lp_block num es slack) (lp_total es) s (int skip) (lp_off es (Suc i)) (int skip) venc' (length (lp_entry (es ! i))) =
        Some (map_option (lp_off es) (find (\<lambda>k. lp_string (lp_elem_of (es ! k)) = s) (lp_probe (length es) skip (Suc i) skip)))"
      using Suc.hyps Suc.prems by (intro Suc.hyps(1)) auto
    then show ?thesis
      using step [OF venc'_def] 0 probe_hit [OF Suc.prems(1), of skip] probe_end [of "length es" "Suc i"] by auto
  qed
qed

lemma lpFind_block:
  assumes "list_all lp_encoding es" and "lp_total es < 2 ^ 32" and "skip < 2 ^ 31" and "i < length es"
  shows "lpFind (lp_block num es slack) (lp_off es i) s skip =
    Some (map_option (lp_off es) (find (\<lambda>k. lp_string (lp_elem_of (es ! k)) = s)
      (filter (\<lambda>k. (k - i) mod (skip + 1) = 0) [i..<length es])))"
proof -
  have "lp_probe (length es) skip i 0 = filter (\<lambda>k. (k - i) mod (skip + 1) = 0) [i..<length es]"
    unfolding lp_probe_def by (intro filter_cong) auto
  moreover have "to_signed 32 skip = int skip" using assms(3) by (simp add: to_signed_def)
  ultimately show ?thesis
    using lpFind_loop_block [OF assms(1-3,4), of 0 None s num slack 123456789] assms(2) by (simp add: lpFind_def)
qed

section \<open>The validator on arbitrary bytes\<close>

lemma decode_defined: "p < length lp \<Longrightarrow> 28 \<le> shift + 7 * p \<Longrightarrow>
    \<exists>n. lpDecodeBacklen_loop lp p val shift = Some n"
proof (induction lp p val shift rule: lpDecodeBacklen_loop.induct)
  case (1 lp p val shift)
  then show ?case
    by (subst lpDecodeBacklen_loop.simps) (auto simp: rd_def Let_def)
qed

lemma decode_bound: "lpDecodeBacklen_loop lp p val shift = Some n \<Longrightarrow> val < 2 ^ shift \<Longrightarrow> shift \<le> 28 \<Longrightarrow>
    n < 2 ^ 35 \<or> n = 18446744073709551615"
proof (induction lp p val shift rule: lpDecodeBacklen_loop.induct)
  case (1 lp p val shift)
  obtain b where b: "rd lp p = Some b" using "1.prems"(1) by (cases "rd lp p") (simp_all add: lpDecodeBacklen_loop.simps [of lp])
  define v where "v = val + unat (b AND 127) * 2 ^ shift"
  have "unat (b AND 127) * 2 ^ shift \<le> 127 * 2 ^ shift" by (intro mult_le_mono1) (simp add: lp_class)
  then have "v < 128 * 2 ^ shift" using "1.prems"(2) unfolding v_def by linarith
  then have v: "v < 2 ^ (shift + 7)" by (simp add: power_add mult.commute)
  have loop: "lpDecodeBacklen_loop lp p val shift =
      (if b AND 128 = 0 then Some v else if shift + 7 > 28 then Some 18446744073709551615
       else if p = 0 then None else lpDecodeBacklen_loop lp (p - 1) v (shift + 7))"
    by (subst lpDecodeBacklen_loop.simps) (simp add: b v_def Let_def)
  show ?case
  proof (cases "b AND 128 = 0 \<or> shift + 7 > 28")
    case True
    have "(2::nat) ^ (shift + 7) \<le> 2 ^ 35" using "1.prems"(3) by (intro power_increasing) auto
    then show ?thesis using True loop "1.prems"(1) v by (auto split: if_splits)
  next
    case False
    then show ?thesis using "1.IH" [OF b v_def] loop "1.prems"(1) v by (auto split: if_splits)
  qed
qed

lemma size_defined:
  assumes "p < length lp" and "lpCurrentEncodedSizeBytes lp p = Some k" and "k \<noteq> 0" and "p + k < length lp"
  shows "\<exists>n. lpCurrentEncodedSizeUnsafe lp p = Some n"
  using assms unfolding lpCurrentEncodedSizeUnsafe_def lpCurrentEncodedSizeBytes_def
  by (auto simp: rd_def mem_read_def split: if_splits)

text \<open>One step of the validator, inside the block.\<close>

lemma validateNext_total:
  assumes "lpbytes \<le> length lp"
  shows "\<exists>ok q. lpValidateNext lp (Some p) lpbytes = Some (ok, q) \<and>
    (ok \<longrightarrow> q \<noteq> None \<longrightarrow> p < the q \<and> the q < lpbytes)"
proof (cases "lp_out_of_range lpbytes p")
  case True
  then show ?thesis by (auto simp: lpValidateNext_def)
next
  case False
  then have p: "6 \<le> p" "p < lpbytes" by (auto simp: lp_out_of_range_def)
  then have rd: "rd lp p = Some (lp ! p)" using assms by (simp add: rd_def)
  obtain k where k: "lpCurrentEncodedSizeBytes lp p = Some k" using rd by (simp add: lpCurrentEncodedSizeBytes_def)
  show ?thesis
  proof (cases "lp ! p = LP_EOF \<or> k = 0 \<or> lp_out_of_range lpbytes (p + k)")
    case True
    then show ?thesis using False rd k by (auto simp: lpValidateNext_def)
  next
    case go: False
    then have "p + k < length lp" using assms by (auto simp: lp_out_of_range_def)
    then obtain n where n: "lpCurrentEncodedSizeUnsafe lp p = Some n"
      using size_defined [of p lp k] k go p assms by auto
    define q where "q = p + (n + lpBacklenSize n)"
    have pq: "p < q" using backlen_le(2) [of n] by (simp add: q_def)
    show ?thesis
    proof (cases "lp_out_of_range lpbytes q")
      case True
      then show ?thesis using False rd k go n by (auto simp: lpValidateNext_def Let_def q_def)
    next
      case ir: False
      then have "q - 1 < length lp" "28 \<le> 0 + 7 * (q - 1)" "q < lpbytes"
        using assms pq p by (auto simp: lp_out_of_range_def)
      then obtain m where "lpDecodeBacklen lp (q - 1) = Some m"
        using decode_defined [of "q - 1" lp 0 0] by (auto simp: lpDecodeBacklen_def)
      then show ?thesis using False rd k go n ir pq \<open>q < lpbytes\<close>
        by (auto simp: lpValidateNext_def Let_def q_def)
    qed
  qed
qed

lemma validate_loop_total:
  assumes "lpbytes \<le> length lp"
  shows "p < lpbytes \<Longrightarrow> \<exists>r. lpValidate_loop lp lpbytes numele cb (Some p) count = Some r"
proof (induction "lpbytes - p" arbitrary: p count rule: less_induct)
  case less
  obtain ok q where v: "lpValidateNext lp (Some p) lpbytes = Some (ok, q)"
      "ok \<longrightarrow> q \<noteq> None \<longrightarrow> p < the q \<and> the q < lpbytes"
    using validateNext_total [OF assms] by blast
  have rd: "rd lp p = Some (lp ! p)" using less.prems assms by (simp add: rd_def)
  show ?case
  proof (cases q)
    case None
    then show ?thesis using v rd by (subst lpValidate_loop.simps) (auto simp: lpValidate_loop.simps [of _ _ _ _ None])
  next
    case (Some q')
    have "ok \<Longrightarrow> \<exists>r. lpValidate_loop lp lpbytes numele cb (Some q') (wadd 32 count 1) = Some r"
      using v Some less.prems by (intro less.hyps) auto
    then show ?thesis using v rd Some by (subst lpValidate_loop.simps) auto
  qed
qed

lemma validateIntegrity_total: "\<exists>ok. lpValidateIntegrity lp (length lp) deep cb = Some ok"
proof (cases "7 \<le> length lp")
  case True
  obtain total where t: "lpGetTotalBytes lp = Some total" using True by (simp add: lpGetTotalBytes_def mem_read_def)
  obtain num where n: "lpGetNumElements lp = Some num" using True by (simp add: lpGetNumElements_def mem_read_def)
  obtain r where "lpValidate_loop lp (length lp) num cb (Some 6) 0 = Some r"
    using validate_loop_total [OF order_refl, of 6 lp num cb 0] True by auto
  then show ?thesis using True t n by (cases r) (auto simp: lpValidateIntegrity_def rd_def)
next
  case False
  then show ?thesis by (auto simp: lpValidateIntegrity_def)
qed

text \<open>
  The positions the validator walks through: from the first entry to the terminator at the
  last byte, each step accepted by \<open>lpValidateNext\<close>.
\<close>

definition lp_chain :: "bytes \<Rightarrow> nat list \<Rightarrow> bool" where
  "lp_chain lp ps \<longleftrightarrow> ps \<noteq> [] \<and> last ps = length lp - 1 \<and> lp ! last ps = LP_EOF \<and>
     (\<forall>i. Suc i < length ps \<longrightarrow> lp ! (ps ! i) \<noteq> LP_EOF \<and>
        lpValidateNext lp (Some (ps ! i)) (length lp) = Some (True, Some (ps ! Suc i)))"

lemma chain_Cons:
  assumes "lp_chain lp ps" and "lp ! p \<noteq> LP_EOF"
    and "lpValidateNext lp (Some p) (length lp) = Some (True, Some (hd ps))"
  shows "lp_chain lp (p # ps)"
proof -
  have "ps \<noteq> []" using assms(1) by (simp add: lp_chain_def)
  then show ?thesis
    using assms by (auto simp: lp_chain_def nth_Cons hd_conv_nth split: nat.split)
qed

lemma validateNext_None:
  assumes "lpValidateNext lp (Some p) n = Some (True, None)" and "rd lp p = Some b"
  shows "b = LP_EOF"
  using assms by (auto simp: lpValidateNext_def Let_def bind_eq_Some_conv split: if_splits)

lemma validate_loop_chain:
  "lpValidate_loop lp (length lp) numele cb (Some p) count = Some (True, Some (length lp - 1), count') \<Longrightarrow>
   p < length lp \<Longrightarrow> count + (length lp - p) < 2 ^ 32 \<Longrightarrow>
   \<exists>ps. lp_chain lp ps \<and> hd ps = p \<and> count' = count + (length ps - 1)"
proof (induction "length lp - p" arbitrary: p count rule: less_induct)
  case less
  have rd: "rd lp p = Some (lp ! p)" using less.prems(2) by (simp add: rd_def)
  obtain ok q where v: "lpValidateNext lp (Some p) (length lp) = Some (ok, q)"
      "ok \<longrightarrow> q \<noteq> None \<longrightarrow> p < the q \<and> the q < length lp"
    using validateNext_total [OF order_refl] by blast
  note step = less.prems(1) [unfolded lpValidate_loop.simps [of _ _ _ _ "Some p"] option.case rd v bind.bind_lunit prod.case]
  show ?case
  proof (cases "lp ! p = LP_EOF")
    case True
    then show ?thesis using step by (intro exI [of _ "[p]"]) (auto simp: lp_chain_def)
  next
    case False
    then have ok: "ok" and rec: "lpValidate_loop lp (length lp) numele cb q (wadd 32 count 1) = Some (True, Some (length lp - 1), count')"
      using step by (auto split: if_splits)
    then obtain q' where q: "q = Some q'" using validateNext_None [of lp p "length lp"] v rd False by (cases q) auto
    have w: "wadd 32 count 1 = count + 1" using less.prems(2,3) by (intro wadd_exact) auto
    have pq: "p < q'" "q' < length lp" using v ok q by auto
    have "\<exists>ps. lp_chain lp ps \<and> hd ps = q' \<and> count' = count + 1 + (length ps - 1)"
      using rec pq less.prems(3) unfolding q w by (intro less.hyps) auto
    then obtain ps where ps: "lp_chain lp ps" "hd ps = q'" "count' = count + 1 + (length ps - 1)" by blast
    then have "lp_chain lp (p # ps)" using chain_Cons [of lp ps p] v ok q False by simp
    moreover have "0 < length ps" using ps(1) by (simp add: lp_chain_def)
    ultimately show ?thesis using ps(3) by (intro exI [of _ "p # ps"]) auto
  qed
qed

text \<open>What one accepted step says about the entry.\<close>

lemma validateNext_facts:
  assumes "lpValidateNext lp (Some p) (length lp) = Some (True, Some q)"
  obtains n where "lpCurrentEncodedSizeUnsafe lp p = Some n" "q = p + (n + lpBacklenSize n)" "6 \<le> p" "q < length lp"
    "lpDecodeBacklen lp (q - 1) = Some n"
proof -
  from assms obtain n m where n: "lpCurrentEncodedSizeUnsafe lp p = Some n" "q = p + (n + lpBacklenSize n)" "6 \<le> p" "q < length lp"
    "lpDecodeBacklen lp (q - 1) = Some m" "wadd 64 m (lpBacklenSize n) = n + lpBacklenSize n"
    by (auto simp: lpValidateNext_def Let_def bind_eq_Some_conv lp_out_of_range_def split: if_splits)
  have b: "1 \<le> lpBacklenSize n" "lpBacklenSize n \<le> 5" using backlen_le by simp_all
  have "m < 2 ^ 35 \<or> m = 18446744073709551615"
    using decode_bound [of lp "q - 1" 0 0 m] n(5) by (simp add: lpDecodeBacklen_def)
  then have "m = n"
  proof
    assume "m < 2 ^ 35"
    then have "wadd 64 m (lpBacklenSize n) = m + lpBacklenSize n" using b by (intro wadd_exact) simp
    then show ?thesis using n(6) by simp
  next
    assume "m = 18446744073709551615"
    then have "wadd 64 m (lpBacklenSize n) = lpBacklenSize n - 1" using b by (simp add: wadd_def mod_if)
    then show ?thesis using n(6) b by simp
  qed
  then show thesis using that n by blast
qed

lemma chain_bounds:
  assumes "lp_chain lp ps" and "Suc i < length ps"
  shows "ps ! i < ps ! Suc i" "ps ! Suc i < length lp" "6 \<le> ps ! i"
proof -
  have "lpValidateNext lp (Some (ps ! i)) (length lp) = Some (True, Some (ps ! Suc i))"
    using assms by (simp add: lp_chain_def)
  then obtain n where "ps ! Suc i = ps ! i + (n + lpBacklenSize n)" "6 \<le> ps ! i" "ps ! Suc i < length lp"
    by (rule validateNext_facts)
  then show "ps ! i < ps ! Suc i" "ps ! Suc i < length lp" "6 \<le> ps ! i" using backlen_le(2) [of n] by simp_all
qed

lemma chain_valid:
  assumes "lp_chain lp ps" and "i < length ps" and "6 \<le> hd ps" and "hd ps < length lp"
  shows "lpAssertValidEntry lp (length lp) (ps ! i) = Some ()" "rd lp (ps ! i) = Some (lp ! (ps ! i))"
    "lp ! (ps ! i) = LP_EOF \<longleftrightarrow> Suc i = length ps"
proof -
  have in_range: "6 \<le> ps ! i \<and> ps ! i < length lp"
  proof (cases i)
    case 0
    then show ?thesis using assms by (simp add: hd_conv_nth lp_chain_def)
  next
    case (Suc j)
    then show ?thesis using chain_bounds [OF assms(1), of j] assms(2) by simp
  qed
  then show "rd lp (ps ! i) = Some (lp ! (ps ! i))" by (simp add: rd_def)
  have "Suc i = length ps \<Longrightarrow> ps ! i = last ps" by (metis assms(1) diff_Suc_1 last_conv_nth lp_chain_def)
  then show eof: "lp ! (ps ! i) = LP_EOF \<longleftrightarrow> Suc i = length ps"
    using assms(1,2) unfolding lp_chain_def by (metis Suc_lessI)
  show "lpAssertValidEntry lp (length lp) (ps ! i) = Some ()"
  proof (cases "Suc i < length ps")
    case True
    then show ?thesis using assms(1) by (auto simp: lp_chain_def lpAssertValidEntry_def)
  next
    case False
    then have "lp ! (ps ! i) = LP_EOF" using eof assms(2) by simp
    then show ?thesis using in_range
      by (simp add: lpAssertValidEntry_def lpValidateNext_def lp_out_of_range_def rd_def)
  qed
qed

lemma chain_traversal:
  assumes ch: "lp_chain lp ps" and hd: "hd ps = 6" and tot: "lpBytes lp = Some (length lp)" and len: "7 \<le> length lp"
  shows "lpFirst lp = Some (if length ps = 1 then None else Some (ps ! 0))"
    "Suc i < length ps \<Longrightarrow> lpNext lp (ps ! i) = Some (if Suc (Suc i) = length ps then None else Some (ps ! Suc i))"
    "i < length ps \<Longrightarrow> lpPrev lp (ps ! i) = Some (if i = 0 then None else Some (ps ! (i - 1)))"
proof -
  have ne: "ps \<noteq> []" using ch by (simp add: lp_chain_def)
  have p0: "ps ! 0 = 6" using hd ne by (simp add: hd_conv_nth)
  note val = chain_valid [OF ch, unfolded hd]
  have "0 < length ps" using ne by simp
  from val [OF this] show "lpFirst lp = Some (if length ps = 1 then None else Some (ps ! 0))"
    using tot len p0 by (auto simp: lpFirst_def)
  show "lpNext lp (ps ! i) = Some (if Suc (Suc i) = length ps then None else Some (ps ! Suc i))" if "Suc i < length ps"
  proof -
    have "lpValidateNext lp (Some (ps ! i)) (length lp) = Some (True, Some (ps ! Suc i))"
      using ch that by (simp add: lp_chain_def)
    then have "lpSkip lp (ps ! i) = Some (ps ! Suc i)"
      by (elim validateNext_facts) (simp add: lpSkip_def)
    then show ?thesis using val [OF that] tot len by (auto simp: lpNext_def)
  qed
  show "lpPrev lp (ps ! i) = Some (if i = 0 then None else Some (ps ! (i - 1)))" if "i < length ps"
  proof (cases i)
    case 0
    then show ?thesis using p0 by (simp add: lpPrev_def)
  next
    case (Suc j)
    then have "lpValidateNext lp (Some (ps ! j)) (length lp) = Some (True, Some (ps ! i))"
      using ch that by (simp add: lp_chain_def)
    then obtain n where n: "ps ! i = ps ! j + (n + lpBacklenSize n)" "6 \<le> ps ! j" "ps ! i < length lp"
        "lpDecodeBacklen lp (ps ! i - 1) = Some n" by (rule validateNext_facts)
    have "\<exists>t. lpGetTotalBytes lp = Some t \<and> t < 2 ^ 32"
    proof -
      have "le_nat (take 4 lp) < 256 ^ 4" using le_nat_less [of "take 4 lp"] len by simp
      then show ?thesis using len by (simp add: lpGetTotalBytes_def mem_read_def)
    qed
    then have "length lp < 2 ^ 32" using tot by (simp add: lpBytes_def)
    then have "wadd 64 n (lpBacklenSize n) = n + lpBacklenSize n" using n by (intro wadd_exact) simp
    then show ?thesis using n Suc that val [of j] tot len backlen_le(2) [of n]
      by (auto simp: lpPrev_def Let_def)
  qed
qed

lemma validated_chain:
  assumes "lpValidateIntegrity lp (length lp) True cb = Some True"
  obtains ps num where "lp_chain lp ps" "hd ps = 6" "lpBytes lp = Some (length lp)" "7 \<le> length lp"
    "lpGetNumElements lp = Some num" "num = 65535 \<or> num = length ps - 1"
proof -
  from assms have l7: "7 \<le> length lp" by (auto simp: lpValidateIntegrity_def split: if_splits)
  obtain num where num: "lpGetNumElements lp = Some num" using l7 by (simp add: lpGetNumElements_def mem_read_def)
  have tot: "lpGetTotalBytes lp = Some (length lp)"
    using assms l7 by (auto simp: lpValidateIntegrity_def bind_eq_Some_conv split: if_splits)
  then have "length lp < 2 ^ 32"
    using le_nat_less [of "take 4 lp"] l7 by (auto simp: lpGetTotalBytes_def mem_read_def)
  obtain count where loop: "lpValidate_loop lp (length lp) num cb (Some 6) 0 = Some (True, Some (length lp - 1), count)"
      "num = 65535 \<or> num = count"
    using assms l7 num tot by (auto simp: lpValidateIntegrity_def bind_eq_Some_conv split: if_splits)
  have "0 + (length lp - 6) < 2 ^ 32" "6 < length lp" using l7 \<open>length lp < 2 ^ 32\<close> by linarith+
  then obtain ps where "lp_chain lp ps" "hd ps = 6" "count = 0 + (length ps - 1)"
    using validate_loop_chain [OF loop(1)] by blast
  then show thesis using that [of ps num] tot l7 num loop(2) by (simp add: lpBytes_def)
qed

section \<open>The validator on well-formed blocks\<close>

definition lp_cb_ok :: "bytes \<Rightarrow> bytes list \<Rightarrow> nat \<Rightarrow> (bytes \<Rightarrow> nat \<Rightarrow> nat \<Rightarrow> bool) option \<Rightarrow> nat \<Rightarrow> bool" where
  "lp_cb_ok lp es num cb i = (case cb of None \<Rightarrow> True | Some f \<Rightarrow> f lp (lp_off es i) num)"

lemma validate_loop_block:
  assumes "list_all lp_encoding es" and "lp_total es < 2 ^ 32"
  shows "i \<le> length es \<Longrightarrow> \<exists>q c. lpValidate_loop (lp_block num es slack) (lp_total es) num cb (Some (lp_off es i)) i =
    Some (\<forall>k\<in>{i..<length es}. lp_cb_ok (lp_block num es slack) es num cb k, q, c) \<and>
    ((\<forall>k\<in>{i..<length es}. lp_cb_ok (lp_block num es slack) es num cb k) \<longrightarrow> q = Some (lp_total es - 1) \<and> c = length es)"
proof (induction "length es - i" arbitrary: i)
  case 0
  then have "i = length es" by simp
  then show ?case using eof_block [of es i num slack] lp_off_length [of es]
    by (subst lpValidate_loop.simps) simp
next
  case (Suc m)
  then have i: "i < length es" by simp
  have set: "{i..<length es} = insert i {Suc i..<length es}" using i by auto
  have "length es < 2 ^ 32" using length_le_total [OF assms(1)] assms(2) by simp
  then have w: "wadd 32 i 1 = Suc i" using i by (subst wadd_exact) auto
  note step = at_index(1) [OF i assms, of num slack] hd_not_eof [OF i assms(1)]
    validateNext_entry [OF i assms, of num slack]
  show ?case
  proof (cases "lp_cb_ok (lp_block num es slack) es num cb i")
    case True
    then have "\<not> (case cb of Some f \<Rightarrow> \<not> f (lp_block num es slack) (lp_off es i) num | None \<Rightarrow> False)"
      by (simp add: lp_cb_ok_def split: option.splits)
    then show ?thesis using Suc.hyps(1) [of "Suc i"] Suc.hyps(2) i step True w unfolding set
      by (subst lpValidate_loop.simps) simp
  next
    case False
    then have "(case cb of Some f \<Rightarrow> \<not> f (lp_block num es slack) (lp_off es i) num | None \<Rightarrow> False)"
      by (simp add: lp_cb_ok_def split: option.splits)
    then show ?thesis using step False unfolding set by (subst lpValidate_loop.simps) simp
  qed
qed

lemma validateIntegrity_block:
  assumes "list_all lp_encoding es" and "lp_total es < 2 ^ 32" and "lp_num_ok num es"
  shows "lpValidateIntegrity (lp_block num es []) (lp_total es) True cb =
    Some (\<forall>k<length es. lp_cb_ok (lp_block num es []) es num cb k)"
proof -
  have e: "rd (lp_block num es []) (lp_total es - 1) = Some LP_EOF"
    using eof_block [of es "length es" num "[]"] lp_off_length [of es] by simp
  obtain q c where "lpValidate_loop (lp_block num es []) (lp_total es) num cb (Some 6) 0 =
    Some (\<forall>k\<in>{0..<length es}. lp_cb_ok (lp_block num es []) es num cb k, q, c)"
    "(\<forall>k\<in>{0..<length es}. lp_cb_ok (lp_block num es []) es num cb k) \<longrightarrow> q = Some (lp_total es - 1) \<and> c = length es"
    using validate_loop_block [OF assms(1,2), of 0 num "[]" cb] by auto
  moreover have "\<not> lp_total es < 7" by (simp add: lp_total_def)
  moreover have "num = 65535 \<or> num = length es" "num < 65536" using assms(3) by (auto simp: lp_num_ok_def)
  moreover have "(\<forall>k\<in>{0..<length es}. P k) = (\<forall>k<length es. P k)" for P by auto
  ultimately show ?thesis using e assms(2) by (auto simp: lpValidateIntegrity_def)
qed

end
