(* ===== verification/Listpack_Spec.thy ===== *)
theory Listpack_Spec
  imports Listpack_Validate Redis_Interfaces
begin

text \<open>
  What \<open>src/listpack.c\<close> promises: the properties of the component, over the lemmas of the
  theories it is built from.
\<close>

section \<open>Listpacks as sequences of strings\<close>

text \<open>The strings a list of encoded elements stands for.\<close>

definition lp_strings :: "bytes list \<Rightarrow> bytes list" where
  "lp_strings es = map (\<lambda>e. lp_string (lp_elem_of e)) es"

definition lp_holds :: "bytes \<Rightarrow> bytes list \<Rightarrow> bool" where
  "lp_holds lp ss \<longleftrightarrow> (\<exists>es. lp_rep lp es \<and> ss = lp_strings es)"

text \<open>
  The string at an index as the server reads it: \<open>lpSeek\<close>, then \<open>lpGet\<close> with a buffer
  for integers.
\<close>

definition lp_at :: "bytes \<Rightarrow> bytes \<Rightarrow> int \<Rightarrow> bytes option option" where
  "lp_at intbuf lp index = do {
     p \<leftarrow> lpSeek lp index;
     case p of
       None \<Rightarrow> Some None
     | Some p \<Rightarrow> do {
         v \<leftarrow> lpGet lp p (Some intbuf);
         case v of
           LpStr q n \<Rightarrow> do { s \<leftarrow> mem_read lp q n; Some (Some s) }
         | LpBuf buf n \<Rightarrow> Some (Some (take n buf))
         | LpInt _ \<Rightarrow> None
       }
   }"

lemma return_intbuf:
  assumes "is_int64 v" and "length buf = 21"
  shows "\<exists>b. lp_return_int (Some buf) v = Some (LpBuf b (length (ll_repr v))) \<and> take (length (ll_repr v)) b = ll_repr v"
proof -
  have "length (ll_repr v) \<le> 20" using string2ll_iff [of "ll_repr v" v] assms(1)
    by (auto simp: string2ll_def split: if_splits)
  then show ?thesis
    using ll2string_spec [of 0 21 buf v] assms length_ll_repr [of v]
    by (simp add: lp_return_int_def)
qed

lemma get_intbuf:
  assumes "lpGetWithSize lp p None = Some (v, n)"
  shows "case v of
      LpStr q k \<Rightarrow> lpGetWithSize lp p (Some buf) = Some (v, n)
    | LpInt i \<Rightarrow> lpGetWithSize lp p (Some buf) = map_option (\<lambda>v'. (v', n)) (lp_return_int (Some buf) i)
    | LpBuf _ _ \<Rightarrow> True"
proof -
  obtain b where b: "rd lp p = Some b" using assms by (cases "rd lp p") (auto simp: lpGetWithSize_def)
  note get = assms [unfolded lpGetWithSize_def Let_def lp_return_int_None b bind.bind_lunit]
  have m: "Option.bind x (\<lambda>v. Some (v, k)) = map_option (\<lambda>v'. (v', k)) x" for x :: "lp_value option" and k
    by (cases x) simp_all
  show ?thesis
    unfolding lpGetWithSize_def Let_def b bind.bind_lunit m
    using get by (auto simp: bind_eq_Some_conv split: if_split_asm)
qed

lemma lp_at_block:
  assumes "lp_rep lp es" and "length buf = 21"
  shows "lp_at buf lp index = Some (map_option (\<lambda>j. lp_strings es ! j) (lp_index es index))"
proof -
  obtain num slack where lp: "lp = lp_block num es slack" "lp_num_ok num es" "list_all lp_encoding es" "lp_total es < 2 ^ 32"
    using assms(1) by (rule lp_repE)
  have seek: "lpSeek lp index = Some (map_option (lp_off es) (lp_index es index))"
    unfolding lp(1) by (rule lpSeek_block [OF lp(3,4,2)])
  show ?thesis
  proof (cases "lp_index es index")
    case None
    then show ?thesis using seek by (simp add: lp_at_def)
  next
    case (Some j)
    then have j: "j < length es" by (auto simp: lp_index_def Let_def split: if_splits)
    then have enc: "lp_encoding (es ! j)" using lp(3) by (simp add: list_all_length)
    note g = get_intbuf [OF at_index(6) [OF j lp(3,4), of num slack], of buf]
    show ?thesis
    proof (cases "lp_elem_of (es ! j)")
      case (LInt i)
      then obtain b where "lp_return_int (Some buf) i = Some (LpBuf b (length (ll_repr i)))" "take (length (ll_repr i)) b = ll_repr i"
        using return_intbuf [OF elem_int64 [OF enc LInt] assms(2)] by blast
      then show ?thesis using g LInt seek Some j
        by (simp add: lp_at_def lp_ptr_def lpGet_def lp(1) lp_strings_def)
    next
      case (LStr t)
      then show ?thesis using g seek Some j read_string_block [OF j lp(3) LStr, of num slack]
        by (simp add: lp_at_def lp_ptr_def lpGet_def lp(1) lp_strings_def)
    qed
  qed
qed

lemma encode_cost:
  assumes "length s < 2 ^ 32 - 5"
  shows "length (lp_entry (lp_encode s)) \<le> length s + 10"
proof (cases "string2ll s")
  case None
  then have "lp_encode s = lpEncodeString s" by (simp add: lp_encode_def lpEncodeGetType_def lpStringToInt64_eq)
  moreover have "length (lpEncodeString s) \<le> length s + 5" by (simp add: length_lpEncodeString)
  ultimately show ?thesis using backlen_le(1) [of "length (lpEncodeString s)"] by (simp add: length_lp_entry)
next
  case (Some v)
  then have e: "lp_encode s = lpEncodeIntegerGetType v"
    by (simp add: lp_encode_def lpEncodeGetType_def lpStringToInt64_eq Let_def)
  have "length (lpEncodeIntegerGetType v) \<le> 9" by (simp add: encodeInteger_eq)
  then show ?thesis using e by (simp add: length_lp_entry)
qed

definition lp_used :: "bytes \<Rightarrow> nat" where
  "lp_used lp = (case lpBytes lp of Some n \<Rightarrow> n | None \<Rightarrow> 0)"

lemma lp_used_rep: "lp_rep lp es \<Longrightarrow> lp_used lp = lp_total es"
  by (auto simp: lp_used_def lp_rep_def)

lemma lpAppend_holds:
  assumes us: "\<forall>n. n \<le> us n" and h: "lp_holds lp ss" and room: "lp_used lp + (length s + 10) \<le> 4294967295"
  shows "\<exists>lp'. lpAppend us junk lp s = Some (Some lp') \<and> lp_holds lp' (ss @ [s]) \<and> lp_used lp' \<le> lp_used lp + (length s + 10)"
proof -
  obtain es where es: "lp_rep lp es" "ss = lp_strings es" using h by (auto simp: lp_holds_def)
  have s: "length s < 2 ^ 32 - 5" using room by simp
  have t: "lp_total (es @ [lp_encode s]) = lp_total es + length (lp_entry (lp_encode s))" by (simp add: lp_total_def)
  then have "lp_total (es @ [lp_encode s]) < 2 ^ 32" using encode_cost [OF s] room lp_used_rep [OF es(1)] by simp
  then obtain lp' where lp': "lpAppend us junk lp s = Some (Some lp')" "lp_rep lp' (es @ [lp_encode s])"
    using lpAppend_rep [OF us es(1) s, of junk] by auto
  moreover have "lp_strings (es @ [lp_encode s]) = ss @ [s]" using es(2) lp_encode_props [OF s] by (simp add: lp_strings_def)
  ultimately show ?thesis
    using lp_used_rep [OF lp'(2)] lp_used_rep [OF es(1)] encode_cost [OF s] t by (auto simp: lp_holds_def)
qed

lemma lp_at_holds:
  assumes "lp_holds lp ss" and "length buf = 21"
  shows "lp_at buf lp i = Some (let j = (if i < 0 then int (length ss) + i else i) in
            if 0 \<le> j \<and> j < int (length ss) then Some (ss ! nat j) else None)"
  using assms lp_at_block [of lp _ buf i] by (auto simp: lp_holds_def lp_index_def Let_def lp_strings_def)

text \<open>
  The sequence contract holds for every allocator whose blocks are as large as requested
  (\<open>extra n\<close> bytes larger) and for every content of the buffer for integers.
\<close>

interpretation lpseq: seq_encoding "lpAppend (\<lambda>n. n + extra n) junk" "lp_at (replicate 21 fill)" lp_holds lp_used
  "\<lambda>s. length s + 10" 4294967295 for extra junk fill
proof unfold_locales
  fix lp :: bytes and ss :: "bytes list" and s :: bytes
  assume "lp_holds lp ss" "lp_used lp + (length s + 10) \<le> 4294967295"
  then show "\<exists>lp'. lpAppend (\<lambda>n. n + extra n) junk lp s = Some (Some lp') \<and> lp_holds lp' (ss @ [s]) \<and>
      lp_used lp' \<le> lp_used lp + (length s + 10)"
    by (intro lpAppend_holds) auto
next
  fix lp ss i
  assume "lp_holds lp ss"
  then show "lp_at (replicate 21 fill) lp i = Some (let j = (if i < 0 then int (length ss) + i else i) in
      if 0 \<le> j \<and> j < int (length ss) then Some (ss ! nat j) else None)"
    by (intro lp_at_holds) simp_all
qed

lemma holds_new: "lp_rep lp [] \<Longrightarrow> lp_holds lp [] \<and> lp_used lp = 7"
  using lp_used_rep [of lp "[]"] by (auto simp: lp_holds_def lp_strings_def lp_total_def)

section \<open>Properties\<close>

text \<open>
  C8. Appending any strings to a new listpack, integers or not, in any order, runs to the end
  if their total size fits a listpack, and reading index \<open>i\<close> through \<open>lpSeek\<close> and
  \<open>lpGet\<close> gives back the string appended as number \<open>i\<close>, byte for byte; index
  \<open>-1 - i\<close> counts from the end, and every other index, past the end or before the start, gives
  \<open>NULL\<close>.
\<close>

theorem listpack_append_read:
  assumes "lpNew (\<lambda>n. n + extra n) junk capacity = Some lp"
    and "7 + sum_list (map (\<lambda>s. length s + 10) ss) \<le> 4294967295"
  shows "\<exists>lp'. seq_push_all (lpAppend (\<lambda>n. n + extra n) junk) lp ss = Some (Some lp') \<and>
    (\<forall>i<length ss. lp_at (replicate 21 fill) lp' (int i) = Some (Some (ss ! i))) \<and>
    (\<forall>i<length ss. lp_at (replicate 21 fill) lp' (- 1 - int i) = Some (Some (rev ss ! i))) \<and>
    (\<forall>i\<ge>length ss. lp_at (replicate 21 fill) lp' (int i) = Some None \<and>
      lp_at (replicate 21 fill) lp' (- 1 - int i) = Some None)"
proof -
  have "lp_rep lp []" using assms(1) lpNew_rep [of "\<lambda>n. n + extra n" junk capacity] by auto
  then show ?thesis
    using lpseq.push_all_item [of lp ss extra junk fill] holds_new [of lp] assms(2) by simp
qed

theorem listpack_append_read_witness:
  "\<exists>lp'. seq_push_all (lpAppend (\<lambda>n. n + 1) (\<lambda>_. 7)) [7, 0, 0, 0, 0, 0, 255, 7] [[52, 50], [48, 55]] = Some (Some lp') \<and>
    lp_at (replicate 21 0) lp' 1 = Some (Some [48, 55]) \<and> lp_at (replicate 21 0) lp' (- 2) = Some (Some [52, 50]) \<and>
    lp_at (replicate 21 0) lp' (- 3) = Some None"
proof -
  have n: "lpNew (\<lambda>n. n + 1) (\<lambda>_. 7) 0 = Some [7, 0, 0, 0, 0, 0, 255, 7]"
    by (simp add: lpNew_def lp_malloc_def realloc_def lpSetTotalBytes_def lpSetNumElements_def mem_write_def wr_def
        upt_rec le_bytes_numeral)
  obtain lp' where lp': "seq_push_all (lpAppend (\<lambda>n. n + 1) (\<lambda>_. 7)) [7, 0, 0, 0, 0, 0, 255, 7] [[52, 50], [48, 55]] = Some (Some lp')"
    "\<forall>i<2. lp_at (replicate 21 0) lp' (int i) = Some (Some ([[52, 50], [48, 55]] ! i))"
    "\<forall>i<2. lp_at (replicate 21 0) lp' (- 1 - int i) = Some (Some (rev [[52, 50], [48, 55]] ! i))"
    "\<forall>i\<ge>2. lp_at (replicate 21 0) lp' (- 1 - int i) = Some None"
    using listpack_append_read [OF n, of "[[52, 50], [48, 55]]" 0] by auto
  have "lp_at (replicate 21 0) lp' 1 = Some (Some [48, 55])" "lp_at (replicate 21 0) lp' (- 2) = Some (Some [52, 50])"
    "lp_at (replicate 21 0) lp' (- 3) = Some None"
    using lp'(2) [rule_format, of 1] lp'(3) [rule_format, of 1] lp'(4) [rule_format, of 2] by simp_all
  then show ?thesis using lp'(1) by blast
qed

text \<open>The list after inserting \<open>e\<close> relative to index \<open>i\<close>, and the index it gets.\<close>

fun lp_place :: "lp_where \<Rightarrow> nat \<Rightarrow> bytes \<Rightarrow> bytes list \<Rightarrow> bytes list \<times> nat" where
  "lp_place LP_BEFORE i e es = (take i es @ e # drop i es, i)"
| "lp_place LP_AFTER i e es = (take (Suc i) es @ e # drop (Suc i) es, Suc i)"
| "lp_place LP_REPLACE i e es = (es[i := e], i)"

lemma lpInsert_place:
  assumes us: "\<forall>n. n \<le> us n" and rep: "lp_rep lp es" and i: "i < length es \<or> where0 = LP_BEFORE \<and> i \<le> length es"
    and some: "elestr \<noteq> None \<or> eleint \<noteq> None" and e: "lp_encoding (lp_new_enc elestr eleint)"
    and place: "lp_place where0 i (lp_new_enc elestr eleint) es = (es', i')"
  shows "if lp_total es' < 2 ^ 32 then
      \<exists>lp'. lpInsert us junk lp elestr eleint (lp_off es i) where0 newp =
        Some (Some (lp', if newp then Some (lp_off es' i') else None)) \<and> lp_rep lp' es'
    else lpInsert us junk lp elestr eleint (lp_off es i) where0 newp = Some None"
proof -
  obtain num slack where lp: "lp = lp_block num es slack" "lp_num_ok num es" "list_all lp_encoding es" "lp_total es < 2 ^ 32"
    using rep by (rule lp_repE)
  show ?thesis
  proof (cases where0)
    case LP_BEFORE
    then show ?thesis
      using lpInsert_before_block [OF us lp(3,4,2) _ some e, of i es' junk slack newp] i place by (auto simp: lp(1))
  next
    case LP_AFTER
    then have i: "i < length es" using i by simp
    show ?thesis
      using lpInsert_before_block [OF us lp(3,4,2) _ some e, of "Suc i" es' junk slack newp] i place LP_AFTER
        lpInsert_after_eq [OF i lp(3,4) some, of us junk num slack newp] by (auto simp: lp(1))
  next
    case LP_REPLACE
    then show ?thesis
      using lpInsert_replace_block [OF us lp(3,4,2) _ some e, of i es' junk slack newp] i place by (auto simp: lp(1))
  qed
qed

text \<open>
  C6. Inserting a string of less than \<open>2^32 - 5\<close> bytes before or after element \<open>i\<close>, or
  in its place, refines the operation on lists: the result is a well-formed listpack of the
  new list, whose element reads back as the string; the new position is the element's; the
  call returns \<open>NULL\<close> exactly when the listpack would exceed \<open>2^32 - 1\<close> bytes.
\<close>

theorem lpInsert_refines:
  assumes "\<forall>n. n \<le> us n" and "lp_rep lp es" and "i < length es \<or> where0 = LP_BEFORE \<and> i \<le> length es"
    and "length s < 2 ^ 32 - 5" and "lp_place where0 i (lp_encode s) es = (es', i')"
  shows "lp_strings [lp_encode s] = [s] \<and>
    (if lp_total es' < 2 ^ 32 then
      \<exists>lp'. lpInsert us junk lp (Some s) None (lp_off es i) where0 True =
        Some (Some (lp', Some (lp_off es' i'))) \<and> lp_rep lp' es'
     else lpInsert us junk lp (Some s) None (lp_off es i) where0 True = Some None)"
  using lpInsert_place [OF assms(1-3), of "Some s" None es' i' junk True] lp_encode_props [OF assms(4)] assms(5)
  by (simp add: lp_new_enc_def lp_strings_def split: if_splits)

lemma rep_small: "lp_rep (lp_block 1 [[5]] []) [[5]]"
  using enc_7bit [of 5] by (intro lp_repI) (simp_all add: lp_num_ok_def lp_total_def length_lp_entry)

theorem lpInsert_refines_witness:
  "\<exists>lp'. lpInsert (\<lambda>n. n) (\<lambda>_. 0) (lp_block 1 [[5]] []) (Some [97]) None 6 LP_AFTER True =
      Some (Some (lp', Some (lp_off [[5], lp_encode [97]] 1))) \<and> lp_rep lp' [[5], lp_encode [97]]"
proof -
  have "lp_encode [97] = [0x81, 97]"
    by (simp add: lp_encode_def lpEncodeGetType_def lpStringToInt64_def lpEncodeString_def)
  then have "lp_total [[5], lp_encode [97]] < 2 ^ 32" by (simp add: lp_total_def length_lp_entry)
  then show ?thesis
    using lpInsert_refines [OF _ rep_small, of "\<lambda>n. n" 0 LP_AFTER "[97]" "[[5], lp_encode [97]]" 1 "\<lambda>_. 0"] by simp
qed

text \<open>
  C24. Deleting element \<open>i\<close> yields a well-formed listpack of the other elements, and the
  position returned is the one of the next element, \<open>NULL\<close> if it was the last.
\<close>

theorem lpDelete_refines:
  assumes "\<forall>n. n \<le> us n" and "lp_rep lp es" and "i < length es"
  shows "\<exists>lp'. lpDelete us junk lp (lp_off es i) True =
      Some (Some (lp', lp_pos (take i es @ drop (Suc i) es) i)) \<and> lp_rep lp' (take i es @ drop (Suc i) es)"
proof -
  obtain num slack where "lp = lp_block num es slack" "lp_num_ok num es" "list_all lp_encoding es" "lp_total es < 2 ^ 32"
    using assms(2) by (rule lp_repE)
  then show ?thesis
    using lpDelete_block [OF assms(1) _ _ _ assms(3) refl, of num junk slack LP_REPLACE True] by (simp add: lpDelete_def)
qed

theorem lpDelete_refines_witness:
  "\<exists>lp'. lpDelete (\<lambda>n. n) (\<lambda>_. 0) (lp_block 1 [[5]] []) 6 True = Some (Some (lp', None)) \<and> lp_rep lp' []"
  using lpDelete_refines [OF _ rep_small, of "\<lambda>n. n" 0 "\<lambda>_. 0"] by (simp add: lp_pos_def)

text \<open>
  C27. \<open>lpFind\<close> from element \<open>i\<close> returns the first element that reads as the searched
  string among the elements \<open>i\<close>, \<open>i + skip + 1\<close>, \<open>i + 2 * (skip + 1)\<close> and so on,
  comparing integers by value, and \<open>NULL\<close> if there is none.
\<close>

theorem lpFind_exact:
  assumes "lp_rep lp es" and "skip < 2 ^ 31" and "i < length es"
  shows "lpFind lp (lp_off es i) s skip =
    Some (map_option (lp_off es) (find (\<lambda>k. lp_strings es ! k = s)
      (filter (\<lambda>k. (k - i) mod (skip + 1) = 0) [i..<length es])))"
proof -
  obtain num slack where lp: "lp = lp_block num es slack" "list_all lp_encoding es" "lp_total es < 2 ^ 32"
    using assms(1) by (rule lp_repE)
  have f: "find (\<lambda>k. lp_strings es ! k = s) ks = find (\<lambda>k. lp_string (lp_elem_of (es ! k)) = s) ks"
    if "set ks \<subseteq> {..<length es}" for ks using that by (induction ks) (auto simp: lp_strings_def)
  show ?thesis unfolding lp(1) lpFind_block [OF lp(2,3) assms(2,3)] by (subst f) auto
qed

theorem lpFind_exact_witness: "lpFind (lp_block 1 [[5]] []) 6 [53] 0 = Some (Some 6)"
  using lpFind_exact [OF rep_small, of 0 0 "[53]"] enc_7bit [of 5]
  by (simp add: lp_strings_def ll_repr_def dec_repr.simps)

text \<open>
  C25. On every input, of any content, the validator returns: it terminates, reads only inside
  the bytes it was given, and fails no assertion.
\<close>

theorem lpValidateIntegrity_safe: "\<exists>ok. lpValidateIntegrity lp (length lp) deep cb = Some ok"
  by (rule validateIntegrity_total)

text \<open>
  C26. Every well-formed listpack block passes the deep validation, when the caller's check
  accepts each of its entries.
\<close>

theorem lpValidateIntegrity_accepts:
  assumes "list_all lp_encoding es" and "lp_total es < 2 ^ 32" and "lp_num_ok num es"
  shows "lpValidateIntegrity (lp_block num es []) (lp_total es) True cb =
    Some (case cb of None \<Rightarrow> True | Some f \<Rightarrow> \<forall>k<length es. f (lp_block num es []) (lp_off es k) num)"
  using validateIntegrity_block [OF assms, of cb] by (cases cb) (simp_all add: lp_cb_ok_def)

theorem lpValidateIntegrity_accepts_witness:
  "lpValidateIntegrity (lp_block 1 [[5]] []) 9 True None = Some True"
  using lpValidateIntegrity_accepts [of "[[5]]" 1 None] enc_7bit [of 5]
  by (simp add: lp_num_ok_def lp_total_def length_lp_entry)

text \<open>
  C9. Bytes that pass the deep validation can be walked in both directions without a failing
  assertion or an access outside of them: there is a sequence of positions that
  \<open>lpFirst\<close>, \<open>lpNext\<close> and \<open>lpPrev\<close> follow forwards and backwards, and the header
  holds its length or the marker for an unknown length.
\<close>

theorem validated_traversal:
  assumes "lpValidateIntegrity lp (length lp) True cb = Some True"
  shows "\<exists>ps. ps \<noteq> [] \<and> last ps = length lp - 1 \<and>
    lpFirst lp = Some (if length ps = 1 then None else Some (ps ! 0)) \<and>
    (\<forall>i. Suc i < length ps \<longrightarrow>
      lpNext lp (ps ! i) = Some (if Suc (Suc i) = length ps then None else Some (ps ! Suc i))) \<and>
    (\<forall>i<length ps. lpPrev lp (ps ! i) = Some (if i = 0 then None else Some (ps ! (i - 1)))) \<and>
    lpGetNumElements lp \<in> {Some 65535, Some (length ps - 1)}"
proof -
  obtain ps num where ps: "lp_chain lp ps" "hd ps = 6" "lpBytes lp = Some (length lp)" "7 \<le> length lp"
    "lpGetNumElements lp = Some num" "num = 65535 \<or> num = length ps - 1"
    using assms by (rule validated_chain)
  then show ?thesis using chain_traversal [OF ps(1-4)] by (intro exI [of _ ps]) (auto simp: lp_chain_def)
qed

theorem validated_traversal_witness:
  "\<exists>ps. ps \<noteq> [] \<and> last ps = length (lp_block 2 [[5], [7]] []) - 1 \<and>
    lpFirst (lp_block 2 [[5], [7]] []) = Some (if length ps = 1 then None else Some (ps ! 0)) \<and>
    lpGetNumElements (lp_block 2 [[5], [7]] []) \<in> {Some 65535, Some (length ps - 1)}"
proof -
  have "lpValidateIntegrity (lp_block 2 [[5], [7]] []) (length (lp_block 2 [[5], [7]] [])) True None = Some True"
    using validateIntegrity_block [of "[[5], [7]]" 2 None] enc_7bit [of 5] enc_7bit [of 7]
    by (simp add: lp_num_ok_def lp_total_def length_lp_entry lp_cb_ok_def length_block)
  from validated_traversal [OF this] show ?thesis by blast
qed


lemmas lp_eval = rd_def mem_read_def mem_write_def mem_move_def lp_class LP_ENCODING_6BIT_STR_LEN_def
  lpGetTotalBytes_def lpGetNumElements_def lpSetTotalBytes_def lpSetNumElements_def lpBytes_def Let_def
  lpCurrentEncodedSizeBytes_def lpCurrentEncodedSizeUnsafe_def lpBacklenSize_def lpEncodeBacklen_def
  lp_out_of_range_def wadd_def wsub_def lpValidateNext_def lpDecodeBacklen_def lpDecodeBacklen_loop.simps

text \<open>
  C30. The validator accepts backward lengths that are read correctly only because of the
  bytes in front of them. The block below holds one empty string whose backward length is
  continued into the header; it passes the deep validation, but after \<open>lpPrepend\<close> of a
  one-byte string the assertion in \<open>lpNext\<close> fails.
\<close>

theorem validated_then_assertion:
  "lpValidateIntegrity [9, 0, 0, 0, 1, 0, 0x80, 0x81, 0xFF] 9 True None = Some True \<and>
   lpPrepend (\<lambda>n. n) (\<lambda>_. 0) [9, 0, 0, 0, 1, 0, 0x80, 0x81, 0xFF] [97] =
     Some (Some [12, 0, 0, 0, 2, 0, 0x81, 97, 2, 0x80, 0x81, 0xFF]) \<and>
   lpNext [12, 0, 0, 0, 2, 0, 0x81, 97, 2, 0x80, 0x81, 0xFF] 6 = None"
proof (intro conjI)
  show "lpValidateIntegrity [9, 0, 0, 0, 1, 0, 0x80, 0x81, 0xFF] 9 True None = Some True"
    by (simp add: lpValidateIntegrity_def lpValidate_loop.simps lp_eval)
  show "lpNext [12, 0, 0, 0, 2, 0, 0x81, 97, 2, 0x80, 0x81, 0xFF] 6 = None"
    by (simp add: lpNext_def lpSkip_def lpAssertValidEntry_def c_assert_def lp_eval)
  have "lpEncodeGetType [97] = (None, 2)" by (simp add: lpEncodeGetType_def lpStringToInt64_def)
  then show "lpPrepend (\<lambda>n. n) (\<lambda>_. 0) [9, 0, 0, 0, 1, 0, 0x80, 0x81, 0xFF] [97] =
     Some (Some [12, 0, 0, 0, 2, 0, 0x81, 97, 2, 0x80, 0x81, 0xFF])"
    by (simp add: lpPrepend_def lpFirst_def lpAssertValidEntry_def lpInsert_def lpInsert_write_def lpInsert_store_def
        lpInsert_numele_def lpEncodeString_def lp_realloc_def realloc_def lp_eval upt_rec le_bytes_numeral)
qed

text \<open>
  C29. The two copies of the strict integer parser, in \<open>util.c\<close> and in \<open>listpack.c\<close>,
  agree on every string.
\<close>

theorem lpStringToInt64_equiv: "lpStringToInt64 s = string2ll s"
  by (rule lpStringToInt64_eq)

text \<open>
  C28. The backward length: for every length below \<open>2^35\<close>, in any surroundings,
  \<open>lpDecodeBacklen\<close> at the last byte written by \<open>lpEncodeBacklen\<close> returns the
  length; the encoding takes one to five bytes.
\<close>

theorem backlen_roundtrip:
  assumes "l < 2 ^ 35"
  shows "lpDecodeBacklen (A @ lpEncodeBacklen l @ B) (length A + lpBacklenSize l - 1) = Some l \<and>
    lpBacklenSize l \<in> {1..5}"
  using decode_encode [OF assms] backlen_size_cases [of l] by blast

theorem backlen_roundtrip_witness:
  "lpDecodeBacklen ([1] @ lpEncodeBacklen 300 @ [2]) (length [1 :: u8] + lpBacklenSize 300 - 1) = Some 300"
  using backlen_roundtrip [of 300 "[1]" "[2]"] by simp

end
