(* ===== verification/Bitops.thy ===== *)
theory Bitops
  imports Redis_Prelude
begin

text \<open>
  The low level bit functions of \<open>src/bitops.c\<close>: the word-at-a-time bit count and bit
  search behind \<open>BITCOUNT\<close> and \<open>BITPOS\<close>, and the fields of up to 64 bits,
  with their overflow rules, behind \<open>BITFIELD\<close>. The buffer is a list of bytes, read
  and written through the checked accesses of the prelude; the 32- and 64-bit loads are
  little-endian, as on the platforms the code is built for. Each optimised routine is compared
  with a definition that looks at the bits one by one.
\<close>

section \<open>Counting the set bits of a string\<close>

definition bitsinbyte :: "nat list" where
  "bitsinbyte = [
    0, 1, 1, 2, 1, 2, 2, 3, 1, 2, 2, 3, 2, 3, 3, 4, 1, 2, 2, 3, 2, 3, 3, 4, 2, 3, 3, 4, 3, 4, 4, 5,
    1, 2, 2, 3, 2, 3, 3, 4, 2, 3, 3, 4, 3, 4, 4, 5, 2, 3, 3, 4, 3, 4, 4, 5, 3, 4, 4, 5, 4, 5, 5, 6,
    1, 2, 2, 3, 2, 3, 3, 4, 2, 3, 3, 4, 3, 4, 4, 5, 2, 3, 3, 4, 3, 4, 4, 5, 3, 4, 4, 5, 4, 5, 5, 6,
    2, 3, 3, 4, 3, 4, 4, 5, 3, 4, 4, 5, 4, 5, 5, 6, 3, 4, 4, 5, 4, 5, 5, 6, 4, 5, 5, 6, 5, 6, 6, 7,
    1, 2, 2, 3, 2, 3, 3, 4, 2, 3, 3, 4, 3, 4, 4, 5, 2, 3, 3, 4, 3, 4, 4, 5, 3, 4, 4, 5, 4, 5, 5, 6,
    2, 3, 3, 4, 3, 4, 4, 5, 3, 4, 4, 5, 4, 5, 5, 6, 3, 4, 4, 5, 4, 5, 5, 6, 4, 5, 5, 6, 5, 6, 6, 7,
    2, 3, 3, 4, 3, 4, 4, 5, 3, 4, 4, 5, 4, 5, 5, 6, 3, 4, 4, 5, 4, 5, 5, 6, 4, 5, 5, 6, 5, 6, 6, 7,
    3, 4, 4, 5, 4, 5, 5, 6, 4, 5, 5, 6, 5, 6, 6, 7, 4, 5, 5, 6, 5, 6, 6, 7, 5, 6, 6, 7, 6, 7, 7, 8]"

text \<open>
  The address \<open>addr\<close> of the buffer only decides how many bytes are handled one by one
  before the word loop; \<open>p\<close> is the offset of the C pointer in the buffer.
\<close>

fun popcount_head :: "bytes \<Rightarrow> nat \<Rightarrow> nat \<Rightarrow> nat \<Rightarrow> nat \<Rightarrow> (nat \<times> nat \<times> nat) option" where
  "popcount_head s addr p 0 bits = Some (p, 0, bits)"
| "popcount_head s addr p (Suc count) bits =
     (if (addr + p) AND 3 \<noteq> 0
      then do {
        b \<leftarrow> rd s p;
        popcount_head s addr (p + 1) count (bits + bitsinbyte ! unat b) }
      else Some (p, Suc count, bits))"

definition load32 :: "bytes \<Rightarrow> nat \<Rightarrow> u32 option" where
  "load32 s p = do { xs \<leftarrow> mem_read s p 4; Some (of_nat (le_nat xs)) }"

definition popcount_pairs :: "u32 \<Rightarrow> u32" where
  "popcount_pairs aux =
     (let aux = aux - (drop_bit 1 aux AND 0x55555555)
      in (aux AND 0x33333333) + (drop_bit 2 aux AND 0x33333333))"

definition popcount_nibbles :: "u32 \<Rightarrow> u32" where
  "popcount_nibbles aux =
     (let aux = popcount_pairs aux in (aux + drop_bit 4 aux) AND 0x0F0F0F0F)"

function popcount_words :: "bytes \<Rightarrow> nat \<Rightarrow> nat \<Rightarrow> nat \<Rightarrow> (nat \<times> nat \<times> nat) option" where
  "popcount_words s p count bits =
     (if 28 \<le> count
      then do {
          aux1 \<leftarrow> load32 s (p + 0);
          aux2 \<leftarrow> load32 s (p + 4);
          aux3 \<leftarrow> load32 s (p + 8);
          aux4 \<leftarrow> load32 s (p + 12);
          aux5 \<leftarrow> load32 s (p + 16);
          aux6 \<leftarrow> load32 s (p + 20);
          aux7 \<leftarrow> load32 s (p + 24);
          popcount_words s (p + 28) (count - 28) (bits + unat (drop_bit 24 ((
            popcount_nibbles aux1 +
            popcount_nibbles aux2 +
            popcount_nibbles aux3 +
            popcount_nibbles aux4 +
            popcount_nibbles aux5 +
            popcount_nibbles aux6 +
            popcount_nibbles aux7) * 0x01010101))) }
      else Some (p, count, bits))"
  by pat_completeness auto
termination by (relation "measure (\<lambda>(s, p, count, bits). count)") auto

declare popcount_words.simps [simp del]

fun popcount_tail :: "bytes \<Rightarrow> nat \<Rightarrow> nat \<Rightarrow> nat \<Rightarrow> nat option" where
  "popcount_tail s p 0 bits = Some bits"
| "popcount_tail s p (Suc count) bits = do {
     b \<leftarrow> rd s p;
     popcount_tail s (p + 1) count (bits + bitsinbyte ! unat b) }"

definition redisPopcount :: "bytes \<Rightarrow> nat \<Rightarrow> nat \<Rightarrow> nat option" where
  "redisPopcount s addr count = do {
     (p, count, bits) \<leftarrow> popcount_head s addr 0 count 0;
     (p, count, bits) \<leftarrow> popcount_words s p count bits;
     popcount_tail s p count bits }"

text \<open>The reference: the number of set bits of a byte, added up over the bytes.\<close>

definition byte_ones :: "u8 \<Rightarrow> nat" where
  "byte_ones b = length (filter (bit b) [0..<8])"

definition count_ones :: "bytes \<Rightarrow> nat" where
  "count_ones s = sum_list (map byte_ones s)"

lemma bitsinbyte_all: "\<forall>b::u8. bitsinbyte ! unat b = byte_ones b"
  unfolding u8_all by code_simp

lemma bitsinbyte_ones [simp]: "bitsinbyte ! unat (b :: u8) = byte_ones b"
  using bitsinbyte_all by blast

lemma byte_ones_le: "byte_ones b \<le> 8"
proof -
  have "length (filter (bit b) [0..<8]) \<le> length [0..<8]" by (rule length_filter_le)
  then show ?thesis by (simp add: byte_ones_def)
qed

lemma count_ones_append [simp]: "count_ones (xs @ ys) = count_ones xs + count_ones ys"
  by (simp add: count_ones_def)

lemma count_ones_Cons [simp]: "count_ones (b # xs) = byte_ones b + count_ones xs"
  by (simp add: count_ones_def)

lemma count_ones_Nil [simp]: "count_ones [] = 0"
  by (simp add: count_ones_def)

subsection \<open>The 32-bit step works byte by byte\<close>

definition word4 :: "u8 \<Rightarrow> u8 \<Rightarrow> u8 \<Rightarrow> u8 \<Rightarrow> u32" where
  "word4 a b c d = of_nat (le_nat [a, b, c, d])"


lemma unat_word4: "unat (word4 a b c d) = unat a + 256 * unat b + 65536 * unat c + 16777216 * unat d"
proof -
  have "le_nat [a, b, c, d] < 2 ^ LENGTH(32)" using le_nat_less [of "[a, b, c, d]"] by simp
  then have "unat (word4 a b c d) = le_nat [a, b, c, d]"
    unfolding word4_def unat_of_nat by (rule mod_less)
  then show ?thesis by simp
qed

lemma bit_low_digit:
  assumes "n < 8"
  shows "bit (u + 256 * x :: nat) n \<longleftrightarrow> bit u n"
proof -
  have "(2 :: nat) ^ 8 = 2 ^ n * 2 ^ (8 - n)" using assms by (simp flip: power_add)
  then have e: "u + 256 * x = u + 2 ^ n * (2 ^ (8 - n) * x)" by simp
  have "(u + 2 ^ n * (2 ^ (8 - n) * x)) div 2 ^ n = 2 ^ (8 - n) * x + u div 2 ^ n"
    by (intro div_mult_self2) simp
  moreover have "even (2 ^ (8 - n) * x)" using assms by simp
  ultimately show ?thesis unfolding bit_iff_odd e by simp
qed

lemma bit_high_digit:
  assumes "8 \<le> n" and "u < 256"
  shows "bit (u + 256 * x :: nat) n \<longleftrightarrow> bit x (n - 8)"
proof -
  have "(2 :: nat) ^ n = 256 * 2 ^ (n - 8)"
  proof -
    have "(2 :: nat) ^ n = 2 ^ (8 + (n - 8))" using assms(1) by simp
    then show ?thesis by (simp only: power_add) simp
  qed
  then have "(u + 256 * x) div 2 ^ n = x div 2 ^ (n - 8)"
    using assms(2) by (simp add: div_mult2_eq)
  then show ?thesis by (simp add: bit_iff_odd)
qed

lemma bit_unat_u8: "bit (unat (b :: u8)) n \<longleftrightarrow> bit b n"
  by (simp add: bit_unsigned_iff)

lemma bit_le_nat:
  "bit (le_nat bs) n \<longleftrightarrow> n div 8 < length bs \<and> bit (bs ! (n div 8)) (n mod 8)"
proof (induction bs arbitrary: n)
  case Nil
  then show ?case by simp
next
  case (Cons b bs)
  show ?case
  proof (cases "n < 8")
    case True
    then show ?thesis by (simp add: bit_low_digit bit_unat_u8)
  next
    case False
    then have "n div 8 = Suc ((n - 8) div 8)" and "n mod 8 = (n - 8) mod 8"
      by (simp_all add: le_div_geq le_mod_geq)
    then show ?thesis using False Cons by (simp add: bit_high_digit)
  qed
qed

lemma bit_word4:
  "bit (word4 a b c d) n \<longleftrightarrow> n < 32 \<and> bit ([a, b, c, d] ! (n div 8)) (n mod 8)"
proof -
  have "unat (word4 a b c d) = le_nat [a, b, c, d]" by (simp add: unat_word4)
  then have "bit (le_nat [a, b, c, d]) n \<longleftrightarrow> bit (word4 a b c d) n"
    using bit_unsigned_iff [where ?'a = nat and w = "word4 a b c d" and n = n] by simp
  moreover have "n div 8 < length [a, b, c, d] \<longleftrightarrow> n < 32" by auto
  ultimately show ?thesis unfolding bit_le_nat by blast
qed

lemma bit_word4_at [simp]:
  "k < 8 \<Longrightarrow> bit (word4 a b c d) k = bit a k"
  "k < 8 \<Longrightarrow> bit (word4 a b c d) (8 + k) = bit b k"
  "k < 8 \<Longrightarrow> bit (word4 a b c d) (16 + k) = bit c k"
  "k < 8 \<Longrightarrow> bit (word4 a b c d) (24 + k) = bit d k"
  "\<not> bit (word4 a b c d) (32 + k)"
proof -
  have "(16 + k) mod 8 = k" "(24 + k) mod 8 = k" if "k < 8" using that by presburger+
  then show
    "k < 8 \<Longrightarrow> bit (word4 a b c d) k = bit a k"
    "k < 8 \<Longrightarrow> bit (word4 a b c d) (8 + k) = bit b k"
    "k < 8 \<Longrightarrow> bit (word4 a b c d) (16 + k) = bit c k"
    "k < 8 \<Longrightarrow> bit (word4 a b c d) (24 + k) = bit d k"
    "\<not> bit (word4 a b c d) (32 + k)"
    by (simp_all add: bit_word4)
qed

lemma word4_eqI:
  assumes "\<And>k. k < 8 \<Longrightarrow> bit w k = bit a k" "\<And>k. k < 8 \<Longrightarrow> bit w (8 + k) = bit b k"
    "\<And>k. k < 8 \<Longrightarrow> bit w (16 + k) = bit c k" "\<And>k. k < 8 \<Longrightarrow> bit w (24 + k) = bit d k"
  shows "w = word4 a b c d"
proof (rule bit_word_eqI)
  fix n
  assume "n < LENGTH(32)"
  then consider "n < 8" | k where "n = 8 + k" "k < 8" | k where "n = 16 + k" "k < 8" | k where "n = 24 + k" "k < 8"
    by (cases "n < 8"; cases "n < 16"; cases "n < 24")
      (simp_all, metis add_diff_inverse_nat diff_less_mono numeral_less_iff not_less,
        auto dest!: le_Suc_ex simp: not_less)
  then show "bit w n = bit (word4 a b c d) n"
    by cases (simp_all add: assms)
qed

lemma word4_and: "word4 a b c d AND word4 a' b' c' d' = word4 (a AND a') (b AND b') (c AND c') (d AND d')"
  by (rule word4_eqI) (simp_all add: bit_and_iff)

lemma word4_shift_mask:
  assumes "\<And>i. bit m i \<Longrightarrow> i + k < 8"
  shows "drop_bit k (word4 a b c d) AND word4 m m m m =
    word4 (drop_bit k a AND m) (drop_bit k b AND m) (drop_bit k c AND m) (drop_bit k d AND m)"
proof (rule word4_eqI)
  fix i :: nat
  assume i: "i < 8"
  have a: "k + (8 + i) = 8 + (k + i)" "k + (16 + i) = 16 + (k + i)" "k + (24 + i) = 24 + (k + i)"
    by simp_all
  have m: "bit m i \<Longrightarrow> k + i < 8" using assms [of i] by simp
  show "bit (drop_bit k (word4 a b c d) AND word4 m m m m) i = bit (drop_bit k a AND m) i"
    "bit (drop_bit k (word4 a b c d) AND word4 m m m m) (8 + i) = bit (drop_bit k b AND m) i"
    "bit (drop_bit k (word4 a b c d) AND word4 m m m m) (16 + i) = bit (drop_bit k c AND m) i"
    "bit (drop_bit k (word4 a b c d) AND word4 m m m m) (24 + i) = bit (drop_bit k d AND m) i"
    using i m by (auto simp add: bit_and_iff bit_drop_bit_eq a simp del: add.assoc)
qed

lemma word4_shift4: "drop_bit 4 (word4 a b c d) =
  word4 (drop_bit 4 a OR push_bit 4 b) (drop_bit 4 b OR push_bit 4 c) (drop_bit 4 c OR push_bit 4 d)
    (drop_bit 4 d)"
proof (rule word4_eqI)
  fix i :: nat
  assume i: "i < 8"
  have no: "\<not> bit (x :: u8) (4 + i)" if "4 \<le> i" for x
    using bit_imp_le_length [of x "4 + i"] that by auto
  have p: "bit (drop_bit 4 x OR push_bit 4 y) i = (if i < 4 then bit x (4 + i) else bit y (i - 4))"
    for x y :: u8
    using no [of x] i by (auto simp add: bit_or_iff bit_drop_bit_eq bit_push_bit_iff)
  have q: "bit (drop_bit 4 (word4 a b c d)) i = (if i < 4 then bit a (4 + i) else bit b (i - 4))"
    "bit (drop_bit 4 (word4 a b c d)) (8 + i) = (if i < 4 then bit b (4 + i) else bit c (i - 4))"
    "bit (drop_bit 4 (word4 a b c d)) (16 + i) = (if i < 4 then bit c (4 + i) else bit d (i - 4))"
    "bit (drop_bit 4 (word4 a b c d)) (24 + i) = (if i < 4 then bit d (4 + i) else False)"
  proof -
    have "4 + i = 8 + (i - 4)" "4 + (8 + i) = 16 + (i - 4)" "4 + (16 + i) = 24 + (i - 4)"
      "4 + (24 + i) = 32 + (i - 4)" if "\<not> i < 4"
      using that by simp_all
    moreover have "4 + (8 + i) = 8 + (4 + i)" "4 + (16 + i) = 16 + (4 + i)" "4 + (24 + i) = 24 + (4 + i)"
      by simp_all
    moreover have "i < 4 \<Longrightarrow> 4 + i < 8" "i - 4 < 8" using i by simp_all
    ultimately show
      "bit (drop_bit 4 (word4 a b c d)) i = (if i < 4 then bit a (4 + i) else bit b (i - 4))"
      "bit (drop_bit 4 (word4 a b c d)) (8 + i) = (if i < 4 then bit b (4 + i) else bit c (i - 4))"
      "bit (drop_bit 4 (word4 a b c d)) (16 + i) = (if i < 4 then bit c (4 + i) else bit d (i - 4))"
      "bit (drop_bit 4 (word4 a b c d)) (24 + i) = (if i < 4 then bit d (4 + i) else False)"
      unfolding bit_drop_bit_eq o_apply by (metis bit_word4_at)+
  qed
  show "bit (drop_bit 4 (word4 a b c d)) i = bit (drop_bit 4 a OR push_bit 4 b) i"
    "bit (drop_bit 4 (word4 a b c d)) (8 + i) = bit (drop_bit 4 b OR push_bit 4 c) i"
    "bit (drop_bit 4 (word4 a b c d)) (16 + i) = bit (drop_bit 4 c OR push_bit 4 d) i"
    unfolding p q by (rule refl)+
  show "bit (drop_bit 4 (word4 a b c d)) (24 + i) = bit (drop_bit 4 d) i"
    unfolding q using no [of d] by (simp add: bit_drop_bit_eq)
qed

lemma word4_add:
  assumes "unat a + unat a' < 256" "unat b + unat b' < 256" "unat c + unat c' < 256"
    "unat d + unat d' < 256"
  shows "word4 a b c d + word4 a' b' c' d' = word4 (a + a') (b + b') (c + c') (d + d')"
proof -
  have "unat (a + a') = unat a + unat a'" "unat (b + b') = unat b + unat b'"
    "unat (c + c') = unat c + unat c'" "unat (d + d') = unat d + unat d'"
    using assms by (simp_all add: unat_word_ariths)
  then have "le_nat [a + a', b + b', c + c', d + d'] = le_nat [a, b, c, d] + le_nat [a', b', c', d']"
    by simp
  then show ?thesis unfolding word4_def by (simp only: of_nat_add)
qed

lemma word4_diff:
  assumes "a' \<le> a" "b' \<le> b" "c' \<le> c" "d' \<le> d"
  shows "word4 a b c d - word4 a' b' c' d' = word4 (a - a') (b - b') (c - c') (d - d')"
proof -
  have "unat (x - y) + unat y < 256" if "y \<le> x" for x y :: u8
    using that by (simp add: unat_sub word_le_nat_alt)
  then have "word4 (a - a') (b - b') (c - c') (d - d') + word4 a' b' c' d' = word4 a b c d"
    using assms by (subst word4_add) simp_all
  then show ?thesis by (simp add: eq_diff_eq [symmetric])
qed

definition byte_pairs :: "u8 \<Rightarrow> u8" where
  "byte_pairs b = (let b = b - (drop_bit 1 b AND 0x55) in (b AND 0x33) + (drop_bit 2 b AND 0x33))"

lemma byte_pairs_all: "\<forall>b::u8. drop_bit 1 b AND 0x55 \<le> b \<and>
    unat (b AND 0x33) + unat (drop_bit 2 b AND 0x33) < 256 \<and>
    byte_pairs b AND 0x88 = 0 \<and>
    unat (((byte_pairs b AND 0x0F) + drop_bit 4 (byte_pairs b)) AND 0x0F) = byte_ones b \<and>
    (b AND 0x88 = 0 \<longrightarrow> unat b < 128) \<and> push_bit 4 b AND 0x0F = 0 \<and>
    (b AND 0x88 = 0 \<longrightarrow> drop_bit 4 b AND 0x88 = 0 \<and> push_bit 4 b AND 0x88 = 0) \<and>
    drop_bit 4 b AND 0x0F = drop_bit 4 b"
  unfolding u8_all by code_simp

lemma mask_u8: "bit (0x55 :: u8) i \<Longrightarrow> i + 1 < 8" "bit (0x33 :: u8) i \<Longrightarrow> i + 2 < 8"
proof -
  have "\<forall>i \<in> set [0..<8]. (bit (0x55 :: u8) i \<longrightarrow> i + 1 < 8) \<and> (bit (0x33 :: u8) i \<longrightarrow> i + 2 < 8)"
    by code_simp
  moreover have "bit (x :: u8) i \<Longrightarrow> i < 8" for x using bit_imp_le_length [of x i] by simp
  ultimately show "bit (0x55 :: u8) i \<Longrightarrow> i + 1 < 8" "bit (0x33 :: u8) i \<Longrightarrow> i + 2 < 8"
    by (metis atLeastLessThan_iff atLeastLessThan_upt le0)+
qed

lemma masks_word4: "(0x55555555 :: u32) = word4 0x55 0x55 0x55 0x55"
  "(0x33333333 :: u32) = word4 0x33 0x33 0x33 0x33" "(0x0F0F0F0F :: u32) = word4 0x0F 0x0F 0x0F 0x0F"
  by (simp_all add: word4_def)

lemma pairs_word4: "popcount_pairs (word4 a b c d) = word4 (byte_pairs a) (byte_pairs b) (byte_pairs c) (byte_pairs d)"
proof -
  have "drop_bit 1 (word4 a b c d) AND word4 0x55 0x55 0x55 0x55 =
      word4 (drop_bit 1 a AND 0x55) (drop_bit 1 b AND 0x55) (drop_bit 1 c AND 0x55) (drop_bit 1 d AND 0x55)"
    by (rule word4_shift_mask) (rule mask_u8)
  moreover have "drop_bit 2 (word4 a b c d) AND word4 0x33 0x33 0x33 0x33 =
      word4 (drop_bit 2 a AND 0x33) (drop_bit 2 b AND 0x33) (drop_bit 2 c AND 0x33) (drop_bit 2 d AND 0x33)"
    for a b c d by (rule word4_shift_mask) (rule mask_u8)
  ultimately show ?thesis
    unfolding popcount_pairs_def Let_def masks_word4 byte_pairs_def
    using byte_pairs_all by (simp only: word4_diff word4_and word4_add)
qed

lemma take4_and: "(x :: u8) AND 0x0F = take_bit 4 x"
  by (simp add: take_bit_eq_mask mask_numeral)

lemma take4_add: "take_bit 4 (take_bit 4 x + take_bit 4 y) = take_bit 4 (x + y :: u8)"
proof -
  have d: "(16 :: nat) dvd 256" by simp
  have "unat (take_bit 4 (take_bit 4 x + take_bit 4 y)) = unat (take_bit 4 (x + y))"
    by (simp add: unsigned_take_bit_eq unat_word_ariths take_bit_eq_mod mod_mod_cancel [OF d] mod_add_eq)
  then show ?thesis by (simp add: word_unat_eq_iff)
qed

lemma nibble_clear:
  "(x :: u8) AND 0x88 = 0 \<Longrightarrow> unat x < 128" "(x :: u8) AND 0x88 = 0 \<Longrightarrow> drop_bit 4 x AND 0x88 = 0"
  "(x :: u8) AND 0x88 = 0 \<Longrightarrow> push_bit 4 x AND 0x88 = 0"
  using byte_pairs_all by blast+

lemma nibble_low:
  "((x :: u8) + (drop_bit 4 x OR push_bit 4 y)) AND 0x0F = ((x AND 0x0F) + drop_bit 4 x) AND 0x0F"
proof -
  have or: "take_bit 4 (drop_bit 4 x OR push_bit 4 y) = take_bit 4 (drop_bit 4 x)"
    by (simp add: take_bit_push_bit)
  have "take_bit 4 (x + (drop_bit 4 x OR push_bit 4 y)) =
      take_bit 4 (take_bit 4 x + take_bit 4 (drop_bit 4 x OR push_bit 4 y))"
    by (rule take4_add [symmetric])
  also have "\<dots> = take_bit 4 (take_bit 4 (take_bit 4 x) + take_bit 4 (drop_bit 4 x))"
    unfolding or by simp
  also have "\<dots> = take_bit 4 (take_bit 4 x + drop_bit 4 x)"
    by (rule take4_add)
  finally show ?thesis by (simp only: take4_and)
qed

lemma nibble_small:
  assumes "(x :: u8) AND 0x88 = 0" "y AND 0x88 = 0"
  shows "unat x + unat (drop_bit 4 x OR push_bit 4 y) < 256"
proof -
  have "(drop_bit 4 x OR push_bit 4 y) AND 0x88 = (drop_bit 4 x AND 0x88) OR (push_bit 4 y AND 0x88)"
    by (rule word_ao_dist)
  then have "(drop_bit 4 x OR push_bit 4 y) AND 0x88 = 0"
    by (simp only: nibble_clear(2) [OF assms(1)] nibble_clear(3) [OF assms(2)] or.right_neutral)
  then have "unat (drop_bit 4 x OR push_bit 4 y) < 128" by (rule nibble_clear)
  moreover have "unat x < 128" using assms(1) by (rule nibble_clear)
  ultimately show ?thesis by simp
qed

lemma pairs_nibbles:
  "byte_pairs x AND 0x88 = 0"
  "((byte_pairs x AND 0x0F) + drop_bit 4 (byte_pairs x)) AND 0x0F = of_nat (byte_ones x)"
proof -
  show "byte_pairs x AND 0x88 = 0" using byte_pairs_all by blast
  have "unat (((byte_pairs x AND 0x0F) + drop_bit 4 (byte_pairs x)) AND 0x0F) = byte_ones x"
    using byte_pairs_all by blast
  then show "((byte_pairs x AND 0x0F) + drop_bit 4 (byte_pairs x)) AND 0x0F = of_nat (byte_ones x)"
    by (metis of_nat_unat ucast_id)
qed

lemma shift4_last: "word4 a b c (drop_bit 4 d) = word4 a b c (drop_bit 4 d OR push_bit 4 0)"
  by simp

lemma nibbles_word4: "popcount_nibbles (word4 a b c d) =
  word4 (of_nat (byte_ones a)) (of_nat (byte_ones b)) (of_nat (byte_ones c)) (of_nat (byte_ones d))"
proof -
  have z: "(0 :: u8) AND 0x88 = 0" by simp
  show ?thesis
    unfolding popcount_nibbles_def Let_def pairs_word4 word4_shift4 masks_word4
    unfolding shift4_last
    unfolding word4_add [OF nibble_small [OF pairs_nibbles(1) pairs_nibbles(1)]
      nibble_small [OF pairs_nibbles(1) pairs_nibbles(1)] nibble_small [OF pairs_nibbles(1) pairs_nibbles(1)]
      nibble_small [OF pairs_nibbles(1) z]]
    unfolding word4_and nibble_low pairs_nibbles(2) by (rule refl)
qed

lemma top_byte_sum:
  assumes "A + B + C + D < 256"
  shows "unat (drop_bit 24 (of_nat (A + 256 * B + 65536 * C + 16777216 * D) * 0x01010101 :: u32)) = A + B + C + D"
proof -
  have p32: "(2 :: nat) ^ 32 = 4294967296" by simp
  define X where "X = A + 256 * B + 65536 * C + 16777216 * D"
  have "of_nat X * 0x01010101 = (of_nat (X * 16843009) :: u32)" by simp
  then have "unat (of_nat X * 0x01010101 :: u32) = X * 16843009 mod 2 ^ 32"
    by (simp only: unat_of_nat) simp
  also have "X * 16843009 = (A + 256 * (A + B) + 65536 * (A + B + C) + 16777216 * (A + B + C + D)) +
      4294967296 * (B + C + D + 256 * (C + D) + 65536 * D)"
    by (simp add: X_def algebra_simps)
  also have "\<dots> mod 2 ^ 32 = A + 256 * (A + B) + 65536 * (A + B + C) + 16777216 * (A + B + C + D)"
    unfolding p32 mod_mult_self2 using assms by simp
  finally have "unat (of_nat X * 0x01010101 :: u32) =
      A + 256 * (A + B) + 65536 * (A + B + C) + 16777216 * (A + B + C + D)" .
  then have "unat (drop_bit 24 (of_nat X * 0x01010101 :: u32)) =
      (A + 256 * (A + B) + 65536 * (A + B + C) + 16777216 * (A + B + C + D)) div 2 ^ 24"
    unfolding unat_drop_bit_eq by (simp only: drop_bit_eq_div)
  also have "\<dots> = A + B + C + D" using assms by simp
  finally show ?thesis by (simp only: X_def)
qed

lemma nibbles_value:
  "popcount_nibbles (word4 a b c d) =
     of_nat (byte_ones a + 256 * byte_ones b + 65536 * byte_ones c + 16777216 * byte_ones d)"
proof -
  have "le_nat [of_nat (byte_ones a), of_nat (byte_ones b), of_nat (byte_ones c), of_nat (byte_ones d)] =
      byte_ones a + 256 * byte_ones b + 65536 * byte_ones c + 16777216 * byte_ones d"
    using byte_ones_le [of a] byte_ones_le [of b] byte_ones_le [of c] byte_ones_le [of d] by simp
  then show ?thesis unfolding nibbles_word4 by (simp only: word4_def)
qed

lemma load32_word4:
  assumes "p + 4 \<le> length s"
  shows "load32 s p = Some (word4 (s ! p) (s ! (p + 1)) (s ! (p + 2)) (s ! (p + 3)))"
proof -
  have "take 4 (drop p s) = [s ! p, s ! (p + 1), s ! (p + 2), s ! (p + 3)]"
    using assms by (intro nth_equalityI) (auto simp: less_Suc_eq numeral_eq_Suc [of "num.Bit0 num.One"]
      numeral_eq_Suc [of "num.Bit1 num.One"] numeral_eq_Suc [of "num.Bit0 (num.Bit0 num.One)"])
  then show ?thesis using assms by (simp add: load32_def mem_read_def word4_def)
qed

definition ones4 :: "bytes \<Rightarrow> nat \<Rightarrow> nat" where
  "ones4 s p = count_ones (take 4 (drop p s))"

lemma load32_nibbles:
  assumes "p + 4 \<le> length s"
  shows "\<exists>w A B C D. load32 s p = Some w \<and>
    popcount_nibbles w = of_nat (A + 256 * B + 65536 * C + 16777216 * D) \<and>
    A + B + C + D = ones4 s p \<and> A + B + C + D \<le> 32"
proof -
  let ?b = "\<lambda>i. s ! (p + i)"
  have "drop p s = ?b 0 # ?b 1 # ?b 2 # ?b 3 # drop (p + 4) s"
    using assms by (simp add: Cons_nth_drop_Suc numeral_eq_Suc [of "num.Bit0 num.One"]
      numeral_eq_Suc [of "num.Bit1 num.One"] numeral_eq_Suc [of "num.Bit0 (num.Bit0 num.One)"])
  then have "ones4 s p = byte_ones (?b 0) + byte_ones (?b 1) + byte_ones (?b 2) + byte_ones (?b 3)"
    by (simp add: ones4_def)
  then show ?thesis
    using load32_word4 [OF assms] byte_ones_le [of "?b 0"] byte_ones_le [of "?b 1"]
      byte_ones_le [of "?b 2"] byte_ones_le [of "?b 3"]
    by (intro exI conjI) (assumption, rule nibbles_value, simp_all)
qed

lemma ones_28:
  "count_ones (take 28 (drop p s)) = ones4 s p + ones4 s (p + 4) + ones4 s (p + 8) + ones4 s (p + 12) +
    ones4 s (p + 16) + ones4 s (p + 20) + ones4 s (p + 24)"
proof -
  have step: "count_ones (take (4 + n) (drop q s)) = ones4 s q + count_ones (take n (drop (q + 4) s))" for n q
    by (simp add: take_add ones4_def add.commute [of q 4])
  show ?thesis
    using step [of 24 p] step [of 20 "p + 4"] step [of 16 "p + 8"] step [of 12 "p + 12"]
      step [of 8 "p + 16"] step [of 4 "p + 20"] step [of 0 "p + 24"]
    by (simp add: add.commute)
qed

lemma popcount_words_step:
  assumes "p + 28 \<le> length s" and "28 \<le> count"
  shows "popcount_words s p count bits =
    popcount_words s (p + 28) (count - 28) (bits + count_ones (take 28 (drop p s)))"
proof -
  obtain w0 A0 B0 C0 D0 where w0: "load32 s (p + 0) = Some w0"
    "popcount_nibbles w0 = of_nat (A0 + 256 * B0 + 65536 * C0 + 16777216 * D0)"
    "A0 + B0 + C0 + D0 = ones4 s (p + 0)" "A0 + B0 + C0 + D0 \<le> 32"
    using load32_nibbles [of "p + 0" s] assms by auto
  obtain w1 A1 B1 C1 D1 where w1: "load32 s (p + 4) = Some w1"
    "popcount_nibbles w1 = of_nat (A1 + 256 * B1 + 65536 * C1 + 16777216 * D1)"
    "A1 + B1 + C1 + D1 = ones4 s (p + 4)" "A1 + B1 + C1 + D1 \<le> 32"
    using load32_nibbles [of "p + 4" s] assms by auto
  obtain w2 A2 B2 C2 D2 where w2: "load32 s (p + 8) = Some w2"
    "popcount_nibbles w2 = of_nat (A2 + 256 * B2 + 65536 * C2 + 16777216 * D2)"
    "A2 + B2 + C2 + D2 = ones4 s (p + 8)" "A2 + B2 + C2 + D2 \<le> 32"
    using load32_nibbles [of "p + 8" s] assms by auto
  obtain w3 A3 B3 C3 D3 where w3: "load32 s (p + 12) = Some w3"
    "popcount_nibbles w3 = of_nat (A3 + 256 * B3 + 65536 * C3 + 16777216 * D3)"
    "A3 + B3 + C3 + D3 = ones4 s (p + 12)" "A3 + B3 + C3 + D3 \<le> 32"
    using load32_nibbles [of "p + 12" s] assms by auto
  obtain w4 A4 B4 C4 D4 where w4: "load32 s (p + 16) = Some w4"
    "popcount_nibbles w4 = of_nat (A4 + 256 * B4 + 65536 * C4 + 16777216 * D4)"
    "A4 + B4 + C4 + D4 = ones4 s (p + 16)" "A4 + B4 + C4 + D4 \<le> 32"
    using load32_nibbles [of "p + 16" s] assms by auto
  obtain w5 A5 B5 C5 D5 where w5: "load32 s (p + 20) = Some w5"
    "popcount_nibbles w5 = of_nat (A5 + 256 * B5 + 65536 * C5 + 16777216 * D5)"
    "A5 + B5 + C5 + D5 = ones4 s (p + 20)" "A5 + B5 + C5 + D5 \<le> 32"
    using load32_nibbles [of "p + 20" s] assms by auto
  obtain w6 A6 B6 C6 D6 where w6: "load32 s (p + 24) = Some w6"
    "popcount_nibbles w6 = of_nat (A6 + 256 * B6 + 65536 * C6 + 16777216 * D6)"
    "A6 + B6 + C6 + D6 = ones4 s (p + 24)" "A6 + B6 + C6 + D6 \<le> 32"
    using load32_nibbles [of "p + 24" s] assms by auto
  let ?A = "A0 + A1 + A2 + A3 + A4 + A5 + A6" and ?B = "B0 + B1 + B2 + B3 + B4 + B5 + B6"
  let ?C = "C0 + C1 + C2 + C3 + C4 + C5 + C6" and ?D = "D0 + D1 + D2 + D3 + D4 + D5 + D6"
  have sum: "?A + ?B + ?C + ?D = count_ones (take 28 (drop p s))"
    unfolding ones_28 using w0(3) w1(3) w2(3) w3(3) w4(3) w5(3) w6(3) by simp
  have lt: "?A + ?B + ?C + ?D < 256"
    using w0(4) w1(4) w2(4) w3(4) w4(4) w5(4) w6(4) by linarith
  have tot: "popcount_nibbles w0 + popcount_nibbles w1 + popcount_nibbles w2 + popcount_nibbles w3 + popcount_nibbles w4 + popcount_nibbles w5 + popcount_nibbles w6 =
      (of_nat (?A + 256 * ?B + 65536 * ?C + 16777216 * ?D) :: u32)"
    unfolding w0(2) w1(2) w2(2) w3(2) w4(2) w5(2) w6(2)
    by (simp only: of_nat_add [symmetric] add_mult_distrib add_mult_distrib2 ac_simps)
  have "unat (drop_bit 24 ((popcount_nibbles w0 + popcount_nibbles w1 + popcount_nibbles w2 + popcount_nibbles w3 + popcount_nibbles w4 + popcount_nibbles w5 + popcount_nibbles w6) * 0x01010101)) = count_ones (take 28 (drop p s))"
    unfolding tot top_byte_sum [OF lt] by (rule sum)
  then show ?thesis
    using assms(2) w0(1) w1(1) w2(1) w3(1) w4(1) w5(1) w6(1)
    by (subst popcount_words.simps) simp
qed

lemma popcount_words_total:
  assumes "p + count \<le> length s"
  shows "\<exists>p' count' bits'. popcount_words s p count bits = Some (p', count', bits') \<and>
    p' + count' = p + count \<and>
    bits' + count_ones (take count' (drop p' s)) = bits + count_ones (take count (drop p s))"
  using assms
proof (induction count arbitrary: p bits rule: less_induct)
  case (less count)
  show ?case
  proof (cases "28 \<le> count")
    case True
    have split: "take count (drop p s) = take 28 (drop p s) @ take (count - 28) (drop (p + 28) s)"
      using True take_add [of 28 "count - 28" "drop p s"] by (simp add: add.commute)
    have step: "popcount_words s p count bits =
        popcount_words s (p + 28) (count - 28) (bits + count_ones (take 28 (drop p s)))"
      using True less.prems by (intro popcount_words_step) auto
    show ?thesis
      using less.IH [of "count - 28" "p + 28" "bits + count_ones (take 28 (drop p s))"] True less.prems
      unfolding step split count_ones_append by auto
  next
    case False
    then show ?thesis by (subst popcount_words.simps) simp
  qed
qed

lemma popcount_head_total:
  assumes "p + count \<le> length s"
  shows "\<exists>p' count' bits'. popcount_head s addr p count bits = Some (p', count', bits') \<and>
    p' + count' = p + count \<and>
    bits' + count_ones (take count' (drop p' s)) = bits + count_ones (take count (drop p s))"
  using assms
proof (induction count arbitrary: p bits)
  case 0
  then show ?case by simp
next
  case (Suc count)
  have "take (Suc count) (drop p s) = s ! p # take count (drop (Suc p) s)"
    using Suc.prems by (simp add: Cons_nth_drop_Suc [symmetric])
  then show ?case
    using Suc.IH [of "p + 1" "bits + byte_ones (s ! p)"] Suc.prems by (auto simp: rd_Some)
qed

lemma popcount_tail_total:
  assumes "p + count \<le> length s"
  shows "popcount_tail s p count bits = Some (bits + count_ones (take count (drop p s)))"
  using assms
proof (induction count arbitrary: p bits)
  case 0
  then show ?case by simp
next
  case (Suc count)
  have "take (Suc count) (drop p s) = s ! p # take count (drop (Suc p) s)"
    using Suc.prems by (simp add: Cons_nth_drop_Suc [symmetric])
  then show ?case
    using Suc.IH [of "p + 1" "bits + byte_ones (s ! p)"] Suc.prems by (auto simp: rd_Some)
qed

text \<open>
  C14. The word-at-a-time bit count of \<open>BITCOUNT\<close> is the number of set bits of the string:
  for every buffer, every alignment of its address and every byte count inside the buffer,
  \<open>redisPopcount\<close> reads inside the buffer and returns the sum, over the bytes, of the
  number of their set bits.
\<close>

theorem redisPopcount_exact:
  assumes "count \<le> length s"
  shows "redisPopcount s addr count = Some (count_ones (take count s))"
proof -
  obtain p1 c1 b1 where 1: "popcount_head s addr 0 count 0 = Some (p1, c1, b1)"
    "p1 + c1 = count" "b1 + count_ones (take c1 (drop p1 s)) = count_ones (take count s)"
    using popcount_head_total [of 0 count s addr 0] assms by auto
  obtain p2 c2 b2 where 2: "popcount_words s p1 c1 b1 = Some (p2, c2, b2)"
    "p2 + c2 = count" "b2 + count_ones (take c2 (drop p2 s)) = count_ones (take count s)"
    using popcount_words_total [of p1 c1 s b1] 1 assms by auto
  show ?thesis
    using 1 2 popcount_tail_total [of p2 c2 s b2] assms by (simp add: redisPopcount_def)
qed

theorem redisPopcount_exact_witness:
  "redisPopcount (replicate 40 255) 1 40 = Some (count_ones (take 40 (replicate 40 255)))"
  using redisPopcount_exact [of 40 "replicate 40 255" 1] by simp

section \<open>Finding the first set or clear bit\<close>

text \<open>Bit \<open>i\<close> of a bitmap: bit 0 is the most significant bit of the first byte.\<close>

definition bitmap_bit :: "bytes \<Rightarrow> nat \<Rightarrow> bool" where
  "bitmap_bit s i = bit (s ! (i div 8)) (7 - i mod 8)"

fun bitpos_head ::
  "bytes \<Rightarrow> nat \<Rightarrow> u64 \<Rightarrow> nat \<Rightarrow> nat \<Rightarrow> nat \<Rightarrow> (nat \<times> nat \<times> nat \<times> bool) option" where
  "bitpos_head s addr skipval c 0 pos = Some (c, 0, pos, False)"
| "bitpos_head s addr skipval c (Suc count) pos =
     (if (addr + c) AND 7 \<noteq> 0
      then do {
        b \<leftarrow> rd s c;
        if ucast b \<noteq> skipval then Some (c, Suc count, pos, True)
        else bitpos_head s addr skipval (c + 1) count (pos + 8) }
      else Some (c, Suc count, pos, False))"

definition load64 :: "bytes \<Rightarrow> nat \<Rightarrow> u64 option" where
  "load64 s p = do { xs \<leftarrow> mem_read s p 8; Some (of_nat (le_nat xs)) }"

function bitpos_words :: "bytes \<Rightarrow> u64 \<Rightarrow> nat \<Rightarrow> nat \<Rightarrow> nat \<Rightarrow> (nat \<times> nat \<times> nat) option" where
  "bitpos_words s skipval l count pos =
     (if 8 \<le> count
      then do {
        w \<leftarrow> load64 s l;
        if w \<noteq> skipval then Some (l, count, pos)
        else bitpos_words s skipval (l + 8) (count - 8) (pos + 64) }
      else Some (l, count, pos))"
  by pat_completeness auto
termination by (relation "measure (\<lambda>(s, skipval, l, count, pos). count)") auto

declare bitpos_words.simps [simp del]

fun bitpos_load :: "bytes \<Rightarrow> nat \<Rightarrow> nat \<Rightarrow> nat \<Rightarrow> u64 \<Rightarrow> u64 option" where
  "bitpos_load s c count 0 word = Some word"
| "bitpos_load s c count (Suc j) word = do {
     let word = push_bit 8 word;
     if count \<noteq> 0
     then do { b \<leftarrow> rd s c; bitpos_load s (c + 1) (count - 1) j (word OR ucast b) }
     else bitpos_load s c count j word }"

function bitpos_scan :: "u64 \<Rightarrow> u64 \<Rightarrow> bool \<Rightarrow> nat \<Rightarrow> nat option" where
  "bitpos_scan word one bt pos =
     (if one = 0 then None
      else if (one AND word \<noteq> 0) = bt then Some pos
      else bitpos_scan word (drop_bit 1 one) bt (pos + 1))"
  by pat_completeness auto
termination
proof (relation "measure (\<lambda>(word, one, bt, pos). unat one)")
  fix word one :: u64 and bt :: bool and pos :: nat
  assume "one \<noteq> 0"
  then have "0 < unat one" by (simp add: unat_gt_0)
  then have "unat (drop_bit 1 one) < unat one" unfolding unat_drop_bit_eq by (simp add: drop_bit_eq_div)
  then show "((word, drop_bit 1 one, bt, pos + 1), word, one, bt, pos)
      \<in> measure (\<lambda>(word, one, bt, pos). unat one)"
    by simp
qed simp

declare bitpos_scan.simps [simp del]

definition redisBitpos :: "bytes \<Rightarrow> nat \<Rightarrow> nat \<Rightarrow> bool \<Rightarrow> int option" where
  "redisBitpos s addr count bt = do {
     (c, count, pos, found) \<leftarrow> bitpos_head s addr (if bt then 0 else 0xFF) 0 count 0;
     (l, count, pos) \<leftarrow>
       (if \<not> found then bitpos_words s (if bt then 0 else - 1) c count pos
        else Some (c, count, pos));
     word \<leftarrow> bitpos_load s l count 8 0;
     if bt \<and> word = 0 then Some (- 1)
     else do {
       p \<leftarrow> bitpos_scan word (NOT (drop_bit 1 (- 1))) bt pos;
       Some (int p) } }"

lemma skip_byte:
  "(ucast (b :: u8) :: u64) = (if bt then 0 else 0xFF) \<longleftrightarrow> b = (if bt then 0 else 0xFF)"
proof -
  have "unat b < 2 ^ 64" using unat_u8_less [of b] by (rule order_less_trans) simp
  then have "unat (ucast b :: u64) = unat b" by (simp add: unsigned_ucast_eq take_bit_nat_eq_self)
  then show ?thesis
    by (cases bt) (simp_all add: word_unat_eq_iff)
qed

text \<open>The bits of the whole bytes skipped so far are all the opposite of the one sought.\<close>

definition skipped :: "bytes \<Rightarrow> bool \<Rightarrow> nat \<Rightarrow> bool" where
  "skipped s bt c \<longleftrightarrow> (\<forall>k < c. s ! k = (if bt then 0 else 0xFF))"

lemma skipped_Suc: "skipped s bt c \<Longrightarrow> s ! c = (if bt then 0 else 0xFF) \<Longrightarrow> skipped s bt (Suc c)"
  by (auto simp: skipped_def less_Suc_eq)

lemma bit_u8_255: "k < 8 \<Longrightarrow> bit (0xFF :: u8) k"
proof -
  have "\<forall>k \<in> set [0..<8]. bit (0xFF :: u8) k" by code_simp
  then show "k < 8 \<Longrightarrow> bit (0xFF :: u8) k" by simp
qed

lemma skipped_bits: "skipped s bt c \<Longrightarrow> i < 8 * c \<Longrightarrow> bitmap_bit s i = (\<not> bt)"
  unfolding skipped_def bitmap_bit_def
proof -
  assume "\<forall>k < c. s ! k = (if bt then 0 else 0xFF)" and "i < 8 * c"
  then have "s ! (i div 8) = (if bt then 0 else 0xFF)" by (simp add: div_less_iff_less_mult)
  moreover have "bit (0xFF :: u8) (7 - i mod 8)" by (rule bit_u8_255) simp
  ultimately show "bit (s ! (i div 8)) (7 - i mod 8) = (\<not> bt)" by (cases bt) simp_all
qed

lemma bitpos_head_total:
  assumes "c + count \<le> length s" and "skipped s bt c"
  shows "\<exists>c' count' found. bitpos_head s addr (if bt then 0 else 0xFF) c count (8 * c) =
      Some (c', count', 8 * c', found) \<and> c' + count' = c + count \<and> skipped s bt c' \<and>
      (found \<longrightarrow> 0 < count' \<and> s ! c' \<noteq> (if bt then 0 else 0xFF))"
  using assms
proof (induction count arbitrary: c)
  case 0
  then show ?case by (auto intro: exI [of _ False])
next
  case (Suc count)
  have r: "rd s c = Some (s ! c)" using Suc.prems by (simp add: rd_Some)
  show ?case
  proof (cases "s ! c = (if bt then 0 else 0xFF)")
    case True
    then have sk: "skipped s bt (Suc c)" using Suc.prems by (intro skipped_Suc)
    have e: "8 * c + 8 = 8 * (c + 1)" by simp
    have "ucast (s ! c) = ((if bt then 0 else 0xFF) :: u64)" using True skip_byte by blast
    then show ?thesis
      using Suc.IH [of "Suc c"] Suc.prems sk r by (auto simp: e simp del: mult_Suc_right)
  next
    case False
    then have "ucast (s ! c) \<noteq> ((if bt then 0 else 0xFF) :: u64)" using skip_byte by blast
    then show ?thesis using Suc.prems r False by (cases "(addr + c) AND 7 = 0") auto
  qed
qed

lemma le_nat_zero: "le_nat bs = 0 \<longleftrightarrow> (\<forall>b \<in> set bs. b = 0)"
  by (induction bs) (auto simp: unat_eq_0)

lemma le_nat_ones: "le_nat bs = 256 ^ length bs - 1 \<longleftrightarrow> (\<forall>b \<in> set bs. b = 0xFF)"
proof (induction bs)
  case Nil
  then show ?case by simp
next
  case (Cons b bs)
  have "unat b \<le> 255" using unat_u8_less [of b] by linarith
  moreover have "le_nat bs \<le> 256 ^ length bs - 1" using le_nat_less [of bs] by linarith
  moreover have "0 < (256 :: nat) ^ length bs" by simp
  ultimately have
    "unat b + 256 * le_nat bs = 256 * 256 ^ length bs - 1 \<longleftrightarrow> unat b = 255 \<and> le_nat bs = 256 ^ length bs - 1"
    by linarith
  moreover have "unat b = 255 \<longleftrightarrow> b = 0xFF" by (simp add: word_unat_eq_iff)
  ultimately show ?case using Cons by simp
qed

lemma load64_skip:
  assumes "l + 8 \<le> length s"
  shows "\<exists>w. load64 s l = Some w \<and>
    (w = (if bt then 0 else - 1) \<longleftrightarrow> (\<forall>k < 8. s ! (l + k) = (if bt then 0 else 0xFF)))"
proof -
  let ?xs = "take 8 (drop l s)"
  have len: "length ?xs = 8" using assms by simp
  have lt: "le_nat ?xs < 2 ^ 64" using le_nat_less [of ?xs] len by simp
  have "of_nat (le_nat ?xs) = (0 :: u64) \<longleftrightarrow> le_nat ?xs = 0"
    using lt by (simp add: word_unat_eq_iff unat_of_nat)
  moreover have "of_nat (le_nat ?xs) = (- 1 :: u64) \<longleftrightarrow> le_nat ?xs = 256 ^ length ?xs - 1"
    using lt len by (simp add: word_unat_eq_iff unat_of_nat unsigned_minus_1_eq_mask mask_eq_exp_minus_1)
  moreover have "(\<forall>b \<in> set ?xs. b = v) \<longleftrightarrow> (\<forall>k < 8. s ! (l + k) = v)" for v
    using len assms by (simp add: all_set_conv_all_nth)
  ultimately have "of_nat (le_nat ?xs) = ((if bt then 0 else - 1) :: u64) \<longleftrightarrow>
      (\<forall>k < 8. s ! (l + k) = (if bt then 0 else 0xFF))"
    by (cases bt) (simp_all only: if_True if_False le_nat_zero le_nat_ones)
  moreover have "load64 s l = Some (of_nat (le_nat ?xs))"
    using assms by (simp add: load64_def mem_read_def)
  ultimately show ?thesis by blast
qed

lemma bitpos_words_total:
  assumes "l + count \<le> length s" and "skipped s bt l"
  shows "\<exists>l' count'. bitpos_words s (if bt then 0 else - 1) l count (8 * l) = Some (l', count', 8 * l') \<and>
    l' + count' = l + count \<and> skipped s bt l' \<and>
    (8 \<le> count' \<longrightarrow> (\<exists>k < 8. s ! (l' + k) \<noteq> (if bt then 0 else 0xFF)))"
  using assms
proof (induction count arbitrary: l rule: less_induct)
  case (less count)
  show ?case
  proof (cases "8 \<le> count")
    case True
    then obtain w where w: "load64 s l = Some w"
      "w = (if bt then 0 else - 1) \<longleftrightarrow> (\<forall>k < 8. s ! (l + k) = (if bt then 0 else 0xFF))"
      using load64_skip [of l s bt] less.prems by auto
    show ?thesis
    proof (cases "w = (if bt then 0 else - 1)")
      case eq: True
      have "skipped s bt (l + 8)" unfolding skipped_def
      proof (intro allI impI)
        fix k assume "k < l + 8"
        then show "s ! k = (if bt then 0 else 0xFF)"
          using less.prems(2) w(2) eq by (cases "k < l") (auto simp: skipped_def dest!: spec [of _ "k - l"])
      qed
      moreover have "8 * l + 64 = 8 * (l + 8)" by simp
      ultimately show ?thesis
        using less.IH [of "count - 8" "l + 8"] True less.prems w(1) eq
        by (subst bitpos_words.simps) (auto simp del: distrib_left_numeral)
    next
      case False
      then show ?thesis using w less.prems True by (subst bitpos_words.simps) auto
    qed
  next
    case False
    then show ?thesis using less.prems by (subst bitpos_words.simps) auto
  qed
qed

lemma bitpos_load_bits:
  assumes "c + count \<le> length s"
  shows "\<exists>W. bitpos_load s c count j word = Some W \<and>
    (\<forall>n < 64. bit W n = (if n < 8 * j
       then 8 * j - 1 - n < 8 * count \<and> bitmap_bit s (8 * c + (8 * j - 1 - n))
       else bit word (n - 8 * j)))"
  using assms
proof (induction j arbitrary: c count word)
  case 0
  then show ?case by simp
next
  case (Suc j)
  show ?case
  proof (cases "count = 0")
    case True
    obtain W where W: "bitpos_load s c count j (push_bit 8 word) = Some W"
      "\<forall>n < 64. bit W n = (if n < 8 * j then 8 * j - 1 - n < 8 * count \<and>
         bitmap_bit s (8 * c + (8 * j - 1 - n)) else bit (push_bit 8 word) (n - 8 * j))"
      using Suc.IH [OF Suc.prems] by blast
    have "bit W n = (n \<ge> 8 * Suc j \<and> bit word (n - 8 * Suc j))" if "n < 64" for n
      using that W(2) True by (auto simp: bit_push_bit_iff add.commute [of "8 * j" 8])
    then show ?thesis using W(1) True by (simp add: Let_def)
  next
    case False
    let ?w = "push_bit 8 word OR ucast (s ! c)"
    obtain W where W: "bitpos_load s (c + 1) (count - 1) j ?w = Some W"
      "\<And>n. n < 64 \<Longrightarrow> bit W n = (if n < 8 * j then 8 * j - 1 - n < 8 * (count - 1) \<and>
         bitmap_bit s (8 * (c + 1) + (8 * j - 1 - n)) else bit ?w (n - 8 * j))"
      using Suc.IH [of "c + 1" "count - 1" ?w] Suc.prems False by auto
    have "bit W n = (if n < 8 * Suc j
       then 8 * Suc j - 1 - n < 8 * count \<and> bitmap_bit s (8 * c + (8 * Suc j - 1 - n))
       else bit word (n - 8 * Suc j))" if "n < 64" for n
    proof -
      consider "n < 8 * j" | m where "n = 8 * j + m" "m < 8" | "8 * Suc j \<le> n"
        by (metis add_diff_inverse_nat less_diff_conv2 mult_Suc_right add.commute not_less)
      then show ?thesis
      proof cases
        case 1
        then have "8 * (c + 1) + (8 * j - 1 - n) = 8 * c + (8 * Suc j - 1 - n)"
          and "8 * j - 1 - n < 8 * (count - 1) \<longleftrightarrow> 8 * Suc j - 1 - n < 8 * count"
          using False by auto
        then show ?thesis using W(2) [OF that] 1 by simp
      next
        case 2
        then have i: "8 * Suc j - 1 - n = 7 - m" by simp
        have "bitmap_bit s (8 * c + (7 - m)) = bit (s ! c) m"
        proof -
          have "(8 * c + (7 - m)) div 8 = c" "(8 * c + (7 - m)) mod 8 = 7 - m" by simp_all
          then show ?thesis using 2(2) by (simp only: bitmap_bit_def) simp
        qed
        moreover have "bit ?w m = bit (s ! c) m"
          using 2(2) by (simp add: bit_or_iff bit_push_bit_iff bit_ucast_iff)
        moreover have "7 - m < 8 * count" using False by linarith
        ultimately show ?thesis using W(2) [OF that] 2 unfolding i by simp
      next
        case 3
        have "\<not> bit (s ! c) (n - 8 * j)"
          using 3 bit_imp_le_length [of "s ! c" "n - 8 * j"] by auto
        moreover have "n - (8 * j + 8) = n - 8 * Suc j" "8 \<le> n - 8 * j" "n - 8 * j < 64"
          using 3 that by auto
        ultimately show ?thesis using W(2) [OF that] 3 that
          by (simp add: bit_or_iff bit_push_bit_iff bit_ucast_iff)
      qed
    qed
    then show ?thesis using W(1) False Suc.prems by (simp add: Let_def rd_Some)
  qed
qed

lemma bitpos_scan_first:
  assumes "k < 64" and "i \<le> k" and "bit word (k - i) = bt" and "\<And>j. j < i \<Longrightarrow> bit word (k - j) \<noteq> bt"
  shows "bitpos_scan word (2 ^ k) bt pos = Some (pos + i)"
  using assms
proof (induction i arbitrary: k pos)
  case 0
  then have "2 ^ k AND word \<noteq> 0 \<longleftrightarrow> bit word k"
    by (simp add: and.commute [of "2 ^ k"] and_exp_eq_0_iff_not_bit)
  moreover have "(2 :: u64) ^ k \<noteq> 0" using 0 by simp
  ultimately show ?case using 0 by (subst bitpos_scan.simps) simp
next
  case (Suc i)
  then obtain k' where k: "k = Suc k'" by (cases k) auto
  have "2 ^ k AND word \<noteq> 0 \<longleftrightarrow> bit word k"
    by (simp add: and.commute [of "2 ^ k"] and_exp_eq_0_iff_not_bit)
  moreover have "(2 :: u64) ^ k \<noteq> 0" using Suc by simp
  moreover have "bit word k \<noteq> bt" using Suc.prems(4) [of 0] by simp
  moreover have "drop_bit 1 (2 ^ k) = (2 :: u64) ^ k'"
  proof (rule bit_word_eqI)
    fix n
    assume "n < LENGTH(64)"
    then show "bit (drop_bit 1 ((2 :: u64) ^ k)) n = bit ((2 :: u64) ^ k') n"
      using Suc.prems(1) k by (auto simp: bit_drop_bit_eq bit_exp_iff simp del: power_Suc)
  qed
  moreover have "bitpos_scan word (2 ^ k') bt (pos + 1) = Some (pos + 1 + i)"
  proof (rule Suc.IH)
    show "bit word (k' - j) \<noteq> bt" if "j < i" for j
      using Suc.prems(4) [of "Suc j"] that k by simp
  qed (use Suc.prems k in auto)
  ultimately show ?case by (subst bitpos_scan.simps) simp
qed

text \<open>The reference: the first position whose bit is the one sought.\<close>

definition first_bit :: "bytes \<Rightarrow> nat \<Rightarrow> bool \<Rightarrow> int" where
  "first_bit s count bt =
     (case List.find (\<lambda>i. bitmap_bit s i = bt) [0..<8 * count] of
        Some i \<Rightarrow> int i
      | None \<Rightarrow> if bt then - 1 else int (8 * count))"

lemma first_bit_Some:
  assumes "i < 8 * count" and "bitmap_bit s i = bt" and "\<And>j. j < i \<Longrightarrow> bitmap_bit s j \<noteq> bt"
  shows "first_bit s count bt = int i"
proof -
  have "List.find (\<lambda>i. bitmap_bit s i = bt) [0..<8 * count] = Some i"
    unfolding find_Some_iff using assms by (intro exI [of _ i]) auto
  then show ?thesis by (simp add: first_bit_def)
qed

lemma first_bit_None:
  assumes "\<And>i. i < 8 * count \<Longrightarrow> bitmap_bit s i \<noteq> bt"
  shows "first_bit s count bt = (if bt then - 1 else int (8 * count))"
proof -
  have "List.find (\<lambda>i. bitmap_bit s i = bt) [0..<8 * count] = None"
    using assms by (auto simp: find_None_iff)
  then show ?thesis by (simp add: first_bit_def)
qed

lemma byte_differs_all:
  "\<forall>b :: u8. (b \<noteq> 0 \<longrightarrow> list_ex (\<lambda>m. bit b (7 - m)) [0..<8]) \<and>
     (b \<noteq> 0xFF \<longrightarrow> list_ex (\<lambda>m. \<not> bit b (7 - m)) [0..<8])"
  unfolding u8_all by code_simp

lemma byte_differs:
  assumes "(b :: u8) \<noteq> (if bt then 0 else 0xFF)"
  shows "\<exists>m < 8. bit b (7 - m) = bt"
proof -
  have "list_ex (\<lambda>m. bit b (7 - m) = bt) [0..<8]"
    using assms byte_differs_all by (cases bt) simp_all
  then show ?thesis unfolding list_ex_iff set_upt by auto
qed

lemma byte_differs_at:
  assumes "s ! (c + k) \<noteq> (if bt then 0 else 0xFF)" and "k < 8"
  shows "\<exists>i < 64. i div 8 = k \<and> bitmap_bit s (8 * c + i) = bt"
proof -
  obtain m where m: "m < 8" "bit (s ! (c + k)) (7 - m) = bt"
    using byte_differs [OF assms(1)] by blast
  have "bitmap_bit s (8 * c + (8 * k + m)) = bt" using m by (simp add: bitmap_bit_def)
  then show ?thesis using m(1) assms(2) by (intro exI [of _ "8 * k + m"]) auto
qed

lemma scan_start: "NOT (drop_bit 1 (- 1)) = (2 ^ 63 :: u64)"
  by (simp add: mask_eq_exp_minus_1)

lemma scan_word:
  assumes "c + count \<le> length s" and "skipped s bt c"
    and "8 \<le> count \<Longrightarrow> \<exists>i < 64. bitmap_bit s (8 * c + i) = bt"
    and W: "\<And>i. i < 64 \<Longrightarrow> bit W (63 - i) \<longleftrightarrow> i < 8 * count \<and> bitmap_bit s (8 * c + i)"
  shows "(if bt \<and> W = 0 then Some (- 1)
      else do { p \<leftarrow> bitpos_scan W (2 ^ 63) bt (8 * c); Some (int p) }) = Some (first_bit s (c + count) bt)"
proof (cases "\<exists>i < 64. i < 8 * count \<and> bitmap_bit s (8 * c + i) = bt")
  case True
  define P where "P = (\<lambda>i. i < 64 \<and> i < 8 * count \<and> bitmap_bit s (8 * c + i) = bt)"
  obtain i where i: "P i" "\<And>j. j < i \<Longrightarrow> \<not> P j"
    using True exists_least_iff [of P] by (auto simp: P_def)
  have b: "bit W (63 - i) = bt" using W [of i] i(1) by (auto simp: P_def)
  have nb: "bit W (63 - j) \<noteq> bt" if "j < i" for j
    using W [of j] i(1) i(2) [OF that] that by (auto simp: P_def)
  have "bitpos_scan W (2 ^ 63) bt (8 * c) = Some (8 * c + i)"
    using b nb i(1) by (intro bitpos_scan_first) (auto simp: P_def)
  moreover have "bt \<Longrightarrow> W \<noteq> 0" using b by auto
  moreover have "first_bit s (c + count) bt = int (8 * c + i)"
  proof (rule first_bit_Some)
    fix j
    assume j: "j < 8 * c + i"
    show "bitmap_bit s j \<noteq> bt"
    proof (cases "j < 8 * c")
      case True
      then show ?thesis using skipped_bits [OF assms(2)] by simp
    next
      case False
      then show ?thesis using i(2) [of "j - 8 * c"] i(1) j by (auto simp: P_def)
    qed
  qed (use i(1) in \<open>auto simp: P_def\<close>)
  ultimately show ?thesis by auto
next
  case False
  have lt: "count < 8"
  proof (rule ccontr)
    assume "\<not> count < 8"
    then have "\<And>i. i < 64 \<Longrightarrow> i < 8 * count" and "8 \<le> count" by simp_all
    then show False using assms(3) False by blast
  qed
  have none: "bitmap_bit s i \<noteq> bt" if "i < 8 * (c + count)" for i
    using skipped_bits [OF assms(2)] False that lt
    by (cases "i < 8 * c") (auto dest!: spec [of _ "i - 8 * c"])
  have fb: "first_bit s (c + count) bt = (if bt then - 1 else int (8 * (c + count)))"
    using none by (rule first_bit_None)
  show ?thesis
  proof (cases bt)
    case True
    have "W = 0"
    proof (rule bit_word_eqI)
      fix n
      assume "n < LENGTH(64)"
      then have "bit W (63 - (63 - n)) \<longleftrightarrow> 63 - n < 8 * count \<and> bitmap_bit s (8 * c + (63 - n))"
        by (intro W) simp
      then show "bit W n = bit 0 n"
        using \<open>n < LENGTH(64)\<close> False True by auto
    qed
    then show ?thesis using fb True by simp
  next
    case nbt: False
    have "bitpos_scan W (2 ^ 63) bt (8 * c) = Some (8 * c + 8 * count)"
    proof (rule bitpos_scan_first)
      show "bit W (63 - 8 * count) = bt" using W [of "8 * count"] nbt lt by simp
      show "bit W (63 - j) \<noteq> bt" if "j < 8 * count" for j
        using W [of j] False nbt lt that by auto
    qed (use lt in auto)
    then show ?thesis using fb nbt by simp
  qed
qed

text \<open>
  C15. The word-at-a-time search of \<open>BITPOS\<close> finds the first bit with the value sought.
  For every buffer, alignment and byte count inside the buffer, \<open>redisBitpos\<close> reads
  inside the buffer, never reaches its final panic, and returns the position of the first such
  bit; when there is none it returns -1 for a search of a one and the number of bits for a
  search of a zero, as its comment promises.
\<close>

theorem redisBitpos_exact:
  assumes "count \<le> length s"
  shows "redisBitpos s addr count bt = Some (first_bit s count bt)"
proof -
  obtain c1 n1 found where 1:
    "bitpos_head s addr (if bt then 0 else 0xFF) 0 count 0 = Some (c1, n1, 8 * c1, found)"
    "c1 + n1 = count" "skipped s bt c1" "found \<longrightarrow> 0 < n1 \<and> s ! c1 \<noteq> (if bt then 0 else 0xFF)"
    using bitpos_head_total [of 0 count s bt addr] assms by (auto simp: skipped_def)
  obtain c n where 2:
    "(if \<not> found then bitpos_words s (if bt then 0 else - 1) c1 n1 (8 * c1) else Some (c1, n1, 8 * c1)) =
       Some (c, n, 8 * c)"
    "c + n = count" "skipped s bt c"
    "8 \<le> n \<Longrightarrow> \<exists>k < 8. s ! (c + k) \<noteq> (if bt then 0 else 0xFF)"
  proof (cases found)
    case True
    have "\<exists>k < 8. s ! (c1 + k) \<noteq> (if bt then 0 else 0xFF)"
      using 1(4) True by (intro exI [of _ "0 :: nat"]) simp
    then show ?thesis using that [of c1 n1] 1 True by simp
  next
    case False
    then show ?thesis
      using bitpos_words_total [of c1 n1 s bt] that 1 assms by auto
  qed
  have len: "c + n \<le> length s" using 2 assms by simp
  obtain W where W: "bitpos_load s c n 8 0 = Some W"
    "\<And>m. m < 64 \<Longrightarrow> bit W m \<longleftrightarrow> 63 - m < 8 * n \<and> bitmap_bit s (8 * c + (63 - m))"
    using bitpos_load_bits [OF len, of 8 0] by auto
  have Wi: "bit W (63 - i) \<longleftrightarrow> i < 8 * n \<and> bitmap_bit s (8 * c + i)" if "i < 64" for i
    using W(2) [of "63 - i"] that by simp
  have ex: "8 \<le> n \<Longrightarrow> \<exists>i < 64. bitmap_bit s (8 * c + i) = bt"
    using 2(4) byte_differs_at by blast
  show ?thesis
    using scan_word [OF len 2(3) ex Wi] 1(1) 2(1,2) W(1)
    unfolding redisBitpos_def scan_start by (simp split del: if_split)
qed

theorem redisBitpos_exact_witness:
  "redisBitpos (replicate 9 255 @ [7]) 3 10 False = Some (first_bit (replicate 9 255 @ [7]) 10 False)"
  using redisBitpos_exact [of 10 "replicate 9 255 @ [7]" 3 False] by simp

section \<open>Integers of arbitrary size inside a bitmap\<close>

function setUnsignedBitfield_loop :: "bytes \<Rightarrow> nat \<Rightarrow> nat \<Rightarrow> u64 \<Rightarrow> nat \<Rightarrow> bytes option" where
  "setUnsignedBitfield_loop p offset bits val j =
     (if j < bits
      then do {
        let bitval = (if val AND push_bit (bits - 1 - j) 1 \<noteq> 0 then 1 else 0 :: u64);
        let byte = drop_bit 3 offset;
        let bt = 7 - (offset AND 7);
        b \<leftarrow> rd p byte;
        let byteval = ucast b AND NOT (push_bit bt 1);
        let byteval = byteval OR push_bit bt bitval;
        p \<leftarrow> wr p byte (ucast (byteval AND 0xff));
        setUnsignedBitfield_loop p (offset + 1) bits val (j + 1) }
      else Some p)"
  by pat_completeness auto
termination by (relation "measure (\<lambda>(p, offset, bits, val, j). bits - j)") auto

declare setUnsignedBitfield_loop.simps [simp del]

text \<open>Fields have at most 64 bits; beyond that the shift of the value is undefined in C.\<close>

definition setUnsignedBitfield :: "bytes \<Rightarrow> nat \<Rightarrow> nat \<Rightarrow> u64 \<Rightarrow> bytes option" where
  "setUnsignedBitfield p offset bits val = setUnsignedBitfield_loop p offset bits val 0"

definition setSignedBitfield :: "bytes \<Rightarrow> nat \<Rightarrow> nat \<Rightarrow> int \<Rightarrow> bytes option" where
  "setSignedBitfield p offset bits val = setUnsignedBitfield p offset bits (of_int val)"

function getUnsignedBitfield_loop :: "bytes \<Rightarrow> nat \<Rightarrow> nat \<Rightarrow> nat \<Rightarrow> u64 \<Rightarrow> u64 option" where
  "getUnsignedBitfield_loop p offset bits j val =
     (if j < bits
      then do {
        let byte = drop_bit 3 offset;
        let bt = 7 - (offset AND 7);
        b \<leftarrow> rd p byte;
        let bitval = drop_bit bt (ucast b) AND 1;
        getUnsignedBitfield_loop p (offset + 1) bits (j + 1) (push_bit 1 val OR bitval) }
      else Some val)"
  by pat_completeness auto
termination by (relation "measure (\<lambda>(p, offset, bits, j, val). bits - j)") auto

declare getUnsignedBitfield_loop.simps [simp del]

definition getUnsignedBitfield :: "bytes \<Rightarrow> nat \<Rightarrow> nat \<Rightarrow> u64 option" where
  "getUnsignedBitfield p offset bits = getUnsignedBitfield_loop p offset bits 0 0"

definition getSignedBitfield :: "bytes \<Rightarrow> nat \<Rightarrow> nat \<Rightarrow> int option" where
  "getSignedBitfield p offset bits = do {
     u \<leftarrow> getUnsignedBitfield p offset bits;
     Some (sint (if bits < 64 \<and> u AND push_bit (bits - 1) 1 \<noteq> 0 then u OR push_bit bits (- 1) else u)) }"

lemma offset_split: "drop_bit 3 (n :: nat) = n div 8" "n AND 7 = n mod (8 :: nat)"
  using take_bit_eq_mask [of 3 n] by (simp_all add: drop_bit_eq_div take_bit_eq_mod mask_numeral)

lemma set_bit_byte:
  assumes "bt < 8" and "k < 8"
  shows "bit (ucast ((((ucast (b :: u8) :: u64) AND NOT (push_bit bt 1)) OR
      push_bit bt (if v then 1 else 0)) AND 0xff) :: u8) k = (if k = bt then v else bit b k)"
proof -
  have "\<forall>k \<in> set [0..<8]. bit (0xff :: u64) k" by code_simp
  then have "bit (0xff :: u64) k" using assms(2) by simp
  then show ?thesis
    using assms by (auto simp: bit_ucast_iff bit_and_iff bit_or_iff bit_not_iff bit_push_bit_iff bit_1_iff bit_exp_iff)
qed

lemma bitmap_update:
  assumes "offset < 8 * length p" and "i < 8 * length p"
    and "\<And>k. k < 8 \<Longrightarrow> bit b' k = (if k = 7 - offset mod 8 then v else bit (p ! (offset div 8)) k)"
  shows "bitmap_bit (p[offset div 8 := b']) i = (if i = offset then v else bitmap_bit p i)"
proof (cases "i div 8 = offset div 8")
  case True
  have "i = offset \<longleftrightarrow> 7 - i mod 8 = 7 - offset mod 8"
    using True div_mult_mod_eq [of i 8] div_mult_mod_eq [of offset 8]
      mod_less_divisor [of 8 i] mod_less_divisor [of 8 offset] by linarith
  then show ?thesis
    using True assms by (simp add: bitmap_bit_def div_less_iff_less_mult)
next
  case False
  then show ?thesis by (auto simp: bitmap_bit_def)
qed

lemma and_push_bit: "(w :: u64) AND push_bit n 1 \<noteq> 0 \<longleftrightarrow> bit w n"
  by (simp add: push_bit_of_1 and_exp_eq_0_iff_not_bit)

lemma setUnsignedBitfield_bits:
  assumes "offset + (bits - j) \<le> 8 * length p"
  shows "\<exists>p'. setUnsignedBitfield_loop p offset bits val j = Some p' \<and> length p' = length p \<and>
    (\<forall>i < 8 * length p. bitmap_bit p' i =
       (if offset \<le> i \<and> i < offset + (bits - j) then bit val (bits - 1 - j - (i - offset))
        else bitmap_bit p i))"
  using assms
proof (induction "bits - j" arbitrary: p offset j)
  case 0
  then show ?case by (subst setUnsignedBitfield_loop.simps) auto
next
  case (Suc d)
  let ?b = "ucast (((ucast (p ! (offset div 8)) :: u64) AND NOT (push_bit (7 - offset mod 8) 1) OR
      push_bit (7 - offset mod 8) (if bit val (bits - 1 - j) then 1 else 0)) AND 0xff) :: u8"
  let ?p = "p[offset div 8 := ?b]"
  have j: "j < bits" "bits - (j + 1) = d" using Suc.hyps(2) by simp_all
  have o: "offset < 8 * length p" using Suc.prems j by simp
  then have od: "offset div 8 < length p" by (simp add: div_less_iff_less_mult)
  have step: "setUnsignedBitfield_loop p offset bits val j =
      setUnsignedBitfield_loop ?p (offset + 1) bits val (j + 1)"
    using j(1) od
    by (subst setUnsignedBitfield_loop.simps)
      (simp add: Let_def rd_Some wr_Some offset_split and_exp_eq_0_iff_not_bit)
  have upd: "bitmap_bit ?p i = (if i = offset then bit val (bits - 1 - j) else bitmap_bit p i)"
    if "i < 8 * length p" for i
    by (rule bitmap_update [OF o that], rule set_bit_byte) simp_all
  obtain p' where p': "setUnsignedBitfield_loop ?p (offset + 1) bits val (j + 1) = Some p'"
    "length p' = length ?p" "\<forall>i < 8 * length ?p. bitmap_bit p' i =
       (if offset + 1 \<le> i \<and> i < offset + 1 + (bits - (j + 1))
        then bit val (bits - 1 - (j + 1) - (i - (offset + 1))) else bitmap_bit ?p i)"
  proof -
    have "offset + 1 + (bits - (j + 1)) \<le> 8 * length ?p" using Suc.prems j by simp
    from Suc.hyps(1) [OF j(2) [symmetric] this] show ?thesis using that by blast
  qed
  have "bitmap_bit p' i = (if offset \<le> i \<and> i < offset + (bits - j)
      then bit val (bits - 1 - j - (i - offset)) else bitmap_bit p i)" if "i < 8 * length p" for i
  proof -
    have "bitmap_bit p' i = (if offset + 1 \<le> i \<and> i < offset + 1 + (bits - (j + 1))
        then bit val (bits - 1 - (j + 1) - (i - (offset + 1))) else bitmap_bit ?p i)"
      using p'(3) that by simp
    also have "\<dots> = (if offset \<le> i \<and> i < offset + (bits - j)
      then bit val (bits - 1 - j - (i - offset)) else bitmap_bit p i)"
      unfolding upd [OF that] using j
      by (cases "i = offset") (auto intro!: arg_cong [of _ _ "bit val"])
    finally show ?thesis .
  qed
  then show ?case using step p' by simp
qed

lemma getUnsignedBitfield_bits:
  assumes "offset + (bits - j) \<le> 8 * length p"
  shows "\<exists>v. getUnsignedBitfield_loop p offset bits j val = Some v \<and>
    (\<forall>n < 64. bit v n = (if n < bits - j then bitmap_bit p (offset + (bits - j - 1 - n))
       else bit val (n - (bits - j))))"
  using assms
proof (induction "bits - j" arbitrary: offset j val)
  case 0
  then show ?case by (subst getUnsignedBitfield_loop.simps) auto
next
  case (Suc d)
  let ?v = "push_bit 1 val OR (drop_bit (7 - offset mod 8) (ucast (p ! (offset div 8))) AND 1)"
  have j: "j < bits" "bits - (j + 1) = d" using Suc.hyps(2) by simp_all
  have o: "offset div 8 < length p" using Suc.prems j by (simp add: div_less_iff_less_mult)
  have step: "getUnsignedBitfield_loop p offset bits j val =
      getUnsignedBitfield_loop p (offset + 1) bits (j + 1) ?v"
    using j(1) o by (subst getUnsignedBitfield_loop.simps) (simp add: Let_def rd_Some offset_split)
  obtain v where v: "getUnsignedBitfield_loop p (offset + 1) bits (j + 1) ?v = Some v"
    "\<forall>n < 64. bit v n = (if n < d then bitmap_bit p (offset + 1 + (d - 1 - n)) else bit ?v (n - d))"
  proof -
    have "offset + 1 + (bits - (j + 1)) \<le> 8 * length p" using Suc.prems j by simp
    from Suc.hyps(1) [OF j(2) [symmetric] this, of ?v, unfolded j(2)] show ?thesis using that by blast
  qed
  have bv: "bit ?v m = (if m = 0 then bitmap_bit p offset else bit val (m - 1))" if "m < 64" for m
    unfolding bit_or_iff bit_and_iff bit_push_bit_iff bit_drop_bit_eq bit_ucast_iff bit_1_iff bitmap_bit_def o_apply
    using that by (cases m) auto
  have "bit v n = (if n < bits - j then bitmap_bit p (offset + (bits - j - 1 - n))
       else bit val (n - (bits - j)))" if "n < 64" for n
  proof -
    have "bit v n = (if n < d then bitmap_bit p (offset + 1 + (d - 1 - n)) else
        (if n - d = 0 then bitmap_bit p offset else bit val (n - d - 1)))"
      using v(2) that bv [of "n - d"] by simp
    also have "\<dots> = (if n < bits - j then bitmap_bit p (offset + (bits - j - 1 - n))
       else bit val (n - (bits - j)))"
    proof -
      have "n < d \<Longrightarrow> offset + 1 + (d - 1 - n) = offset + (bits - j - 1 - n)"
        using Suc.hyps(2) by simp
      then show ?thesis
      using Suc.hyps(2) [symmetric] by (cases "n < d"; cases "n = d") auto
    qed
    finally show ?thesis .
  qed
  then show ?case using step v(1) by simp
qed

text \<open>
  C31. \<open>BITFIELD\<close> writes exactly the bits it is asked to: inside the bitmap,
  \<open>setUnsignedBitfield\<close> keeps the length of the buffer, stores the low \<open>bits\<close>
  bits of the value, most significant first, from bit \<open>offset\<close> on, and leaves every
  other bit of the bitmap as it was.
\<close>

theorem setUnsignedBitfield_frame:
  assumes "offset + bits \<le> 8 * length p"
  shows "\<exists>p'. setUnsignedBitfield p offset bits val = Some p' \<and> length p' = length p \<and>
    (\<forall>i < 8 * length p. bitmap_bit p' i =
       (if offset \<le> i \<and> i < offset + bits then bit val (bits - 1 - (i - offset)) else bitmap_bit p i))"
  using setUnsignedBitfield_bits [of offset bits 0 p val] assms
  unfolding setUnsignedBitfield_def by (simp only: diff_zero)

theorem setUnsignedBitfield_frame_witness:
  "\<exists>p'. setUnsignedBitfield [0, 0] 7 5 23 = Some p' \<and> length p' = length [0 :: u8, 0] \<and>
    (\<forall>i < 8 * length [0 :: u8, 0]. bitmap_bit p' i =
       (if 7 \<le> i \<and> i < 7 + 5 then bit (23 :: u64) (5 - 1 - (i - 7)) else bitmap_bit [0, 0] i))"
  using setUnsignedBitfield_frame [of 7 5 "[0, 0]" 23] by simp

lemma get_set_word:
  assumes "offset + bits \<le> 8 * length p"
  shows "\<exists>p'. setUnsignedBitfield p offset bits val = Some p' \<and>
    getUnsignedBitfield p' offset bits = Some (take_bit bits val)"
proof -
  obtain p' where p': "setUnsignedBitfield p offset bits val = Some p'" "length p' = length p"
    "\<forall>i < 8 * length p. bitmap_bit p' i =
       (if offset \<le> i \<and> i < offset + bits then bit val (bits - 1 - (i - offset)) else bitmap_bit p i)"
    using setUnsignedBitfield_bits [of offset bits 0 p val] assms
    unfolding setUnsignedBitfield_def diff_zero by blast
  obtain v where v: "getUnsignedBitfield p' offset bits = Some v"
    "\<forall>n < 64. bit v n = (n < bits \<and> bitmap_bit p' (offset + (bits - 1 - n)))"
    using getUnsignedBitfield_bits [of offset bits 0 p' 0] assms p'(2)
    by (auto simp: getUnsignedBitfield_def)
  have "v = take_bit bits val"
  proof (rule bit_word_eqI)
    fix n
    assume n: "n < LENGTH(64)"
    show "bit v n = bit (take_bit bits val) n"
    proof (cases "n < bits")
      case True
      then have "bitmap_bit p' (offset + (bits - 1 - n)) = bit val (bits - 1 - (bits - 1 - n))"
      proof -
        let ?i = "offset + (bits - 1 - n)"
        have "?i < 8 * length p" "offset \<le> ?i \<and> ?i < offset + bits" "?i - offset = bits - 1 - n"
          using True assms by auto
        then show ?thesis using p'(3) by metis
      qed
      then show ?thesis using True v(2) n by (simp add: bit_take_bit_iff)
    next
      case False
      then show ?thesis using v(2) n by (simp add: bit_take_bit_iff)
    qed
  qed
  then show ?thesis using p' v by blast
qed

text \<open>
  C32. A signed field reads back as it was written: for every width from 1 to 64 bits and every
  value of that width, at any offset inside the bitmap, \<open>getSignedBitfield\<close> returns
  what \<open>setSignedBitfield\<close> stored, sign included.
\<close>

theorem signed_bitfield_roundtrip:
  assumes "1 \<le> bits" and "bits \<le> 64" and "offset + bits \<le> 8 * length p"
    and "- (2 ^ (bits - 1)) \<le> val" and "val < 2 ^ (bits - 1)"
  shows "\<exists>p'. setSignedBitfield p offset bits val = Some p' \<and>
    getSignedBitfield p' offset bits = Some val"
proof -
  let ?w = "of_int val :: u64"
  obtain p' where p': "setSignedBitfield p offset bits val = Some p'"
    "getUnsignedBitfield p' offset bits = Some (take_bit bits ?w)"
    using get_set_word [OF assms(3), of ?w] by (auto simp: setSignedBitfield_def)
  have st: "signed_take_bit (bits - 1) val = val"
    using assms(4,5) by (simp add: signed_take_bit_int_eq_self)
  have bv: "bit ?w n = bit val (min (bits - 1) n)" if "n < 64" for n
    using that bit_signed_take_bit_iff [of "bits - 1" val n, unfolded st]
    by (simp add: bit_word_of_int_iff)
  let ?r = "if bits < 64 \<and> take_bit bits ?w AND push_bit (bits - 1) 1 \<noteq> 0
    then take_bit bits ?w OR push_bit bits (- 1) else take_bit bits ?w"
  have sign: "take_bit bits ?w AND push_bit (bits - 1) 1 \<noteq> 0 \<longleftrightarrow> bit val (bits - 1)"
    using assms(1,2) bv [of "bits - 1"] unfolding and_push_bit by (simp add: bit_take_bit_iff)
  have "?r = ?w"
  proof (rule bit_word_eqI)
    fix n
    assume "n < LENGTH(64)"
    then show "bit ?r n = bit ?w n"
      using bv [of n] assms(1,2) unfolding sign
      by (auto simp: bit_take_bit_iff bit_or_iff bit_push_bit_iff bit_not_iff bit_mask_iff min_def)
  qed
  moreover have "sint ?w = val"
  proof -
    have "(2 :: int) ^ (bits - 1) \<le> 2 ^ 63" using assms(2) by (intro power_increasing) auto
    then have "- (2 ^ 63) \<le> val" "val < 2 ^ 63" using assms(4,5) by linarith+
    then show ?thesis by (simp add: sint_sbintrunc' signed_take_bit_int_eq_self)
  qed
  ultimately show ?thesis using p' by (simp add: getSignedBitfield_def)
qed

theorem signed_bitfield_roundtrip_witness:
  "\<exists>p'. setSignedBitfield [255, 0, 1] 3 5 (- 7) = Some p' \<and> getSignedBitfield p' 3 5 = Some (- 7)"
  using signed_bitfield_roundtrip [of 5 3 "[255, 0, 1]" "- 7"] by simp

section \<open>Overflow of a bitfield increment\<close>

datatype bfoverflow = BFOVERFLOW_WRAP | BFOVERFLOW_SAT | BFOVERFLOW_FAIL

text \<open>
  The return value and the out parameter. \<open>limit\<close> is \<open>None\<close> for a null pointer and otherwise the
  contents it points to, before and after the call. An \<open>int64_t\<close> is an integer; the
  conversions to and from \<open>uint64_t\<close> are \<open>sint\<close> and \<open>of_int\<close>.
\<close>

definition checkUnsignedBitfieldOverflow ::
  "u64 \<Rightarrow> int \<Rightarrow> nat \<Rightarrow> bfoverflow \<Rightarrow> u64 option \<Rightarrow> int \<times> u64 option" where
  "checkUnsignedBitfieldOverflow val incr bits owtype limit =
     (let mx = (if bits = 64 then - 1 else push_bit bits 1 - 1);
          maxincr = sint (mx - val);
          minincr = sint (- val);
          wrapped = (let mask = push_bit bits (- 1); res = val + of_int incr in res AND NOT mask)
      in if val > mx \<or> (incr > 0 \<and> incr > maxincr)
         then (case limit of
             None \<Rightarrow> (1, None)
           | Some l \<Rightarrow> (case owtype of
               BFOVERFLOW_WRAP \<Rightarrow> (1, Some wrapped)
             | BFOVERFLOW_SAT \<Rightarrow> (1, Some mx)
             | BFOVERFLOW_FAIL \<Rightarrow> (1, Some l)))
         else if incr < 0 \<and> incr < minincr
         then (case limit of
             None \<Rightarrow> (- 1, None)
           | Some l \<Rightarrow> (case owtype of
               BFOVERFLOW_WRAP \<Rightarrow> (1, Some wrapped)
             | BFOVERFLOW_SAT \<Rightarrow> (- 1, Some 0)
             | BFOVERFLOW_FAIL \<Rightarrow> (- 1, Some l)))
         else (0, limit))"

text \<open>
  In the signed version \<open>min-value\<close> is computed at type \<open>int64_t\<close> and can
  overflow, which the code relies on being harmless; the model gives it the two's complement
  result, and the theorem below shows that the value is not used then.
\<close>

definition wrap64 :: "int \<Rightarrow> int" where
  "wrap64 x = sint (of_int x :: u64)"

definition checkSignedBitfieldOverflow ::
  "int \<Rightarrow> int \<Rightarrow> nat \<Rightarrow> bfoverflow \<Rightarrow> int option \<Rightarrow> int \<times> int option" where
  "checkSignedBitfieldOverflow val incr bits owtype limit =
     (let mx = (if bits = 64 then 2 ^ 63 - 1 else 2 ^ (bits - 1) - 1 :: int);
          mn = - mx - 1;
          maxincr = wrap64 (mx - val);
          minincr = wrap64 (mn - val);
          wrapped = (let msb = push_bit (bits - 1) 1 :: u64;
                         c = of_int val + of_int incr;
                         mask = push_bit bits (- 1);
                         c = (if bits < 64 then if c AND msb \<noteq> 0 then c OR mask else c AND NOT mask else c)
                     in sint c)
      in if val > mx \<or> (bits \<noteq> 64 \<and> incr > maxincr) \<or> (val \<ge> 0 \<and> incr > 0 \<and> incr > maxincr)
         then (case limit of
             None \<Rightarrow> (1, None)
           | Some l \<Rightarrow> (case owtype of
               BFOVERFLOW_WRAP \<Rightarrow> (1, Some wrapped)
             | BFOVERFLOW_SAT \<Rightarrow> (1, Some mx)
             | BFOVERFLOW_FAIL \<Rightarrow> (1, Some l)))
         else if val < mn \<or> (bits \<noteq> 64 \<and> incr < minincr) \<or> (val < 0 \<and> incr < 0 \<and> incr < minincr)
         then (case limit of
             None \<Rightarrow> (- 1, None)
           | Some l \<Rightarrow> (case owtype of
               BFOVERFLOW_WRAP \<Rightarrow> (1, Some wrapped)
             | BFOVERFLOW_SAT \<Rightarrow> (- 1, Some mn)
             | BFOVERFLOW_FAIL \<Rightarrow> (- 1, Some l)))
         else (0, limit))"

lemma sint_of_int64:
  assumes "- (2 ^ 63) \<le> v" and "v < 2 ^ 63"
  shows "sint (of_int v :: u64) = v"
  using assms by (simp add: sint_sbintrunc' signed_take_bit_int_eq_self)

lemma wrap64_exact: "- (2 ^ 63) \<le> v \<Longrightarrow> v < 2 ^ 63 \<Longrightarrow> wrap64 v = v"
  unfolding wrap64_def by (rule sint_of_int64)

lemma mask_low: "(w :: u64) AND NOT (push_bit n (- 1)) = take_bit n w"
  by (rule bit_word_eqI) (auto simp: bit_and_iff bit_not_iff bit_push_bit_iff bit_take_bit_iff bit_mask_iff)

lemma half_power: "bits \<le> 63 \<Longrightarrow> (2 :: int) ^ bits \<le> 2 ^ 63"
  by (rule power_increasing) auto

lemma unsigned_limits:
  assumes "bits \<le> 63" and "0 \<le> v" and "v < 2 ^ bits"
  shows "sint ((push_bit bits 1 - 1) - of_int v :: u64) = 2 ^ bits - 1 - v"
    and "sint (- of_int v :: u64) = - v"
    and "int (unat (push_bit bits 1 - 1 :: u64)) = 2 ^ bits - 1"
proof -
  have w: "push_bit bits 1 - 1 = (of_int (2 ^ bits - 1) :: u64)" by (simp add: push_bit_of_1)
  show "sint ((push_bit bits 1 - 1) - of_int v :: u64) = 2 ^ bits - 1 - v"
  proof -
    have "(push_bit bits 1 - 1) - of_int v = (of_int (2 ^ bits - 1 - v) :: u64)" unfolding w by simp
    then show ?thesis using half_power [OF assms(1)] assms(2,3) by (simp only:) (rule sint_of_int64; linarith)
  qed
  show "sint (- of_int v :: u64) = - v"
  proof -
    have "- of_int v = (of_int (- v) :: u64)" by simp
    then show ?thesis using half_power [OF assms(1)] assms(2,3) by (simp only:) (rule sint_of_int64; linarith)
  qed
  have "(2 :: int) ^ bits - 1 < 2 ^ 64" "(0 :: int) \<le> 2 ^ bits - 1"
    using half_power [OF assms(1)] by simp_all
  then show "int (unat (push_bit bits 1 - 1 :: u64)) = 2 ^ bits - 1"
    unfolding w of_nat_unat uint_word_of_int by simp
qed

lemma wrap_unsigned:
  "take_bit n (of_int v + of_int d :: u64) = of_int ((v + d) mod 2 ^ n)" if "n \<le> 64"
proof (rule bit_word_eqI)
  fix k
  assume "k < LENGTH(64)"
  then show "bit (take_bit n (of_int v + of_int d :: u64)) k = bit (of_int ((v + d) mod 2 ^ n) :: u64) k"
    unfolding of_int_add [symmetric] take_bit_eq_mod [symmetric]
    by (auto simp: bit_take_bit_iff bit_word_of_int_iff simp del: of_int_add)
qed

lemma unsigned_overflow_cases:
  assumes "bits \<le> 63" and "0 \<le> v" and "v < 2 ^ bits"
  shows "checkUnsignedBitfieldOverflow (of_int v) incr bits owtype limit =
    (if 2 ^ bits \<le> v + incr
     then (1, map_option (\<lambda>l. case owtype of BFOVERFLOW_WRAP \<Rightarrow> of_int ((v + incr) mod 2 ^ bits)
        | BFOVERFLOW_SAT \<Rightarrow> of_int (2 ^ bits - 1) | BFOVERFLOW_FAIL \<Rightarrow> l) limit)
     else if v + incr < 0
     then (if limit \<noteq> None \<and> owtype = BFOVERFLOW_WRAP then 1 else - 1,
        map_option (\<lambda>l. case owtype of BFOVERFLOW_WRAP \<Rightarrow> of_int ((v + incr) mod 2 ^ bits)
        | BFOVERFLOW_SAT \<Rightarrow> 0 | BFOVERFLOW_FAIL \<Rightarrow> l) limit)
     else (0, limit))"
proof -
  have b: "bits \<noteq> 64" using assms(1) by simp
  have uv: "int (unat (of_int v :: u64)) = v"
    using half_power [OF assms(1)] assms(2,3) unfolding of_nat_unat uint_word_of_int by simp
  have le: "\<not> (push_bit bits 1 - 1 < (of_int v :: u64))"
    using unsigned_limits(3) [OF assms(1-3)] uv assms(3) by (simp add: word_less_def)
  have mx: "push_bit bits 1 - 1 = (of_int (2 ^ bits - 1) :: u64)" by (simp add: push_bit_of_1)
  have wr: "(of_int v + of_int incr :: u64) AND NOT (push_bit bits (- 1)) = of_int ((v + incr) mod 2 ^ bits)"
    unfolding mask_low using assms(1) by (intro wrap_unsigned) simp
  have over: "(incr > 0 \<and> incr > 2 ^ bits - 1 - v) \<longleftrightarrow> 2 ^ bits \<le> v + incr"
    and under: "(incr < 0 \<and> incr < - v) \<longleftrightarrow> v + incr < 0"
    using assms(2,3) by auto
  show ?thesis
    unfolding checkUnsignedBitfieldOverflow_def Let_def if_not_P [OF b]
      unsigned_limits(1) [OF assms(1-3)] unsigned_limits(2) [OF assms(1-3)] wr over under
    using le unfolding mx by (cases owtype; cases limit) simp_all
qed

text \<open>
  C33. Unsigned increments of \<open>BITFIELD\<close> detect overflow exactly: for a field of at most
  63 bits holding \<open>v\<close> and any increment, the result is 0 exactly when the sum
  fits the field, and then the output is left alone. Otherwise saturation stores the nearest
  bound, wrapping stores the sum modulo the field size, and failing leaves the output alone. An
  overflow is reported by 1; an underflow is reported by -1 when nothing is wrapped and by some
  non-zero result when the value is wrapped.
\<close>

theorem checkUnsignedBitfieldOverflow_detects:
  assumes "bits \<le> 63" and "0 \<le> v" and "v < 2 ^ bits"
  shows "\<exists>r limit'. checkUnsignedBitfieldOverflow (of_int v) incr bits owtype limit = (r, limit') \<and>
    (r = 0 \<longleftrightarrow> 0 \<le> v + incr \<and> v + incr < 2 ^ bits) \<and>
    (2 ^ bits \<le> v + incr \<longrightarrow> r = 1) \<and>
    (v + incr < 0 \<and> (limit = None \<or> owtype \<noteq> BFOVERFLOW_WRAP) \<longrightarrow> r = - 1) \<and>
    limit' = (if r = 0 then limit else map_option (\<lambda>l. case owtype of
        BFOVERFLOW_WRAP \<Rightarrow> of_int ((v + incr) mod 2 ^ bits)
      | BFOVERFLOW_SAT \<Rightarrow> if v + incr < 0 then 0 else of_int (2 ^ bits - 1)
      | BFOVERFLOW_FAIL \<Rightarrow> l) limit)"
  unfolding unsigned_overflow_cases [OF assms] using assms(2,3)
  by (cases owtype; cases limit) auto

theorem checkUnsignedBitfieldOverflow_detects_witness:
  "snd (checkUnsignedBitfieldOverflow (of_int 250) 10 8 BFOVERFLOW_SAT (Some 7)) = Some (of_int (2 ^ 8 - 1)) \<and>
   snd (checkUnsignedBitfieldOverflow (of_int 3) (- 5) 8 BFOVERFLOW_WRAP (Some 7)) = Some (of_int 254)"
  using checkUnsignedBitfieldOverflow_detects [of 8 250 10 BFOVERFLOW_SAT "Some 7"]
    checkUnsignedBitfieldOverflow_detects [of 8 3 "- 5" BFOVERFLOW_WRAP "Some 7"]
  by auto

lemma wrap_signed:
  assumes "1 \<le> bits" and "bits \<le> 64"
  shows "sint (let msb = push_bit (bits - 1) 1 :: u64; c = of_int v + of_int d; mask = push_bit bits (- 1);
      c = (if bits < 64 then if c AND msb \<noteq> 0 then c OR mask else c AND NOT mask else c) in c) =
    signed_take_bit (bits - 1) (v + d)"
proof -
  let ?c = "of_int (v + d) :: u64"
  have msb: "?c AND push_bit (bits - 1) 1 \<noteq> 0 \<longleftrightarrow> bit (v + d) (bits - 1)"
  proof -
    have "bits - 1 < 64" using assms by simp
    then show ?thesis
      by (simp add: push_bit_of_1 and_exp_eq_0_iff_not_bit bit_word_of_int_iff del: of_int_add)
  qed
  have "(if bits < 64 then if ?c AND push_bit (bits - 1) 1 \<noteq> 0 then ?c OR push_bit bits (- 1)
      else ?c AND NOT (push_bit bits (- 1)) else ?c) = of_int (signed_take_bit (bits - 1) (v + d))"
  proof (rule bit_word_eqI)
    fix k
    assume "k < LENGTH(64)"
    then show "bit (if bits < 64 then if ?c AND push_bit (bits - 1) 1 \<noteq> 0 then ?c OR push_bit bits (- 1)
        else ?c AND NOT (push_bit bits (- 1)) else ?c) k =
      bit (of_int (signed_take_bit (bits - 1) (v + d)) :: u64) k"
      unfolding msb using assms
      by (auto simp: bit_word_of_int_iff bit_signed_take_bit_iff bit_or_iff bit_and_iff bit_not_iff
          bit_push_bit_iff bit_mask_iff min_def simp del: of_int_add dest: order_antisym)
  qed
  moreover have "sint (of_int (signed_take_bit (bits - 1) (v + d)) :: u64) = signed_take_bit (bits - 1) (v + d)"
    using assms unfolding sint_sbintrunc'
    by (cases "bits = 64") (auto simp: signed_take_bit_signed_take_bit min_def)
  ultimately show ?thesis unfolding Let_def of_int_add [symmetric] by (simp only:)
qed

lemma signed_overflow_cases:
  assumes "1 \<le> bits" and "bits \<le> 64" and "- (2 ^ (bits - 1)) \<le> v" and "v < 2 ^ (bits - 1)"
    and "is_int64 incr"
  shows "checkSignedBitfieldOverflow v incr bits owtype limit =
    (if 2 ^ (bits - 1) \<le> v + incr
     then (1, map_option (\<lambda>l. case owtype of BFOVERFLOW_WRAP \<Rightarrow> signed_take_bit (bits - 1) (v + incr)
        | BFOVERFLOW_SAT \<Rightarrow> 2 ^ (bits - 1) - 1 | BFOVERFLOW_FAIL \<Rightarrow> l) limit)
     else if v + incr < - (2 ^ (bits - 1))
     then (if limit \<noteq> None \<and> owtype = BFOVERFLOW_WRAP then 1 else - 1,
        map_option (\<lambda>l. case owtype of BFOVERFLOW_WRAP \<Rightarrow> signed_take_bit (bits - 1) (v + incr)
        | BFOVERFLOW_SAT \<Rightarrow> - (2 ^ (bits - 1)) | BFOVERFLOW_FAIL \<Rightarrow> l) limit)
     else (0, limit))"
proof -
  define M where "M = (2 :: int) ^ (bits - 1)"
  have mx: "(if bits = 64 then 2 ^ 63 - 1 else 2 ^ (bits - 1) - 1) = M - 1"
    by (simp add: M_def)
  have v: "- M \<le> v" "v < M" using assms(3,4) by (simp_all add: M_def)
  have i: "- (2 ^ 63) \<le> incr" "incr < 2 ^ 63" using assms(5) by (simp_all add: is_int64_def)
  have Mle: "M \<le> 2 ^ 63" unfolding M_def using assms(2) by (intro power_increasing) auto
  have Mlt: "2 * M \<le> 2 ^ 63" if "bits \<noteq> 64"
  proof -
    have "2 * M = 2 ^ bits" using assms(1) by (simp add: M_def flip: power_Suc)
    then show ?thesis using half_power [of bits] assms(2) that by simp
  qed
  have M64: "M = 2 ^ 63" if "bits = 64" using that by (simp add: M_def)
  have e: "wrap64 (M - 1 - v) = M - 1 - v" "wrap64 (- (M - 1) - 1 - v) = - M - v" if "bits \<noteq> 64"
    using Mlt [OF that] v by (subst wrap64_exact; linarith)+
  have e64: "0 \<le> v \<Longrightarrow> wrap64 (M - 1 - v) = M - 1 - v" "v < 0 \<Longrightarrow> wrap64 (- (M - 1) - 1 - v) = - M - v"
    using Mle v by (subst wrap64_exact; linarith)+
  have over: "(v > M - 1 \<or> (bits \<noteq> 64 \<and> incr > wrap64 (M - 1 - v)) \<or>
      (v \<ge> 0 \<and> incr > 0 \<and> incr > wrap64 (M - 1 - v))) \<longleftrightarrow> M \<le> v + incr"
    using v i e e64 M64 by (cases "bits = 64"; cases "0 \<le> v") auto
  have under: "(v < - (M - 1) - 1 \<or> (bits \<noteq> 64 \<and> incr < wrap64 (- (M - 1) - 1 - v)) \<or>
      (v < 0 \<and> incr < 0 \<and> incr < wrap64 (- (M - 1) - 1 - v))) \<longleftrightarrow> v + incr < - M"
    using v i e e64 M64 by (cases "bits = 64"; cases "0 \<le> v") auto
  show ?thesis
    using wrap_signed [OF assms(1,2), of v incr]
    unfolding checkSignedBitfieldOverflow_def Let_def
    unfolding mx
    unfolding over under
    unfolding M_def [symmetric]
    by (cases owtype; cases limit) simp_all
qed

text \<open>
  C34. Signed increments of \<open>BITFIELD\<close> detect overflow exactly, at every width from 1 to
  64 bits: the result is 0 exactly when the sum fits the field, saturation stores the nearest
  bound, wrapping stores the two's complement truncation of the sum, and failing leaves the output
  alone. An overflow is reported by 1; an underflow is reported by -1 when nothing is wrapped and
  by some non-zero result when the value is wrapped. The differences \<open>max-value\<close> and \<open>min-value\<close>
  that the code computes are never used where they do not fit 64 bits.
\<close>

theorem checkSignedBitfieldOverflow_detects:
  assumes "1 \<le> bits" and "bits \<le> 64" and "- (2 ^ (bits - 1)) \<le> v" and "v < 2 ^ (bits - 1)"
    and "is_int64 incr"
  shows "\<exists>r limit'. checkSignedBitfieldOverflow v incr bits owtype limit = (r, limit') \<and>
    (r = 0 \<longleftrightarrow> - (2 ^ (bits - 1)) \<le> v + incr \<and> v + incr < 2 ^ (bits - 1)) \<and>
    (2 ^ (bits - 1) \<le> v + incr \<longrightarrow> r = 1) \<and>
    (v + incr < - (2 ^ (bits - 1)) \<and> (limit = None \<or> owtype \<noteq> BFOVERFLOW_WRAP) \<longrightarrow> r = - 1) \<and>
    limit' = (if r = 0 then limit else map_option (\<lambda>l. case owtype of
        BFOVERFLOW_WRAP \<Rightarrow> signed_take_bit (bits - 1) (v + incr)
      | BFOVERFLOW_SAT \<Rightarrow> if v + incr < 0 then - (2 ^ (bits - 1)) else 2 ^ (bits - 1) - 1
      | BFOVERFLOW_FAIL \<Rightarrow> l) limit)"
proof -
  define M where "M = (2 :: int) ^ (bits - 1)"
  have "0 < M" by (simp add: M_def)
  then show ?thesis
    unfolding signed_overflow_cases [OF assms] M_def [symmetric] by (cases owtype; cases limit) auto
qed

theorem checkSignedBitfieldOverflow_detects_witness:
  "snd (checkSignedBitfieldOverflow (- 100) (- 50) 8 BFOVERFLOW_WRAP (Some 0)) = Some 106 \<and>
   snd (checkSignedBitfieldOverflow (- 100) (- 50) 8 BFOVERFLOW_SAT (Some 0)) = Some (- 128)"
proof -
  have "signed_take_bit (8 - 1) (- 100 + - 50 :: int) = 106" by code_simp
  then show ?thesis
    using checkSignedBitfieldOverflow_detects [of 8 "- 100" "- 50" BFOVERFLOW_WRAP "Some 0"]
      checkSignedBitfieldOverflow_detects [of 8 "- 100" "- 50" BFOVERFLOW_SAT "Some 0"]
    by (auto simp: is_int64_def)
qed

text \<open>The comment over the two functions promises -1 for an underflow; wrapping one returns 1.\<close>

lemma wrap_underflow_returns_1:
  "bits \<le> 63 \<Longrightarrow> 0 \<le> v \<Longrightarrow> v < 2 ^ bits \<Longrightarrow> v + incr < 0 \<Longrightarrow>
     fst (checkUnsignedBitfieldOverflow (of_int v) incr bits BFOVERFLOW_WRAP (Some u)) = 1"
  "1 \<le> bits \<Longrightarrow> bits \<le> 64 \<Longrightarrow> - (2 ^ (bits - 1)) \<le> v \<Longrightarrow> v < 2 ^ (bits - 1) \<Longrightarrow> is_int64 incr \<Longrightarrow>
     v + incr < - (2 ^ (bits - 1)) \<Longrightarrow> fst (checkSignedBitfieldOverflow v incr bits BFOVERFLOW_WRAP (Some l)) = 1"
  by (simp_all add: unsigned_overflow_cases signed_overflow_cases)

end
