(* ===== verification/Sds.thy ===== *)
theory Sds
  imports Redis_Prelude
begin

text \<open>
  The dynamic strings of \<open>src/sds.c\<close> and \<open>src/sds.h\<close>: the five header types,
  creation, growth and resizing, the operations on the contents, quoting with
  \<open>sdscatrepr\<close>, parsing of command lines with \<open>sdssplitargs\<close>, splitting and
  joining. \<open>sds_rep\<close> relates a string with its header and memory block to the bytes it
  holds; every operation is shown to keep that relation, which makes the whole library a
  refinement of plain byte lists.
\<close>

section \<open>Representation\<close>

datatype sdstype = SDS_TYPE_5 | SDS_TYPE_8 | SDS_TYPE_16 | SDS_TYPE_32 | SDS_TYPE_64

text \<open>
  A string as its header says it is: the header type of the flags byte, the fields
  \<open>len\<close> and \<open>alloc\<close> (a type 5 header has no \<open>alloc\<close>), and the memory
  that starts at the string pointer and ends at the end of the allocation.
\<close>

record sds =
  sds_type :: sdstype
  sds_hlen :: nat
  sds_halloc :: nat
  sds_buf :: bytes

datatype sds_init = INIT_NULL | SDS_NOINIT | INIT bytes

fun sdsHdrSize :: "sdstype \<Rightarrow> nat" where
  "sdsHdrSize SDS_TYPE_5 = 1"
| "sdsHdrSize SDS_TYPE_8 = 3"
| "sdsHdrSize SDS_TYPE_16 = 5"
| "sdsHdrSize SDS_TYPE_32 = 9"
| "sdsHdrSize SDS_TYPE_64 = 17"

definition sdsReqType :: "nat \<Rightarrow> sdstype" where
  "sdsReqType string_size =
     (if string_size < 2 ^ 5 then SDS_TYPE_5
      else if string_size < 2 ^ 8 then SDS_TYPE_8
      else if string_size < 2 ^ 16 then SDS_TYPE_16
      else if string_size < 2 ^ 32 then SDS_TYPE_32
      else SDS_TYPE_64)"

fun sdsTypeMaxSize :: "sdstype \<Rightarrow> nat" where
  "sdsTypeMaxSize SDS_TYPE_5 = 2 ^ 5 - 1"
| "sdsTypeMaxSize SDS_TYPE_8 = 2 ^ 8 - 1"
| "sdsTypeMaxSize SDS_TYPE_16 = 2 ^ 16 - 1"
| "sdsTypeMaxSize SDS_TYPE_32 = 2 ^ 32 - 1"
| "sdsTypeMaxSize SDS_TYPE_64 = 2 ^ 64 - 1"

text \<open>The header fields: each store truncates to the width of the field.\<close>

definition sdslen :: "sds \<Rightarrow> nat" where
  "sdslen s = sds_hlen s"

definition sdsavail :: "sds \<Rightarrow> nat" where
  "sdsavail s = (case sds_type s of SDS_TYPE_5 \<Rightarrow> 0 | _ \<Rightarrow> sds_halloc s - sds_hlen s)"

definition sdssetlen :: "sds \<Rightarrow> nat \<Rightarrow> sds" where
  "sdssetlen s newlen = s\<lparr>sds_hlen := newlen mod (sdsTypeMaxSize (sds_type s) + 1)\<rparr>"

definition sdsinclen :: "sds \<Rightarrow> nat \<Rightarrow> sds" where
  "sdsinclen s inc = s\<lparr>sds_hlen := (sds_hlen s + inc) mod (sdsTypeMaxSize (sds_type s) + 1)\<rparr>"

definition sdsalloc :: "sds \<Rightarrow> nat" where
  "sdsalloc s = (case sds_type s of SDS_TYPE_5 \<Rightarrow> sds_hlen s | _ \<Rightarrow> sds_halloc s)"

definition sdssetalloc :: "sds \<Rightarrow> nat \<Rightarrow> sds" where
  "sdssetalloc s newlen = (case sds_type s of
      SDS_TYPE_5 \<Rightarrow> s
    | _ \<Rightarrow> s\<lparr>sds_halloc := newlen mod (sdsTypeMaxSize (sds_type s) + 1)\<rparr>)"

text \<open>Stores into the string: one byte, and a block of bytes.\<close>

definition sds_put :: "sds \<Rightarrow> nat \<Rightarrow> u8 \<Rightarrow> sds option" where
  "sds_put s i b = do { m \<leftarrow> wr (sds_buf s) i b; Some (s\<lparr>sds_buf := m\<rparr>) }"

definition sds_copy :: "sds \<Rightarrow> nat \<Rightarrow> bytes \<Rightarrow> sds option" where
  "sds_copy s i t = do { m \<leftarrow> mem_write (sds_buf s) i t; Some (s\<lparr>sds_buf := m\<rparr>) }"

section \<open>Creation and growth\<close>

text \<open>
  The allocator is a parameter: a request of \<open>n\<close> bytes returns a block of
  \<open>us n\<close> usable bytes with contents \<open>junk\<close>. \<open>oom\<close> says whether the
  fallible variant of the allocator fails; the other variant ends the process instead of
  returning NULL.
\<close>

definition sdsnewlen_type :: "nat \<Rightarrow> sdstype" where
  "sdsnewlen_type initlen =
     (let type = sdsReqType initlen
      in if type = SDS_TYPE_5 \<and> initlen = 0 then SDS_TYPE_8 else type)"

definition sdsnewlen' ::
  "(nat \<Rightarrow> nat) \<Rightarrow> (nat \<Rightarrow> u8) \<Rightarrow> sds_init \<Rightarrow> nat \<Rightarrow> bool \<Rightarrow> bool \<Rightarrow> sds option option" where
  "sdsnewlen' us junk init initlen trymalloc oom =
     (let type = sdsnewlen_type initlen; hdrlen = sdsHdrSize type
      in do {
        c_assert (initlen < wadd 64 (wadd 64 initlen hdrlen) 1);
        if trymalloc \<and> oom then Some None
        else do {
          let req = hdrlen + initlen + 1;
          let m = map junk [hdrlen..<us req];
          m \<leftarrow> (case init of
              INIT_NULL \<Rightarrow> mem_write m 0 (replicate (initlen + 1) 0)
            | _ \<Rightarrow> Some m);
          let usable = us req - hdrlen - 1;
          let usable = min usable (sdsTypeMaxSize type);
          let s = \<lparr>sds_type = type, sds_hlen = initlen, sds_halloc = usable, sds_buf = m\<rparr>;
          s \<leftarrow> (case init of
              INIT xs \<Rightarrow> if initlen \<noteq> 0 then sds_copy s 0 (take initlen xs) else Some s
            | _ \<Rightarrow> Some s);
          s \<leftarrow> sds_put s initlen 0;
          Some (Some s) } })"

definition sdsnewlen :: "(nat \<Rightarrow> nat) \<Rightarrow> (nat \<Rightarrow> u8) \<Rightarrow> sds_init \<Rightarrow> nat \<Rightarrow> sds option" where
  "sdsnewlen us junk init initlen = do { r \<leftarrow> sdsnewlen' us junk init initlen False False; r }"

definition sdstrynewlen ::
  "(nat \<Rightarrow> nat) \<Rightarrow> (nat \<Rightarrow> u8) \<Rightarrow> sds_init \<Rightarrow> nat \<Rightarrow> bool \<Rightarrow> sds option option" where
  "sdstrynewlen us junk init initlen oom = sdsnewlen' us junk init initlen True oom"

definition sdsempty :: "(nat \<Rightarrow> nat) \<Rightarrow> (nat \<Rightarrow> u8) \<Rightarrow> sds option" where
  "sdsempty us junk = sdsnewlen us junk (INIT []) 0"

text \<open>\<open>strlen\<close> of a C string given by the bytes from its start on.\<close>

fun strlen :: "bytes \<Rightarrow> nat option" where
  "strlen [] = None"
| "strlen (b # bs) = (if b = 0 then Some 0 else map_option Suc (strlen bs))"

definition sdsnew :: "(nat \<Rightarrow> nat) \<Rightarrow> (nat \<Rightarrow> u8) \<Rightarrow> bytes option \<Rightarrow> sds option" where
  "sdsnew us junk init = (case init of
      None \<Rightarrow> sdsnewlen us junk INIT_NULL 0
    | Some xs \<Rightarrow> do { n \<leftarrow> strlen xs; sdsnewlen us junk (INIT xs) n })"

definition sdsdup :: "(nat \<Rightarrow> nat) \<Rightarrow> (nat \<Rightarrow> u8) \<Rightarrow> sds \<Rightarrow> sds option" where
  "sdsdup us junk s = sdsnewlen us junk (INIT (sds_buf s)) (sdslen s)"

definition sdsupdatelen :: "sds \<Rightarrow> sds option" where
  "sdsupdatelen s = do { reallen \<leftarrow> strlen (sds_buf s); Some (sdssetlen s reallen) }"


definition SDS_MAX_PREALLOC :: nat where
  "SDS_MAX_PREALLOC = 1024 * 1024"

definition sdsMakeRoomFor' ::
  "(nat \<Rightarrow> nat) \<Rightarrow> (nat \<Rightarrow> u8) \<Rightarrow> sds \<Rightarrow> nat \<Rightarrow> bool \<Rightarrow> sds option" where
  "sdsMakeRoomFor' us junk s addlen greedy =
     (if addlen \<le> sdsavail s then Some s
      else do {
        let len = sdslen s;
        let oldtype = sds_type s;
        let reqlen = wadd 64 len addlen;
        c_assert (len < reqlen);
        let newlen =
          (if greedy then if reqlen < SDS_MAX_PREALLOC then 2 * reqlen else wadd 64 reqlen SDS_MAX_PREALLOC
           else reqlen);
        let type = (if sdsReqType newlen = SDS_TYPE_5 then SDS_TYPE_8 else sdsReqType newlen);
        let hdrlen = sdsHdrSize type;
        c_assert (reqlen < wadd 64 (wadd 64 hdrlen newlen) 1);
        let usable = us (hdrlen + newlen + 1);
        s \<leftarrow> (if oldtype = type
             then Some (s\<lparr>sds_buf := realloc junk (sds_buf s) (usable - hdrlen)\<rparr>)
             else do {
               old \<leftarrow> mem_read (sds_buf s) 0 (len + 1);
               m \<leftarrow> mem_write (map junk [hdrlen..<usable]) 0 old;
               Some (sdssetlen (s\<lparr>sds_type := type, sds_buf := m\<rparr>) len) });
        let usable = min (usable - hdrlen - 1) (sdsTypeMaxSize type);
        Some (sdssetalloc s usable) })"

definition sdsMakeRoomFor :: "(nat \<Rightarrow> nat) \<Rightarrow> (nat \<Rightarrow> u8) \<Rightarrow> sds \<Rightarrow> nat \<Rightarrow> sds option" where
  "sdsMakeRoomFor us junk s addlen = sdsMakeRoomFor' us junk s addlen True"

definition sdsMakeRoomForNonGreedy :: "(nat \<Rightarrow> nat) \<Rightarrow> (nat \<Rightarrow> u8) \<Rightarrow> sds \<Rightarrow> nat \<Rightarrow> sds option" where
  "sdsMakeRoomForNonGreedy us junk s addlen = sdsMakeRoomFor' us junk s addlen False"

text \<open>
  \<open>optimal\<close> stands for the allocator's answer that the block already has the best size
  for the request (jemalloc), in which case nothing is reallocated.
\<close>

fun sdstype_rank :: "sdstype \<Rightarrow> nat" where
  "sdstype_rank SDS_TYPE_5 = 0"
| "sdstype_rank SDS_TYPE_8 = 1"
| "sdstype_rank SDS_TYPE_16 = 2"
| "sdstype_rank SDS_TYPE_32 = 3"
| "sdstype_rank SDS_TYPE_64 = 4"

definition sdsResize ::
  "(nat \<Rightarrow> nat) \<Rightarrow> (nat \<Rightarrow> u8) \<Rightarrow> (nat \<Rightarrow> nat \<Rightarrow> bool) \<Rightarrow> sds \<Rightarrow> nat \<Rightarrow> bool \<Rightarrow> sds option" where
  "sdsResize us junk optimal s sz would_regrow =
     (if sdsalloc s = sz then Some s
      else do {
        let oldtype = sds_type s;
        let oldhdrlen = sdsHdrSize oldtype;
        let len = (if sz < sdslen s then sz else sdslen s);
        let type = sdsReqType sz;
        let type = (if would_regrow \<and> type = SDS_TYPE_5 then SDS_TYPE_8 else type);
        let hdrlen = sdsHdrSize type;
        let use_realloc =
          (oldtype = type \<or> (sdstype_rank type < sdstype_rank oldtype \<and> sdstype_rank SDS_TYPE_8 < sdstype_rank type));
        let newlen = (if use_realloc then oldhdrlen + sz + 1 else hdrlen + sz + 1);
        s \<leftarrow> (if use_realloc
             then if optimal newlen (oldhdrlen + length (sds_buf s)) then Some s
                  else Some (s\<lparr>sds_buf := realloc junk (sds_buf s) (us newlen - oldhdrlen)\<rparr>)
             else do {
               old \<leftarrow> mem_read (sds_buf s) 0 len;
               m \<leftarrow> mem_write (map junk [hdrlen..<us newlen]) 0 old;
               Some (s\<lparr>sds_type := type, sds_buf := m\<rparr>) });
        s \<leftarrow> sds_put s len 0;
        Some (sdssetalloc (sdssetlen s len) sz) })"

definition sdsRemoveFreeSpace ::
  "(nat \<Rightarrow> nat) \<Rightarrow> (nat \<Rightarrow> u8) \<Rightarrow> (nat \<Rightarrow> nat \<Rightarrow> bool) \<Rightarrow> sds \<Rightarrow> bool \<Rightarrow> sds option" where
  "sdsRemoveFreeSpace us junk optimal s would_regrow = sdsResize us junk optimal s (sdslen s) would_regrow"

definition sdsAllocSize :: "sds \<Rightarrow> nat" where
  "sdsAllocSize s = sdsHdrSize (sds_type s) + sdsalloc s + 1"

definition sdsIncrLen :: "sds \<Rightarrow> int \<Rightarrow> sds option" where
  "sdsIncrLen s incr =
     (let len = int (sds_hlen s); avail = int (sds_halloc s) - len; neg = (- incr) mod 2 ^ 32 in
      case sds_type s of
        SDS_TYPE_5 \<Rightarrow> do {
          c_assert ((incr > 0 \<and> len + incr < 32) \<or> (incr < 0 \<and> len \<ge> neg));
          sds_put (s\<lparr>sds_hlen := nat ((len + incr) mod 32)\<rparr>) (nat ((len + incr) mod 2 ^ 64)) 0 }
      | SDS_TYPE_8 \<Rightarrow> do {
          c_assert ((incr \<ge> 0 \<and> avail \<ge> incr) \<or> (incr < 0 \<and> len \<ge> neg));
          let l = nat ((len + incr) mod 2 ^ 8) in sds_put (s\<lparr>sds_hlen := l\<rparr>) l 0 }
      | SDS_TYPE_16 \<Rightarrow> do {
          c_assert ((incr \<ge> 0 \<and> avail \<ge> incr) \<or> (incr < 0 \<and> len \<ge> neg));
          let l = nat ((len + incr) mod 2 ^ 16) in sds_put (s\<lparr>sds_hlen := l\<rparr>) l 0 }
      | SDS_TYPE_32 \<Rightarrow> do {
          c_assert ((incr \<ge> 0 \<and> avail mod 2 ^ 32 \<ge> incr mod 2 ^ 32) \<or> (incr < 0 \<and> len \<ge> neg));
          let l = nat ((len + incr) mod 2 ^ 32) in sds_put (s\<lparr>sds_hlen := l\<rparr>) l 0 }
      | SDS_TYPE_64 \<Rightarrow> do {
          c_assert ((incr \<ge> 0 \<and> avail mod 2 ^ 64 \<ge> incr mod 2 ^ 64) \<or>
                    (incr < 0 \<and> len \<ge> (- incr) mod 2 ^ 64));
          let l = nat ((len + incr) mod 2 ^ 64) in sds_put (s\<lparr>sds_hlen := l\<rparr>) l 0 })"

section \<open>Contents\<close>


definition sdscatlen :: "(nat \<Rightarrow> nat) \<Rightarrow> (nat \<Rightarrow> u8) \<Rightarrow> sds \<Rightarrow> bytes \<Rightarrow> sds option" where
  "sdscatlen us junk s t =
     (let curlen = sdslen s; len = length t
      in do {
        s \<leftarrow> sdsMakeRoomFor us junk s len;
        s \<leftarrow> sds_copy s curlen t;
        sds_put (sdssetlen s (curlen + len)) (curlen + len) 0 })"

definition sdscat :: "(nat \<Rightarrow> nat) \<Rightarrow> (nat \<Rightarrow> u8) \<Rightarrow> sds \<Rightarrow> bytes \<Rightarrow> sds option" where
  "sdscat us junk s t = do { n \<leftarrow> strlen t; sdscatlen us junk s (take n t) }"

definition sdscatsds :: "(nat \<Rightarrow> nat) \<Rightarrow> (nat \<Rightarrow> u8) \<Rightarrow> sds \<Rightarrow> sds \<Rightarrow> sds option" where
  "sdscatsds us junk s t = do { xs \<leftarrow> mem_read (sds_buf t) 0 (sdslen t); sdscatlen us junk s xs }"

definition sdscpylen :: "(nat \<Rightarrow> nat) \<Rightarrow> (nat \<Rightarrow> u8) \<Rightarrow> sds \<Rightarrow> bytes \<Rightarrow> sds option" where
  "sdscpylen us junk s t =
     (let len = length t
      in do {
        s \<leftarrow> (if sdsalloc s < len then sdsMakeRoomFor us junk s (len - sdslen s) else Some s);
        s \<leftarrow> sds_copy s 0 t;
        s \<leftarrow> sds_put s len 0;
        Some (sdssetlen s len) })"

definition sdscpy :: "(nat \<Rightarrow> nat) \<Rightarrow> (nat \<Rightarrow> u8) \<Rightarrow> sds \<Rightarrow> bytes \<Rightarrow> sds option" where
  "sdscpy us junk s t = do { n \<leftarrow> strlen t; sdscpylen us junk s (take n t) }"






definition sdssubstr :: "sds \<Rightarrow> nat \<Rightarrow> nat \<Rightarrow> sds option" where
  "sdssubstr s start len =
     (let oldlen = sdslen s;
          len = (if oldlen \<le> start then 0 else len);
          start = (if oldlen \<le> start then 0 else start);
          len = (if oldlen - start < len then oldlen - start else len)
      in do {
        s \<leftarrow> (if len \<noteq> 0
             then do { m \<leftarrow> mem_move (sds_buf s) 0 start len; Some (s\<lparr>sds_buf := m\<rparr>) }
             else Some s);
        s \<leftarrow> sds_put s len 0;
        Some (sdssetlen s len) })"

definition sdsrange :: "sds \<Rightarrow> int \<Rightarrow> int \<Rightarrow> sds option" where
  "sdsrange s start stop =
     (let len = sdslen s
      in if len = 0 then Some s
         else let start = (if start < 0 then int len + start else start);
                  stop = (if stop < 0 then int len + stop else stop);
                  newlen = (if start > stop then 0 else stop - start + 1)
              in sdssubstr s (of_signed 64 start) (of_signed 64 newlen))"








fun memcmp :: "bytes \<Rightarrow> bytes \<Rightarrow> int" where
  "memcmp (x # xs) (y # ys) = (if x < y then - 1 else if y < x then 1 else memcmp xs ys)"
| "memcmp _ _ = 0"

definition sdscmp :: "sds \<Rightarrow> sds \<Rightarrow> int option" where
  "sdscmp s1 s2 =
     (let l1 = sdslen s1; l2 = sdslen s2; minlen = (if l1 < l2 then l1 else l2)
      in do {
        xs \<leftarrow> mem_read (sds_buf s1) 0 minlen;
        ys \<leftarrow> mem_read (sds_buf s2) 0 minlen;
        let cmp = memcmp xs ys;
        Some (if cmp = 0 then if l1 > l2 then 1 else if l1 < l2 then - 1 else 0 else cmp) })"

section \<open>The string invariant\<close>

text \<open>
  \<open>sds_rep s xs\<close>: the string holds the bytes \<open>xs\<close>, followed by a null byte; the
  length and the allocation fit the header type, and the allocation leaves room for the null
  byte inside the block.
\<close>

definition sds_rep :: "sds \<Rightarrow> bytes \<Rightarrow> bool" where
  "sds_rep s xs \<longleftrightarrow> (\<exists>rest. sds_buf s = xs @ 0 # rest) \<and> sds_hlen s = length xs \<and>
     length xs \<le> sdsalloc s \<and> sdsalloc s < length (sds_buf s) \<and>
     sdsalloc s \<le> sdsTypeMaxSize (sds_type s)"

lemma sds_rep_len [simp]: "sds_rep s xs \<Longrightarrow> sdslen s = length xs"
  by (simp add: sds_rep_def sdslen_def)

lemma sds_rep_unique: "sds_rep s xs \<Longrightarrow> sds_rep s ys \<Longrightarrow> xs = ys"
  unfolding sds_rep_def by (metis append_eq_append_conv)

lemma sdsReqType_fits: "n < 2 ^ 64 \<Longrightarrow> n \<le> sdsTypeMaxSize (sdsReqType n)"
  by (auto simp: sdsReqType_def)

lemma sdsavail_alloc: "sds_rep s xs \<Longrightarrow> sdsavail s = sdsalloc s - length xs"
  by (auto simp: sds_rep_def sdsavail_def sdsalloc_def split: sdstype.splits)

lemma mod_max: "n \<le> sdsTypeMaxSize t \<Longrightarrow> n mod (sdsTypeMaxSize t + 1) = n"
  by (rule mod_less) linarith

lemma buf_prefix: "n < length m \<Longrightarrow> take n m = ys \<Longrightarrow> wr m n 0 = Some (ys @ 0 # drop (Suc n) m)"
  by (auto simp: wr_def upd_conv_take_nth_drop)

text \<open>
  Every operation ends by storing the null byte and the length: it is enough that the bytes
  before are the intended ones and that they fit the allocation.
\<close>

lemma sds_finish:
  assumes "sds_type s = t" and "t \<noteq> SDS_TYPE_5 \<Longrightarrow> n \<le> sds_halloc s \<and> sds_halloc s < length (sds_buf s) \<and>
      sds_halloc s \<le> sdsTypeMaxSize t"
    and "n \<le> sdsTypeMaxSize t" and "n < length (sds_buf s)" and "take n (sds_buf s) = ys"
  shows "\<exists>s'. sds_put s n 0 = Some s' \<and> sds_rep (sdssetlen s' n) ys"
    and "\<exists>s'. sds_put (sdssetlen s n) n 0 = Some s' \<and> sds_rep s' ys"
proof -
  have len: "length ys = n" using assms(4,5) by auto
  have w: "wr (sds_buf s) n 0 = Some (ys @ 0 # drop (Suc n) (sds_buf s))"
    using assms(4,5) by (rule buf_prefix)
  have *: "sds_rep (sdssetlen (s\<lparr>sds_buf := ys @ 0 # drop (Suc n) (sds_buf s)\<rparr>) n) ys"
    using assms(1-4) len mod_max [OF assms(3)]
    by (cases t) (auto simp: sds_rep_def sdssetlen_def sdsalloc_def)
  then show "\<exists>s'. sds_put s n 0 = Some s' \<and> sds_rep (sdssetlen s' n) ys"
    by (auto simp: sds_put_def w)
  have e: "(sdssetlen s n)\<lparr>sds_buf := b\<rparr> = sdssetlen (s\<lparr>sds_buf := b\<rparr>) n" for b
    by (cases s) (simp add: sdssetlen_def)
  have "sds_buf (sdssetlen s n) = sds_buf s" by (simp add: sdssetlen_def)
  then have "sds_put (sdssetlen s n) n 0 =
      Some (sdssetlen (s\<lparr>sds_buf := ys @ 0 # drop (Suc n) (sds_buf s)\<rparr>) n)"
    unfolding sds_put_def using w e by simp
  then show "\<exists>s'. sds_put (sdssetlen s n) n 0 = Some s' \<and> sds_rep s' ys"
    using * by blast
qed

lemma sds_finish_rep:
  assumes "sds_rep s xs" and "n \<le> sdsalloc s" and "length m = length (sds_buf s)" and "take n m = ys"
  shows "\<exists>s'. sds_put (s\<lparr>sds_buf := m\<rparr>) n 0 = Some s' \<and> sds_rep (sdssetlen s' n) ys"
    and "\<exists>s'. sds_put (sdssetlen (s\<lparr>sds_buf := m\<rparr>) n) n 0 = Some s' \<and> sds_rep s' ys"
proof -
  have b: "n \<le> sdsTypeMaxSize (sds_type s)" "n < length m"
    using assms by (auto simp: sds_rep_def)
  have h: "sds_type s \<noteq> SDS_TYPE_5 \<Longrightarrow> n \<le> sds_halloc s \<and> sds_halloc s < length m \<and>
      sds_halloc s \<le> sdsTypeMaxSize (sds_type s)"
    using assms(1-3) by (cases "sds_type s") (auto simp: sds_rep_def sdsalloc_def)
  show "\<exists>s'. sds_put (s\<lparr>sds_buf := m\<rparr>) n 0 = Some s' \<and> sds_rep (sdssetlen s' n) ys"
    "\<exists>s'. sds_put (sdssetlen (s\<lparr>sds_buf := m\<rparr>) n) n 0 = Some s' \<and> sds_rep s' ys"
    using sds_finish [of "s\<lparr>sds_buf := m\<rparr>" "sds_type s" n ys] b h assms(4) by simp_all
qed

section \<open>Creation and growth\<close>

lemma sdsnewlen_rep:
  assumes us: "\<And>n. n \<le> us n" and "n < 2 ^ 63" and "n \<le> length xs"
  shows "\<exists>s. sdsnewlen us junk (INIT xs) n = Some s \<and> sds_rep s (take n xs)"
proof -
  define t where "t = sdsnewlen_type n"
  define h where "h = sdsHdrSize t"
  define u where "u = us (h + n + 1)"
  have fit: "n \<le> sdsTypeMaxSize t"
    using sdsReqType_fits [of n] assms(2) by (auto simp: t_def sdsnewlen_type_def Let_def)
  have "h \<le> 17" unfolding h_def by (cases t) auto
  then have a: "n < wadd 64 (wadd 64 n h) 1" using assms(2) by simp
  have u: "h + n + 1 \<le> u" unfolding u_def by (rule us)
  let ?m = "map junk [h..<u]"
  have lm: "n + 1 \<le> length ?m" using u by simp
  let ?s = "\<lambda>m. \<lparr>sds_type = t, sds_hlen = n, sds_halloc = min (u - h - 1) (sdsTypeMaxSize t), sds_buf = m\<rparr>"
  have c: "(if n \<noteq> 0 then sds_copy (?s ?m) 0 (take n xs) else Some (?s ?m)) = Some (?s (take n xs @ drop n ?m))"
    using lm assms(3) by (auto simp: sds_copy_def mem_write_def)
  obtain s' where s': "sds_put (?s (take n xs @ drop n ?m)) n 0 = Some s'" "sds_rep (sdssetlen s' n) (take n xs)"
  proof -
    have "\<exists>s'. sds_put (?s (take n xs @ drop n ?m)) n 0 = Some s' \<and> sds_rep (sdssetlen s' n) (take n xs)"
      using fit u assms(3) by (intro sds_finish(1) [where t = t]) auto
    then show ?thesis using that by blast
  qed
  have "sdssetlen s' n = s'"
    using s'(1) mod_max [OF fit] by (auto simp: sds_put_def sdssetlen_def wr_def split: if_splits)
  moreover have "sdsnewlen' us junk (INIT xs) n False False = do { s \<leftarrow> (if n \<noteq> 0 then sds_copy (?s ?m) 0 (take n xs)
      else Some (?s ?m)); s \<leftarrow> sds_put s n 0; Some (Some s) }"
    unfolding sdsnewlen'_def Let_def t_def [symmetric]
    unfolding h_def [symmetric]
    unfolding u_def [symmetric] using a by simp
  ultimately show ?thesis using c s' by (simp add: sdsnewlen_def)
qed

lemma sdsMakeRoomFor_rep:
  assumes us: "\<And>n. n \<le> us n" and rep: "sds_rep s xs" and lt: "length xs + addlen < 2 ^ 62"
  shows "\<exists>s'. sdsMakeRoomFor' us junk s addlen greedy = Some s' \<and> sds_rep s' xs \<and>
    length xs + addlen \<le> sdsalloc s'"
proof (cases "addlen \<le> sdsavail s")
  case True
  then show ?thesis
    using rep sdsavail_alloc [OF rep] by (auto simp: sdsMakeRoomFor'_def sds_rep_def)
next
  case False
  define req where "req = length xs + addlen"
  define new where "new = (if greedy then if req < SDS_MAX_PREALLOC then 2 * req
    else wadd 64 req SDS_MAX_PREALLOC else req)"
  define t where "t = (if sdsReqType new = SDS_TYPE_5 then SDS_TYPE_8 else sdsReqType new)"
  define h where "h = sdsHdrSize t"
  define u where "u = us (h + new + 1)"
  have w: "wadd 64 (length xs) addlen = req" using lt by (simp add: req_def)
  have new: "req \<le> new" "new < 2 ^ 63"
    using lt by (auto simp: new_def req_def SDS_MAX_PREALLOC_def)
  have h17: "h \<le> 17" unfolding h_def by (cases t) auto
  have hn: "wadd 64 (wadd 64 h new) 1 = h + new + 1" using new h17 by simp
  have t5: "t \<noteq> SDS_TYPE_5" by (simp add: t_def)
  have fit: "new \<le> sdsTypeMaxSize t" using sdsReqType_fits [of new] new by (auto simp: t_def)
  have u: "h + new + 1 \<le> u" unfolding u_def by (rule us)
  obtain rest where buf: "sds_buf s = xs @ 0 # rest" using rep by (auto simp: sds_rep_def)
  define a where "a = min (u - h - 1) (sdsTypeMaxSize t)"
  have a: "req \<le> a" "a + 1 \<le> u - h" "a mod (sdsTypeMaxSize t + 1) = a"
    using new u fit mod_max [of a t] by (auto simp: a_def)
  let ?body = "if sds_type s = t then Some (s\<lparr>sds_buf := realloc junk (sds_buf s) (u - h)\<rparr>)
     else do { old \<leftarrow> mem_read (sds_buf s) 0 (length xs + 1);
        m \<leftarrow> mem_write (map junk [h..<u]) 0 old;
        Some (sdssetlen (s\<lparr>sds_type := t, sds_buf := m\<rparr>) (length xs)) }"
  have body: "\<exists>s1 r. ?body = Some s1 \<and> sds_type s1 = t \<and> sds_hlen s1 = length xs \<and>
      sds_buf s1 = xs @ 0 # r \<and> length (sds_buf s1) = u - h"
  proof (cases "sds_type s = t")
    case True
    have "realloc junk (sds_buf s) (u - h) = xs @ 0 # drop (Suc (length xs)) (realloc junk (sds_buf s) (u - h))"
    proof -
      have "Suc (length xs) \<le> u - h" using new u by (simp add: req_def)
      then have "take (Suc (length xs)) (realloc junk (sds_buf s) (u - h)) = xs @ [0]"
        by (simp add: realloc_def buf)
      then show ?thesis by (metis append_take_drop_id append.assoc append_Cons append_Nil)
    qed
    moreover have "sds_hlen s = length xs" using rep by (simp add: sds_rep_def)
    ultimately show ?thesis using True by auto
  next
    case ne: False
    have "mem_read (sds_buf s) 0 (length xs + 1) = Some (xs @ [0])" by (simp add: mem_read_def buf)
    moreover have "mem_write (map junk [h..<u]) 0 (xs @ [0]) =
        Some (xs @ 0 # drop (Suc (length xs)) (map junk [h..<u]))"
      using new u by (simp add: mem_write_def req_def)
    moreover have "length xs mod (sdsTypeMaxSize t + 1) = length xs"
      using new fit by (intro mod_max) (simp add: req_def)
    ultimately show ?thesis using ne new u by (auto simp: sdssetlen_def req_def)
  qed
  then obtain s1 r where s1: "?body = Some s1" "sds_type s1 = t" "sds_hlen s1 = length xs"
    "sds_buf s1 = xs @ 0 # r" "length (sds_buf s1) = u - h" by blast
  have "sdsMakeRoomFor' us junk s addlen greedy = do { s' \<leftarrow> ?body; Some (sdssetalloc s' a) }"
  proof -
    have lt': "length xs < req" "req < h + new + 1" using False new by (auto simp: req_def)
    show ?thesis
      unfolding sdsMakeRoomFor'_def Let_def sds_rep_len [OF rep] w if_not_P [OF False]
      unfolding new_def [symmetric]
      unfolding t_def [symmetric]
      unfolding h_def [symmetric] hn
      unfolding u_def [symmetric]
      unfolding a_def [symmetric]
      using lt' by simp
  qed
  moreover have "sdssetalloc s1 a = s1\<lparr>sds_halloc := a\<rparr>"
    using s1(2) t5 a(3) by (cases t) (auto simp: sdssetalloc_def)
  moreover have "sds_rep (s1\<lparr>sds_halloc := a\<rparr>) xs \<and> req \<le> sdsalloc (s1\<lparr>sds_halloc := a\<rparr>)"
    using s1 a t5 by (cases t) (auto simp: sds_rep_def sdsalloc_def a_def req_def)
  ultimately show ?thesis using s1(1) by (auto simp: req_def)
qed

section \<open>What the operations do to the contents\<close>

lemma sds_bufE:
  assumes "sds_rep s xs"
  obtains rest where "sds_buf s = xs @ 0 # rest"
  using assms by (auto simp: sds_rep_def)


lemma sdscatlen_rep:
  assumes us: "\<And>n. n \<le> us n" and rep: "sds_rep s xs" and lt: "length xs + length t < 2 ^ 62"
  shows "\<exists>s'. sdscatlen us junk s t = Some s' \<and> sds_rep s' (xs @ t)"
proof -
  obtain s1 where s1: "sdsMakeRoomFor us junk s (length t) = Some s1" "sds_rep s1 xs"
    "length xs + length t \<le> sdsalloc s1"
    using sdsMakeRoomFor_rep [OF us rep lt, of junk True] by (auto simp: sdsMakeRoomFor_def)
  obtain r where r: "sds_buf s1 = xs @ 0 # r" using s1(2) by (rule sds_bufE)
  let ?m = "xs @ t @ drop (length xs + length t) (sds_buf s1)"
  have len: "length xs + length t < length (sds_buf s1)" using s1 by (auto simp: sds_rep_def)
  then have c: "sds_copy s1 (length xs) t = Some (s1\<lparr>sds_buf := ?m\<rparr>)"
    by (simp add: sds_copy_def mem_write_def r)
  obtain s2 where "sds_put (sdssetlen (s1\<lparr>sds_buf := ?m\<rparr>) (length xs + length t)) (length xs + length t) 0 = Some s2"
    "sds_rep s2 (xs @ t)"
    using sds_finish_rep(2) [OF s1(2,3), of ?m "xs @ t"] len by auto
  then show ?thesis using s1(1) c rep by (simp add: sdscatlen_def Let_def)
qed




lemma sdssubstr_rep:
  assumes "sds_rep s xs"
  shows "\<exists>s'. sdssubstr s start len = Some s' \<and> sds_rep s' (take len (drop start xs))"
proof -
  obtain r where r: "sds_buf s = xs @ 0 # r" using assms by (rule sds_bufE)
  define a where "a = (if length xs \<le> start then 0 else start)"
  define l where "l = (let len = (if length xs \<le> start then 0 else len) in
    if length xs - a < len then length xs - a else len)"
  have tk: "take l (drop a xs) = take len (drop start xs)" and al: "a + l \<le> length xs"
    by (auto simp: a_def l_def Let_def)
  define m where "m = (if l \<noteq> 0 then take l (drop a xs) @ drop l (sds_buf s) else sds_buf s)"
  have mv: "(if l \<noteq> 0 then do { m \<leftarrow> mem_move (sds_buf s) 0 a l; Some (s\<lparr>sds_buf := m\<rparr>) } else Some s) =
      Some (s\<lparr>sds_buf := m\<rparr>)"
    using al by (auto simp: m_def mem_move_def mem_read_def mem_write_def r)
  have "length m = length (sds_buf s)" "take l m = take l (drop a xs)"
    using al by (auto simp: m_def r)
  then have fin: "\<exists>s'. sds_put (s\<lparr>sds_buf := m\<rparr>) l 0 = Some s' \<and> sds_rep (sdssetlen s' l) (take len (drop start xs))"
    using sds_finish_rep(1) [OF assms, of l m] al assms unfolding tk by (auto simp: sds_rep_def)
  show ?thesis
  proof -
    have "sdssubstr s start len = do {
        s \<leftarrow> (if l \<noteq> 0 then do { m \<leftarrow> mem_move (sds_buf s) 0 a l; Some (s\<lparr>sds_buf := m\<rparr>) } else Some s);
        s \<leftarrow> sds_put s l 0; Some (sdssetlen s l) }"
      unfolding sdssubstr_def Let_def sds_rep_len [OF assms]
      unfolding a_def [symmetric]
      unfolding l_def [unfolded Let_def, symmetric] by (rule refl)
    then show ?thesis using fin mv by auto
  qed
qed

text \<open>The range that \<open>sdsrange\<close> keeps, negative indexes counting from the end.\<close>

definition range_spec :: "bytes \<Rightarrow> int \<Rightarrow> int \<Rightarrow> bytes" where
  "range_spec xs start stop =
     (let start = (if start < 0 then int (length xs) + start else start);
          stop = (if stop < 0 then int (length xs) + stop else stop)
      in if 0 \<le> start \<and> start \<le> stop then take (nat (stop - start + 1)) (drop (nat start) xs) else [])"

lemma sdsrange_rep:
  assumes rep: "sds_rep s xs" and lt: "length xs < 2 ^ 61"
    and "- (2 ^ 61) \<le> start" "start < 2 ^ 61" "- (2 ^ 61) \<le> stop" "stop < 2 ^ 61"
  shows "\<exists>s'. sdsrange s start stop = Some s' \<and> sds_rep s' (range_spec xs start stop)"
proof (cases "length xs = 0")
  case True
  then show ?thesis using rep by (simp add: sdsrange_def range_spec_def Let_def)
next
  case False
  define a where "a = (if start < 0 then int (length xs) + start else start)"
  define b where "b = (if stop < 0 then int (length xs) + stop else stop)"
  define n where "n = (if a > b then 0 else b - a + 1)"
  have r: "sdsrange s start stop = sdssubstr s (of_signed 64 a) (of_signed 64 n)"
    using False rep by (simp add: sdsrange_def Let_def a_def b_def n_def)
  have ab: "- (2 ^ 61) \<le> a" "a < 2 ^ 62" "- (2 ^ 61) \<le> b" "b < 2 ^ 62" using assms by (auto simp: a_def b_def)
  have n: "of_signed 64 n = nat n" using ab by (intro of_signed_nonneg) (auto simp: n_def)
  have "take (of_signed 64 n) (drop (of_signed 64 a) xs) = range_spec xs start stop"
  proof (cases "0 \<le> a")
    case True
    then have "of_signed 64 a = nat a" using ab by (intro of_signed_nonneg) auto
    then show ?thesis using True n
      by (auto simp: range_spec_def Let_def a_def [symmetric] b_def [symmetric] n_def)
  next
    case neg: False
    then have "int (of_signed 64 a) = a + 2 ^ 64" using ab by (intro of_signed_neg) auto
    moreover have "int (length xs) < 2 ^ 61" using lt by simp
    moreover have "(2 :: int) ^ 64 = 8 * 2 ^ 61" by simp
    ultimately have "int (length xs) \<le> int (of_signed 64 a)" using ab by linarith
    then have "length xs \<le> of_signed 64 a" by simp
    then show ?thesis using neg by (simp add: range_spec_def Let_def a_def [symmetric] b_def [symmetric])
  qed
  then show ?thesis using sdssubstr_rep [OF rep, of "of_signed 64 a" "of_signed 64 n"] r by simp
qed




subsection \<open>Trimming\<close>






subsection \<open>Resizing\<close>



section \<open>Sequences of operations\<close>















text \<open>
  C36. \<open>sdsrange\<close> keeps exactly the requested bytes, negative indexes counting from the
  end, and empties the string when the range is empty or starts before the first byte; no index
  makes it read or write outside the block.
\<close>

theorem sdsrange_exact:
  assumes "sds_rep s xs" and "length xs < 2 ^ 61"
    and "- (2 ^ 61) \<le> start" "start < 2 ^ 61" "- (2 ^ 61) \<le> stop" "stop < 2 ^ 61"
  shows "\<exists>s'. sdsrange s start stop = Some s' \<and> sds_rep s' (range_spec xs start stop)"
  using assms by (rule sdsrange_rep)

theorem sdsrange_exact_witness:
  "\<exists>s'. sdsrange \<lparr>sds_type = SDS_TYPE_8, sds_hlen = 3, sds_halloc = 4, sds_buf = [1, 2, 3, 0, 7]\<rparr> (- 2) (- 1) = Some s' \<and>
    sds_rep s' (range_spec [1, 2, 3] (- 2) (- 1))"
  using sdsrange_exact [of "\<lparr>sds_type = SDS_TYPE_8, sds_hlen = 3, sds_halloc = 4, sds_buf = [1, 2, 3, 0, 7]\<rparr>"
      "[1, 2, 3]" "- 2" "- 1"]
  by (simp add: sds_rep_def sdsalloc_def)

section \<open>Quoting and splitting\<close>

abbreviation "BACKSLASH \<equiv> (92 :: u8)"
abbreviation "DQUOTE \<equiv> (34 :: u8)"
abbreviation "SQUOTE \<equiv> (39 :: u8)"
abbreviation "SPACE \<equiv> (32 :: u8)"

text \<open>The character classes of the C locale.\<close>

definition isprint :: "u8 \<Rightarrow> bool" where
  "isprint c \<longleftrightarrow> 32 \<le> c \<and> c \<le> 126"

definition isspace :: "u8 \<Rightarrow> bool" where
  "isspace c \<longleftrightarrow> c = 32 \<or> (9 \<le> c \<and> c \<le> 13)"

definition hex_char :: "u8 \<Rightarrow> u8" where
  "hex_char d = (if d < 10 then 48 + d else 87 + d)"

text \<open>What one byte of the input appends: \<open>%c\<close> and \<open>%02x\<close> written out.\<close>

definition repr_piece :: "u8 \<Rightarrow> bytes" where
  "repr_piece c =
     (if c = BACKSLASH \<or> c = DQUOTE then [BACKSLASH, c]
      else if c = 10 then [BACKSLASH, 110]
      else if c = 13 then [BACKSLASH, 114]
      else if c = 9 then [BACKSLASH, 116]
      else if c = 7 then [BACKSLASH, 97]
      else if c = 8 then [BACKSLASH, 98]
      else if isprint c then [c]
      else [BACKSLASH, 120, hex_char (drop_bit 4 c), hex_char (c AND 15)])"

fun sdscatrepr_loop :: "(nat \<Rightarrow> nat) \<Rightarrow> (nat \<Rightarrow> u8) \<Rightarrow> sds \<Rightarrow> bytes \<Rightarrow> sds option" where
  "sdscatrepr_loop us junk s [] = Some s"
| "sdscatrepr_loop us junk s (c # p) = do {
     s \<leftarrow> sdscatlen us junk s (repr_piece c);
     sdscatrepr_loop us junk s p }"

definition sdscatrepr :: "(nat \<Rightarrow> nat) \<Rightarrow> (nat \<Rightarrow> u8) \<Rightarrow> sds \<Rightarrow> bytes \<Rightarrow> sds option" where
  "sdscatrepr us junk s p = do {
     s \<leftarrow> sdsMakeRoomFor us junk s (length p + 2);
     s \<leftarrow> sdscatlen us junk s [DQUOTE];
     s \<leftarrow> sdscatrepr_loop us junk s p;
     sdscatlen us junk s [DQUOTE] }"

definition sdsneedsrepr :: "bytes \<Rightarrow> bool" where
  "sdsneedsrepr s = list_ex (\<lambda>c. c = BACKSLASH \<or> c = DQUOTE \<or> c = 10 \<or> c = 13 \<or> c = 9 \<or> c = 7 \<or> c = 8 \<or>
     \<not> isprint c \<or> isspace c) s"

definition is_hex_digit :: "u8 \<Rightarrow> bool" where
  "is_hex_digit c \<longleftrightarrow> (48 \<le> c \<and> c \<le> 57) \<or> (97 \<le> c \<and> c \<le> 102) \<or> (65 \<le> c \<and> c \<le> 70)"

definition hex_digit_to_int :: "u8 \<Rightarrow> u8" where
  "hex_digit_to_int c =
     (if 48 \<le> c \<and> c \<le> 57 then c - 48
      else if 97 \<le> c \<and> c \<le> 102 then c - 87
      else if 65 \<le> c \<and> c \<le> 70 then c - 55
      else 0)"

text \<open>
  The parser walks a null-terminated line. A pointer into the line is the list of the bytes
  from there to the end of the memory; dereferencing past the end is \<open>None\<close>. The token
  being built is given by its contents, which \<open>sdscatlen\<close> extends.
\<close>

definition hex_escape :: "bytes \<Rightarrow> u8 option option" where
  "hex_escape p = do {
     c \<leftarrow> rd p 0;
     if c \<noteq> BACKSLASH then Some None
     else do {
       c1 \<leftarrow> rd p 1;
       if c1 \<noteq> 120 then Some None
       else do {
         c2 \<leftarrow> rd p 2;
         if \<not> is_hex_digit c2 then Some None
         else do {
           c3 \<leftarrow> rd p 3;
           if \<not> is_hex_digit c3 then Some None
           else Some (Some (hex_digit_to_int c2 * 16 + hex_digit_to_int c3)) } } } }"

definition unescape :: "u8 \<Rightarrow> u8" where
  "unescape c =
     (if c = 110 then 10 else if c = 114 then 13 else if c = 116 then 9
      else if c = 98 then 8 else if c = 97 then 7 else c)"

text \<open>
  The inner loop of \<open>sdssplitargs\<close>: the result is the token and where it ends, or
  \<open>Some None\<close> for the jump to \<open>err\<close>.
\<close>

function splitargs_token :: "bytes \<Rightarrow> bool \<Rightarrow> bool \<Rightarrow> bytes \<Rightarrow> (bytes \<times> bytes) option option" where
  "splitargs_token [] inq insq current = None"
| "splitargs_token (c # q) inq insq current =
     (if inq then do {
        esc \<leftarrow> hex_escape (c # q);
        case esc of
          Some b \<Rightarrow> splitargs_token (drop 3 q) inq insq (current @ [b])
        | None \<Rightarrow> do {
            c1 \<leftarrow> (if c = BACKSLASH \<or> c = DQUOTE then rd q 0 else Some 0);
            if c = BACKSLASH \<and> c1 \<noteq> 0
            then splitargs_token (drop 1 q) inq insq (current @ [unescape c1])
            else if c = DQUOTE
            then if c1 \<noteq> 0 \<and> \<not> isspace c1 then Some None else Some (Some (current, q))
            else if c = 0 then Some None
            else splitargs_token q inq insq (current @ [c]) } }
      else if insq then do {
        c1 \<leftarrow> (if c = BACKSLASH \<or> c = SQUOTE then rd q 0 else Some 0);
        if c = BACKSLASH \<and> c1 = SQUOTE
        then splitargs_token (drop 1 q) inq insq (current @ [SQUOTE])
        else if c = SQUOTE
        then if c1 \<noteq> 0 \<and> \<not> isspace c1 then Some None else Some (Some (current, q))
        else if c = 0 then Some None
        else splitargs_token q inq insq (current @ [c]) }
      else if c = 0 then Some (Some (current, c # q))
      else if c = SPACE \<or> c = 10 \<or> c = 13 \<or> c = 9 then Some (Some (current, q))
      else if c = DQUOTE then splitargs_token q True insq current
      else if c = SQUOTE then splitargs_token q inq True current
      else splitargs_token q inq insq (current @ [c]))"
  by pat_completeness auto
termination by (relation "measure (\<lambda>(p, inq, insq, current). length p)") auto

declare splitargs_token.simps [simp del]

fun skip_blanks :: "bytes \<Rightarrow> bytes option" where
  "skip_blanks [] = None"
| "skip_blanks (c # p) = (if c \<noteq> 0 \<and> isspace c then skip_blanks p else Some (c # p))"

partial_function (option) splitargs_loop :: "bytes \<Rightarrow> bytes list \<Rightarrow> bytes list option option" where
  "splitargs_loop p vector = do {
     p \<leftarrow> skip_blanks p;
     c \<leftarrow> rd p 0;
     if c \<noteq> 0
     then do {
       r \<leftarrow> splitargs_token p False False [];
       case r of
         None \<Rightarrow> Some None
       | Some t \<Rightarrow> splitargs_loop (snd t) (vector @ [fst t]) }
     else Some (Some vector) }"

definition sdssplitargs :: "bytes \<Rightarrow> bytes list option option" where
  "sdssplitargs line = splitargs_loop line []"

subsection \<open>What the quoting appends\<close>

lemma repr_piece_length: "length (repr_piece c) \<le> 4"
  by (simp add: repr_piece_def)

lemma sdscatrepr_loop_rep:
  assumes us: "\<And>n. n \<le> us n"
  shows "sds_rep s xs \<Longrightarrow> length xs + 4 * length p < 2 ^ 61 \<Longrightarrow>
    \<exists>s'. sdscatrepr_loop us junk s p = Some s' \<and> sds_rep s' (xs @ concat (map repr_piece p))"
proof (induction p arbitrary: s xs)
  case Nil
  then show ?case by simp
next
  case (Cons c p)
  have "length xs + length (repr_piece c) < 2 ^ 62" using Cons.prems(2) repr_piece_length [of c] by simp
  then obtain s1 where s1: "sdscatlen us junk s (repr_piece c) = Some s1" "sds_rep s1 (xs @ repr_piece c)"
    using sdscatlen_rep [where us = us, OF us Cons.prems(1)] by blast
  have "length (xs @ repr_piece c) + 4 * length p < 2 ^ 61"
    using Cons.prems(2) repr_piece_length [of c] by simp
  then show ?case using Cons.IH [OF s1(2)] s1(1) by simp
qed

definition quoted :: "bytes \<Rightarrow> bytes" where
  "quoted p = DQUOTE # concat (map repr_piece p) @ [DQUOTE]"

lemma concat_repr_length: "length (concat (map repr_piece p)) \<le> 4 * length p"
proof (induction p)
  case (Cons c p)
  then show ?case using repr_piece_length [of c] by simp
qed simp

lemma sdscatrepr_rep:
  assumes us: "\<And>n. n \<le> us n" and rep: "sds_rep s xs" and lt: "length xs + 4 * length p + 4 < 2 ^ 61"
  shows "\<exists>s'. sdscatrepr us junk s p = Some s' \<and> sds_rep s' (xs @ quoted p)"
proof -
  obtain s1 where s1: "sdsMakeRoomFor us junk s (length p + 2) = Some s1" "sds_rep s1 xs"
    using sdsMakeRoomFor_rep [where us = us and addlen = "length p + 2" and junk = junk and greedy = True, OF us rep] lt
    by (auto simp: sdsMakeRoomFor_def)
  obtain s2 where s2: "sdscatlen us junk s1 [DQUOTE] = Some s2" "sds_rep s2 (xs @ [DQUOTE])"
    using sdscatlen_rep [where us = us and t = "[DQUOTE]", OF us s1(2)] lt by auto
  obtain s3 where s3: "sdscatrepr_loop us junk s2 p = Some s3"
    "sds_rep s3 ((xs @ [DQUOTE]) @ concat (map repr_piece p))"
    using sdscatrepr_loop_rep [where us = us, OF us s2(2)] lt by force
  have "length ((xs @ [DQUOTE]) @ concat (map repr_piece p)) + length [DQUOTE] < 2 ^ 62"
    using concat_repr_length [of p] lt by simp
  then obtain s4 where "sdscatlen us junk s3 [DQUOTE] = Some s4"
    "sds_rep s4 (((xs @ [DQUOTE]) @ concat (map repr_piece p)) @ [DQUOTE])"
    using sdscatlen_rep [where us = us, OF us s3(2)] by blast
  then show ?thesis using s1 s2 s3 by (simp add: sdscatrepr_def quoted_def)
qed

subsection \<open>Parsing a quoted token\<close>

lemma repr_piece_all:
  "\<forall>c :: u8. (c = BACKSLASH \<or> c = DQUOTE \<longrightarrow> c \<noteq> 120 \<and> c \<noteq> 0 \<and> unescape c = c) \<and>
     (isprint c \<longrightarrow> c \<noteq> 0) \<and>
     is_hex_digit (hex_char (drop_bit 4 c)) \<and> is_hex_digit (hex_char (c AND 15)) \<and>
     hex_digit_to_int (hex_char (drop_bit 4 c)) * 16 + hex_digit_to_int (hex_char (c AND 15)) = c"
  unfolding u8_all by code_simp

lemma token_piece:
  "splitargs_token (repr_piece c @ q) True False current = splitargs_token q True False (current @ [c])"
  if "q \<noteq> []"
proof -
  have facts: "c = BACKSLASH \<or> c = DQUOTE \<Longrightarrow> c \<noteq> 120 \<and> c \<noteq> 0 \<and> unescape c = c" "isprint c \<Longrightarrow> c \<noteq> 0"
    "is_hex_digit (hex_char (drop_bit 4 c))" "is_hex_digit (hex_char (c AND 15))"
    "hex_digit_to_int (hex_char (drop_bit 4 c)) * 16 + hex_digit_to_int (hex_char (c AND 15)) = c"
    using repr_piece_all by blast+
  have esc: "splitargs_token (BACKSLASH # e # q) True False current =
      splitargs_token q True False (current @ [unescape e])" if "e \<noteq> 120" "e \<noteq> 0" for e
    using that by (subst splitargs_token.simps) (simp add: hex_escape_def rd_def)
  have "hex_escape (BACKSLASH # 120 # h1 # h2 # q) = Some (Some (hex_digit_to_int h1 * 16 + hex_digit_to_int h2))"
    if "is_hex_digit h1" "is_hex_digit h2" for h1 h2
    using that by (simp add: hex_escape_def rd_def)
  moreover have "drop 3 (120 # h1 # h2 # q) = q" for h1 h2 by simp
  ultimately have hex: "splitargs_token (BACKSLASH # 120 # hex_char (drop_bit 4 c) # hex_char (c AND 15) # q) True False current =
      splitargs_token q True False (current @ [c])"
    using facts(3-5) by (subst splitargs_token.simps) (simp only: if_True bind.bind_lunit option.case)
  have plain: "splitargs_token (c # q) True False current = splitargs_token q True False (current @ [c])"
    if "c \<noteq> BACKSLASH" "c \<noteq> DQUOTE" "c \<noteq> 0"
    using that by (subst splitargs_token.simps) (simp add: hex_escape_def rd_def)
  show ?thesis
    using facts(1,2) esc [of c] esc [of 110] esc [of 114] esc [of 116] esc [of 97] esc [of 98] hex plain
    by (auto simp: repr_piece_def unescape_def)
qed

lemma token_pieces:
  "q \<noteq> [] \<Longrightarrow> splitargs_token (concat (map repr_piece p) @ q) True False current =
     splitargs_token q True False (current @ p)"
proof (induction p arbitrary: current)
  case Nil
  then show ?case by simp
next
  case (Cons c p)
  have ne: "concat (map repr_piece p) @ q \<noteq> []" using Cons.prems by simp
  have "splitargs_token (concat (map repr_piece (c # p)) @ q) True False current =
      splitargs_token (concat (map repr_piece p) @ q) True False (current @ [c])"
    using token_piece [OF ne] by simp
  then show ?case using Cons by simp
qed

lemma token_quoted:
  assumes "e = 0 \<or> isspace e"
  shows "splitargs_token (quoted p @ e # rest) False False [] = Some (Some (p, e # rest))"
proof -
  have "splitargs_token (quoted p @ e # rest) False False [] =
      splitargs_token (concat (map repr_piece p) @ DQUOTE # e # rest) True False []"
    by (simp add: quoted_def splitargs_token.simps(2) [of DQUOTE])
  also have "\<dots> = splitargs_token (DQUOTE # e # rest) True False p"
    by (simp add: token_pieces)
  also have "\<dots> = Some (Some (p, e # rest))"
    using assms by (subst splitargs_token.simps) (auto simp: hex_escape_def rd_def)
  finally show ?thesis .
qed

text \<open>A command line: the quoted arguments, each followed by a space, then the terminator.\<close>

fun quoted_line :: "bytes list \<Rightarrow> bytes" where
  "quoted_line [] = [0]"
| "quoted_line (a # args) = quoted a @ SPACE # quoted_line args"

lemma splitargs_quoted:
  "splitargs_loop (quoted_line args) vector = Some (Some (vector @ args))"
  and "splitargs_loop (SPACE # quoted_line args) vector = Some (Some (vector @ args))"
proof (induction args arbitrary: vector)
  case Nil
  { case 1 show ?case by (subst splitargs_loop.simps) (simp add: rd_def) }
  { case 2 show ?case by (subst splitargs_loop.simps) (simp add: rd_def isspace_def) }
next
  case (Cons a args)
  have ns: "\<not> isspace DQUOTE" by (simp add: isspace_def)
  have sp: "isspace SPACE" by (simp add: isspace_def)
  have q: "\<exists>r. quoted a @ SPACE # quoted_line args = DQUOTE # r" by (simp add: quoted_def)
  have skip: "skip_blanks (quoted_line (a # args)) = Some (quoted_line (a # args))"
    "rd (quoted_line (a # args)) 0 = Some DQUOTE"
    using q ns by (auto simp: rd_def)
  have tok: "splitargs_token (quoted_line (a # args)) False False [] = Some (Some (a, SPACE # quoted_line args))"
    unfolding quoted_line.simps using sp by (intro token_quoted) simp
  have loop: "splitargs_loop (quoted_line (a # args)) v = Some (Some (v @ a # args))" for v
    using Cons.IH(2) [of "v @ [a]"] skip tok by (subst splitargs_loop.simps) (simp del: quoted_line.simps)
  { case 1 show ?case by (rule loop) }
  { case 2
    have "skip_blanks (SPACE # quoted_line (a # args)) = skip_blanks (quoted_line (a # args))"
      using sp by simp
    then have "splitargs_loop (SPACE # quoted_line (a # args)) vector = splitargs_loop (quoted_line (a # args)) vector"
      by (subst (1 2) splitargs_loop.simps) (simp only:)
    then show ?case using loop by simp }
qed

text \<open>
  C10. Quoting and parsing are inverse: for any list of byte strings, the line made of their
  \<open>sdscatrepr\<close> forms separated by spaces is read back by \<open>sdssplitargs\<close> as
  exactly these strings, whatever bytes they contain (null bytes, quotes, backslashes and
  non-printable bytes included). The parser returns, and never reads past the terminator.
\<close>

theorem splitargs_catrepr_roundtrip:
  assumes "\<And>n. n \<le> us n" and "sds_rep s []" and "4 * length p + 4 < 2 ^ 61"
  shows "(\<exists>s'. sdscatrepr us junk s p = Some s' \<and> sds_rep s' (quoted p)) \<and>
    sdssplitargs (quoted_line args) = Some (Some args)"
  using sdscatrepr_rep [where us = us and p = p, OF assms(1,2)] assms(3) splitargs_quoted(1) [of args "[]"]
  by (simp add: sdssplitargs_def)

theorem splitargs_catrepr_roundtrip_witness:
  "(\<exists>s'. sdscatrepr (\<lambda>n. n) (\<lambda>_. 0) \<lparr>sds_type = SDS_TYPE_8, sds_hlen = 0, sds_halloc = 0, sds_buf = [0]\<rparr> [34, 0] = Some s' \<and>
     sds_rep s' (quoted [34, 0])) \<and> sdssplitargs (quoted_line [[34, 0], []]) = Some (Some [[34, 0], []])"
  using splitargs_catrepr_roundtrip [of "\<lambda>n. n" "\<lparr>sds_type = SDS_TYPE_8, sds_hlen = 0, sds_halloc = 0, sds_buf = [0]\<rparr>"
      "[34, 0]" "\<lambda>_. 0" "[[34, 0], []]"]
  by (simp add: sds_rep_def sdsalloc_def)

text \<open>
  C38. \<open>sdsneedsrepr\<close> misses the single quote: it reports that the string \<open>'a\<close>
  needs no quoting, yet \<open>sdssplitargs\<close> rejects that string as a line because of its
  unbalanced quote.
\<close>

theorem needsrepr_misses_squote:
  "\<not> sdsneedsrepr [SQUOTE, 97] \<and> sdssplitargs [SQUOTE, 97, 0] = Some None"
proof -
  have "splitargs_token [SQUOTE, 97, 0] False False [] = Some None"
    by (simp add: splitargs_token.simps rd_def)
  then have "sdssplitargs [SQUOTE, 97, 0] = Some None"
    unfolding sdssplitargs_def by (subst splitargs_loop.simps) (simp add: rd_def isspace_def)
  then show ?thesis by (simp add: sdsneedsrepr_def isprint_def isspace_def)
qed

section \<open>Splitting on a separator and joining\<close>

text \<open>
  The tokens are given by their contents. The bound \<open>j < len-(seplen-1)\<close> keeps the
  comparison of \<open>seplen\<close> bytes inside the string.
\<close>

function sdssplitlen_loop :: "bytes \<Rightarrow> bytes \<Rightarrow> nat \<Rightarrow> nat \<Rightarrow> bytes list \<Rightarrow> bytes list option" where
  "sdssplitlen_loop s sep start j tokens =
     (if 0 < length sep \<and> j + (length sep - 1) < length s
      then do {
        xs \<leftarrow> mem_read s j (length sep);
        if (length sep = 1 \<and> s ! j = sep ! 0) \<or> memcmp xs sep = 0
        then sdssplitlen_loop s sep (j + length sep) (j + length sep)
               (tokens @ [take (j - start) (drop start s)])
        else sdssplitlen_loop s sep start (j + 1) tokens }
      else Some (tokens @ [drop start s]))"
  by pat_completeness auto
termination by (relation "measure (\<lambda>(s, sep, start, j, tokens). length s - j)")
    (auto intro!: diff_less_mono2)

declare sdssplitlen_loop.simps [simp del]

definition sdssplitlen :: "bytes \<Rightarrow> bytes \<Rightarrow> bytes list option option" where
  "sdssplitlen s sep =
     (if length sep < 1 \<or> length s = 0 then Some None
      else map_option Some (sdssplitlen_loop s sep 0 0 []))"

fun sdsjoinsds_loop :: "(nat \<Rightarrow> nat) \<Rightarrow> (nat \<Rightarrow> u8) \<Rightarrow> sds \<Rightarrow> sds list \<Rightarrow> bytes \<Rightarrow> sds option" where
  "sdsjoinsds_loop us junk join [] sep = Some join"
| "sdsjoinsds_loop us junk join (a # argv) sep = do {
     join \<leftarrow> sdscatsds us junk join a;
     join \<leftarrow> (if argv \<noteq> [] then sdscatlen us junk join sep else Some join);
     sdsjoinsds_loop us junk join argv sep }"

definition sdsjoinsds :: "(nat \<Rightarrow> nat) \<Rightarrow> (nat \<Rightarrow> u8) \<Rightarrow> sds list \<Rightarrow> bytes \<Rightarrow> sds option" where
  "sdsjoinsds us junk argv sep = do {
     join \<leftarrow> sdsempty us junk;
     sdsjoinsds_loop us junk join argv sep }"

fun join_spec :: "bytes list \<Rightarrow> bytes \<Rightarrow> bytes" where
  "join_spec [] sep = []"
| "join_spec [a] sep = a"
| "join_spec (a # b # argv) sep = a @ sep @ join_spec (b # argv) sep"

lemma memcmp_eq: "length xs = length ys \<Longrightarrow> memcmp xs ys = 0 \<longleftrightarrow> xs = ys"
proof (induction xs ys rule: memcmp.induct)
  case (1 x xs y ys)
  then show ?case by auto
qed auto

text \<open>
  Splitting, independent of the code: \<open>t\<close> is followed by the separator, no separator starts earlier,
  and the rest is split in the same way; the last token has no separator.
\<close>

definition occurs_at :: "bytes \<Rightarrow> nat \<Rightarrow> bytes \<Rightarrow> bool" where
  "occurs_at sep i s \<longleftrightarrow> take (length sep) (drop i s) = sep"

fun is_split :: "bytes \<Rightarrow> bytes list \<Rightarrow> bytes \<Rightarrow> bool" where
  "is_split sep [] s \<longleftrightarrow> False"
| "is_split sep [t] s \<longleftrightarrow> t = s \<and> (\<forall>i. \<not> occurs_at sep i s)"
| "is_split sep (t # u # ts) s \<longleftrightarrow>
     s = t @ sep @ drop (length t + length sep) s \<and> (\<forall>i < length t. \<not> occurs_at sep i s) \<and>
     is_split sep (u # ts) (drop (length t + length sep) s)"

lemma occurs_bound: "sep \<noteq> [] \<Longrightarrow> occurs_at sep i s \<Longrightarrow> i + length sep \<le> length s"
  unfolding occurs_at_def by (metis diff_is_0_eq drop_eq_Nil le_cases le_diff_conv2 length_0_conv length_drop length_take
      min.absorb_iff2 nat_add_left_cancel_le add.commute take_Nil)

lemma occurs_append: "occurs_at sep i t \<Longrightarrow> sep \<noteq> [] \<Longrightarrow> occurs_at sep i (t @ r)"
  using occurs_bound [of sep i t] by (simp add: occurs_at_def)

lemma split_joins: "is_split sep ts s \<Longrightarrow> join_spec ts sep = s"
  by (induction sep ts s rule: is_split.induct) auto

lemma split_tokens:
  "is_split sep ts s \<Longrightarrow> sep \<noteq> [] \<Longrightarrow> t \<in> set ts \<Longrightarrow> \<not> occurs_at sep i t"
proof (induction sep ts s rule: is_split.induct)
  case (3 sep u v ts s)
  have "\<not> occurs_at sep i u"
  proof
    assume o: "occurs_at sep i u"
    then have "i < length u" using occurs_bound [OF 3(3) o] 3(3) by (cases sep) auto
    then show False using 3(2) occurs_append [OF o 3(3)] by (metis is_split.simps(3))
  qed
  then show ?case using 3 by auto
qed auto

lemma split_unique:
  "is_split sep ts s \<Longrightarrow> is_split sep us s \<Longrightarrow> sep \<noteq> [] \<Longrightarrow> ts = us"
proof (induction sep ts s arbitrary: us rule: is_split.induct)
  case (2 sep t s)
  then show ?case
  proof (cases us rule: remdups_adj.cases)
    case (3 u v us')
    then have "occurs_at sep (length u) s" using 2(2) by (metis append_eq_conv_conj is_split.simps(3) occurs_at_def)
    then show ?thesis using 2 by auto
  qed auto
next
  case (3 sep t t' ts s)
  have o: "occurs_at sep (length t) s" using 3(2) by (metis append_eq_conv_conj is_split.simps(3) occurs_at_def)
  show ?case
  proof (cases us rule: remdups_adj.cases)
    case us: (3 u v us')
    have "occurs_at sep (length u) s" using 3(3) us by (metis append_eq_conv_conj is_split.simps(3) occurs_at_def)
    then have "length t = length u" using o 3(2,3) us by (metis is_split.simps(3) linorder_neqE_nat)
    moreover have "t = take (length t) s" "u = take (length u) s"
      using 3(2,3) us by (metis append_eq_conv_conj is_split.simps(3))+
    ultimately show ?thesis using 3 us by auto
  qed (use 3 o in auto)
qed simp

lemma split_match:
  assumes "0 < length sep" "j + length sep \<le> length s"
  shows "do {
        xs \<leftarrow> mem_read s j (length sep);
        if (length sep = 1 \<and> s ! j = sep ! 0) \<or> memcmp xs sep = 0 then a else b } = (if occurs_at sep j s then a else b)"
proof -
  define xs where "xs = take (length sep) (drop j s)"
  have lx: "length xs = length sep" using assms by (simp add: xs_def)
  have "length sep = 1 \<and> s ! j = sep ! 0 \<Longrightarrow> xs = sep"
    using assms lx by (intro nth_equalityI) (auto simp: xs_def)
  then have "(length sep = 1 \<and> s ! j = sep ! 0) \<or> memcmp xs sep = 0 \<longleftrightarrow> occurs_at sep j s"
    using memcmp_eq [OF lx] by (auto simp: occurs_at_def xs_def)
  then show ?thesis using assms(2) by (simp add: mem_read_def flip: xs_def)
qed

lemma split_first:
  assumes "start \<le> j" "occurs_at sep j s" "j + length sep \<le> length s"
    and none: "\<And>i. start \<le> i \<Longrightarrow> i < j \<Longrightarrow> \<not> occurs_at sep i s"
    and ts: "is_split sep ts (drop (j + length sep) s)"
  shows "is_split sep (take (j - start) (drop start s) # ts) (drop start s)"
proof -
  let ?t = "take (j - start) (drop start s)"
  obtain u us where us: "ts = u # us" using ts by (cases ts) auto
  have lt: "length ?t = j - start" using assms(1,3) by simp
  have d: "drop (length ?t + length sep) (drop start s) = drop (j + length sep) s"
    unfolding lt using assms(1) by (simp add: add.commute)
  have "drop start s = ?t @ drop j s" using assms(1) by (metis append_take_drop_id drop_drop le_add_diff_inverse2)
  moreover have "drop j s = sep @ drop (j + length sep) s"
    using assms(2) by (metis occurs_at_def append_take_drop_id drop_drop add.commute)
  ultimately have e: "drop start s = ?t @ sep @ drop (j + length sep) s" by metis
  have "\<not> occurs_at sep i (drop start s)" if "i < length ?t" for i
    using none [of "start + i"] that unfolding lt by (simp add: occurs_at_def add.commute)
  then show ?thesis unfolding us is_split.simps d using e ts [unfolded us] by blast
qed

lemma split_loop_spec:
  assumes "sep \<noteq> []" and "start \<le> j" and "start \<le> length s"
    and "\<And>i. start \<le> i \<Longrightarrow> i < j \<Longrightarrow> \<not> occurs_at sep i s"
  shows "\<exists>ts. sdssplitlen_loop s sep start j tokens = Some (tokens @ ts) \<and> is_split sep ts (drop start s)"
  using assms
proof (induction "length s - j" arbitrary: start j tokens rule: less_induct)
  case less
  have o: "occurs_at sep i (drop start s) \<longleftrightarrow> occurs_at sep (start + i) s" for i
    by (simp add: occurs_at_def add.commute)
  have pos: "0 < length sep" using less.prems(1) by simp
  show ?case
  proof (cases "j + (length sep - 1) < length s")
    case False
    then have n: "\<not> (0 < length sep \<and> j + (length sep - 1) < length s)" by simp
    have "\<not> occurs_at sep (start + i) s" for i
    proof
      assume c: "occurs_at sep (start + i) s"
      then have "start + i < j" using occurs_bound [OF less.prems(1) c] False pos by linarith
      then show False using less.prems(4) c by simp
    qed
    then show ?thesis
      unfolding sdssplitlen_loop.simps [of s sep start j tokens] if_not_P [OF n] by (simp add: o)
  next
    case True
    then have jl: "j < length s" and le: "j + length sep \<le> length s" and p: "0 < length sep \<and> j + (length sep - 1) < length s"
      using pos by linarith+
    note step = sdssplitlen_loop.simps [of s sep start j tokens, unfolded if_P [OF p] split_match [OF pos le]]
    show ?thesis
    proof (cases "occurs_at sep j s")
      case eq: True
      let ?t = "take (j - start) (drop start s)"
      have "\<exists>ts. sdssplitlen_loop s sep (j + length sep) (j + length sep) (tokens @ [?t]) = Some ((tokens @ [?t]) @ ts) \<and>
          is_split sep ts (drop (j + length sep) s)"
        using pos le jl less.prems(1) by (intro less.hyps) (auto intro: diff_less_mono2)
      then obtain ts where ts: "sdssplitlen_loop s sep (j + length sep) (j + length sep) (tokens @ [?t]) = Some (tokens @ ?t # ts)"
        "is_split sep ts (drop (j + length sep) s)" by auto
      then show ?thesis unfolding step using eq split_first [OF less.prems(2) eq le less.prems(4)] by auto
    next
      case ne: False
      have "\<exists>ts. sdssplitlen_loop s sep start (j + 1) tokens = Some (tokens @ ts) \<and> is_split sep ts (drop start s)"
        using less.prems ne jl less_Suc_eq by (intro less.hyps) auto
      then show ?thesis unfolding step using ne by simp
    qed
  qed
qed

lemma sdscatsds_rep:
  assumes us: "\<And>n. n \<le> us n" and "sds_rep s xs" and "sds_rep a ys" and "length xs + length ys < 2 ^ 62"
  shows "\<exists>s'. sdscatsds us junk s a = Some s' \<and> sds_rep s' (xs @ ys)"
proof -
  obtain r where "sds_buf a = ys @ 0 # r" using assms(3) by (rule sds_bufE)
  then have "mem_read (sds_buf a) 0 (sdslen a) = Some ys" using assms(3) by (simp add: mem_read_def)
  then show ?thesis using sdscatlen_rep [where us = us, OF us assms(2,4)] by (simp add: sdscatsds_def)
qed

lemma sdsjoinsds_loop_rep:
  assumes us: "\<And>n. n \<le> us n"
  shows "sds_rep join xs \<Longrightarrow> list_all2 sds_rep argv ts \<Longrightarrow> length xs + length (join_spec ts sep) < 2 ^ 62 \<Longrightarrow>
    \<exists>s'. sdsjoinsds_loop us junk join argv sep = Some s' \<and> sds_rep s' (xs @ join_spec ts sep)"
proof (induction argv arbitrary: join xs ts)
  case Nil
  then show ?case by simp
next
  case (Cons a argv)
  then obtain t us' where ts: "ts = t # us'" "sds_rep a t" "list_all2 sds_rep argv us'"
    by (auto simp: list_all2_Cons1)
  have lt: "length xs + length t < 2 ^ 62" using Cons.prems(3) ts(1) by (cases us') auto
  obtain j1 where j1: "sdscatsds us junk join a = Some j1" "sds_rep j1 (xs @ t)"
    using sdscatsds_rep [where us = us, OF us Cons.prems(1) ts(2) lt] by blast
  show ?case
  proof (cases us')
    case Nil
    then have "argv = []" using ts(3) by simp
    then show ?thesis using j1 ts(1) Nil by simp
  next
    case (Cons t' us'')
    then have ne: "argv \<noteq> []" using ts(3) by auto
    have "length (xs @ t) + length sep < 2 ^ 62" using Cons.prems(3) ts(1) Cons by simp
    then obtain j2 where j2: "sdscatlen us junk j1 sep = Some j2" "sds_rep j2 ((xs @ t) @ sep)"
      using sdscatlen_rep [where us = us, OF us j1(2)] by blast
    have "length ((xs @ t) @ sep) + length (join_spec us' sep) < 2 ^ 62" using Cons.prems(3) ts(1) Cons by simp
    then show ?thesis
      using Cons.IH [OF j2(2) ts(3)] j1(1) j2(1) ne ts(1) Cons by simp
  qed
qed

text \<open>
  C35. \<open>sdssplitlen\<close> splits at every separator, from left to right: for a non-empty string and a
  non-empty separator it reads only inside the string and returns the one way of cutting the
  string at the leftmost separator, again and again, until none is left. No token contains the
  separator, and joining the tokens with \<open>sdsjoinsds\<close> gives back the string.
\<close>

theorem split_join_roundtrip:
  assumes "\<And>n. n \<le> us n" and "s \<noteq> []" and "sep \<noteq> []" and "length s < 2 ^ 62"
  shows "\<exists>ts. sdssplitlen s sep = Some (Some ts) \<and> (\<forall>ts'. is_split sep ts' s \<longleftrightarrow> ts' = ts) \<and>
    (\<forall>t \<in> set ts. \<forall>i. \<not> occurs_at sep i t) \<and>
    (\<forall>argv. list_all2 sds_rep argv ts \<longrightarrow> (\<exists>j. sdsjoinsds us junk argv sep = Some j \<and> sds_rep j s))"
proof -
  obtain ts where ts: "sdssplitlen_loop s sep 0 0 [] = Some ts" "is_split sep ts s"
    using split_loop_spec [of sep 0 0 s "[]"] assms(3) by auto
  have "\<exists>j. sdsjoinsds us junk argv sep = Some j \<and> sds_rep j s" if "list_all2 sds_rep argv ts" for argv
  proof -
    obtain e where e: "sdsempty us junk = Some e" "sds_rep e []"
      using sdsnewlen_rep [where us = us and n = 0 and xs = "[]", OF assms(1)] by (auto simp: sdsempty_def)
    then show ?thesis
      using sdsjoinsds_loop_rep [where us = us, OF assms(1) e(2) that, of sep junk] split_joins [OF ts(2)] assms(4)
      by (simp add: sdsjoinsds_def)
  qed
  moreover have "is_split sep ts' s \<longleftrightarrow> ts' = ts" for ts' using split_unique [OF _ ts(2) assms(3)] ts(2) by blast
  ultimately show ?thesis using ts split_tokens [OF ts(2) assms(3)] assms(2,3) by (simp add: sdssplitlen_def)
qed

lemma sds_of_exists: "length xs < 2 ^ 61 \<Longrightarrow> \<exists>s. sds_rep s xs"
  using sdsnewlen_rep [where us = "\<lambda>n. n" and n = "length xs" and xs = xs] by auto

theorem split_join_roundtrip_witness:
  "sdssplitlen [97, 44, 44, 98, 44] [44] = Some (Some [[97], [], [98], []]) \<and>
   (\<exists>argv j. list_all2 sds_rep argv [[97], [], [98], []] \<and>
      sdsjoinsds (\<lambda>n. n) (\<lambda>_. 1) argv [44] = Some j \<and> sds_rep j [97, 44, 44, 98, 44])"
proof -
  have i: "is_split [44] [[97], [], [98], []] [97, 44, 44, 98, 44]" by (simp add: occurs_at_def)
  have p: "[97, 44, 44, 98, 44] \<noteq> ([] :: bytes)" "[44] \<noteq> ([] :: bytes)" "length [97, 44, 44, 98, 44 :: u8] < 2 ^ 62"
    by simp_all
  obtain ts where ts: "sdssplitlen [97, 44, 44, 98, 44] [44] = Some (Some ts) \<and>
      (\<forall>ts'. is_split [44] ts' [97, 44, 44, 98, 44] \<longleftrightarrow> ts' = ts) \<and> (\<forall>t \<in> set ts. \<forall>i. \<not> occurs_at [44] i t) \<and>
      (\<forall>argv. list_all2 sds_rep argv ts \<longrightarrow>
         (\<exists>j. sdsjoinsds (\<lambda>n. n) (\<lambda>_. 1) argv [44] = Some j \<and> sds_rep j [97, 44, 44, 98, 44]))"
    using split_join_roundtrip [OF order_refl p, of "\<lambda>_. 1"] by (rule exE)
  then have e: "[[97], [], [98], []] = ts" using i by (elim conjE allE) (rule iffD1)
  obtain a b c where "sds_rep a [97]" "sds_rep b []" "sds_rep c [98]"
    using sds_of_exists [of "[97]"] sds_of_exists [of "[]"] sds_of_exists [of "[98]"] by auto
  then have l: "list_all2 sds_rep [a, b, c, b] [[97], [], [98], []]" by simp
  then obtain j where "sdsjoinsds (\<lambda>n. n) (\<lambda>_. 1) [a, b, c, b] [44] = Some j" "sds_rep j [97, 44, 44, 98, 44]"
    using ts unfolding e by blast
  then show ?thesis using ts l unfolding e by blast
qed

fun lex_less :: "bytes \<Rightarrow> bytes \<Rightarrow> bool" where
  "lex_less xs [] = False"
| "lex_less [] (y # ys) = True"
| "lex_less (x # xs) (y # ys) = (x < y \<or> x = y \<and> lex_less xs ys)"

lemma memcmp_lex:
  "(memcmp xs ys = 0 \<and> length xs < length ys) \<or> memcmp xs ys < 0 \<longleftrightarrow> lex_less xs ys"
  "(memcmp xs ys = 0 \<and> length xs = length ys) \<longleftrightarrow> xs = ys"
  by (induction xs ys rule: lex_less.induct) (auto split: if_splits)

lemma memcmp_prefix: "memcmp (take n xs) (take n ys) = memcmp xs ys" if "n = min (length xs) (length ys)"
  using that
proof (induction xs ys arbitrary: n rule: memcmp.induct)
  case (1 x xs y ys)
  then show ?case by (cases n) auto
qed auto

text \<open>
  C37. \<open>sdscmp\<close> is the lexicographic order on the contents, with a proper prefix first:
  it returns 0 exactly for equal strings and a negative number exactly when the first string is
  smaller.
\<close>

theorem sdscmp_lexicographic:
  assumes "sds_rep s1 xs" and "sds_rep s2 ys"
  shows "\<exists>r. sdscmp s1 s2 = Some r \<and> (r = 0 \<longleftrightarrow> xs = ys) \<and> (r < 0 \<longleftrightarrow> lex_less xs ys)"
proof -
  let ?n = "if length xs < length ys then length xs else length ys"
  have n: "?n = min (length xs) (length ys)" by auto
  obtain r1 r2 where "sds_buf s1 = xs @ 0 # r1" "sds_buf s2 = ys @ 0 # r2"
    using assms by (meson sds_bufE)
  then have "mem_read (sds_buf s1) 0 ?n = Some (take ?n xs)" "mem_read (sds_buf s2) 0 ?n = Some (take ?n ys)"
    by (auto simp: mem_read_def)
  then show ?thesis
    using assms memcmp_lex [of xs ys] memcmp_prefix [OF n] by (auto simp: sdscmp_def Let_def)
qed

theorem sdscmp_lexicographic_witness:
  "\<exists>r. sdscmp \<lparr>sds_type = SDS_TYPE_8, sds_hlen = 1, sds_halloc = 1, sds_buf = [1, 0]\<rparr>
      \<lparr>sds_type = SDS_TYPE_5, sds_hlen = 2, sds_halloc = 0, sds_buf = [1, 2, 0]\<rparr> = Some r \<and>
    (r = 0 \<longleftrightarrow> [1 :: u8] = [1, 2]) \<and> (r < 0 \<longleftrightarrow> lex_less [1] [1, 2])"
  using sdscmp_lexicographic [of "\<lparr>sds_type = SDS_TYPE_8, sds_hlen = 1, sds_halloc = 1, sds_buf = [1, 0]\<rparr>" "[1]"
      "\<lparr>sds_type = SDS_TYPE_5, sds_hlen = 2, sds_halloc = 0, sds_buf = [1, 2, 0]\<rparr>" "[1, 2]"]
  by (simp add: sds_rep_def sdsalloc_def)

end
