(* ===== verification/Dict.thy ===== *)
theory Dict
  imports Redis_Interfaces "HOL-Library.Multiset"
begin

text \<open>
  The hash tables of \<open>src/dict.c\<close>: two tables of chained buckets, growth and shrinking
  by powers of two, incremental rehashing driven by every lookup and update, and the operations
  to add, replace, find and delete keys. The hash function, the resize policy of the server and
  the callback that may veto a growth are parameters; entries are key-value pairs, the encodings
  of entries without a value are not distinguished. \<open>dict_ok\<close> is the structural
  invariant, \<open>dict_map\<close> the map a dictionary stands for; the theory interprets the
  contract of maps on the operations.
\<close>

section \<open>Representation\<close>

text \<open>
  A bucket is the chain of its entries, first entry first; \<open>ht_table\<close> is \<open>None\<close>
  for a null pointer. The two elements of each of the C arrays \<open>ht_table\<close>,
  \<open>ht_used\<close> and \<open>ht_size_exp\<close> are grouped into one record per table.
\<close>

record ('k, 'v) dictht =
  ht_table :: "('k \<times> 'v) list list option"
  ht_used :: nat
  ht_size_exp :: int

record ('k, 'v) dict =
  ht0 :: "('k, 'v) dictht"
  ht1 :: "('k, 'v) dictht"
  rehashidx :: int
  pauserehash :: int

datatype dictResizeEnable = DICT_RESIZE_ENABLE | DICT_RESIZE_AVOID | DICT_RESIZE_FORBID

definition DICTHT_SIZE :: "int \<Rightarrow> nat" where
  "DICTHT_SIZE e = (if e = - 1 then 0 else push_bit (nat e) 1)"

definition DICTHT_SIZE_MASK :: "int \<Rightarrow> nat" where
  "DICTHT_SIZE_MASK e = (if e = - 1 then 0 else DICTHT_SIZE e - 1)"

definition DICT_HT_INITIAL_EXP :: int where
  "DICT_HT_INITIAL_EXP = 2"

definition DICT_HT_INITIAL_SIZE :: nat where
  "DICT_HT_INITIAL_SIZE = 4"

definition dict_force_resize_ratio :: nat where
  "dict_force_resize_ratio = 5"

definition dictSize :: "('k, 'v) dict \<Rightarrow> nat" where
  "dictSize d = ht_used (ht0 d) + ht_used (ht1 d)"

definition dictIsRehashing :: "('k, 'v) dict \<Rightarrow> bool" where
  "dictIsRehashing d \<longleftrightarrow> rehashidx d \<noteq> - 1"

definition dictReset :: "('k, 'v) dictht" where
  "dictReset = \<lparr>ht_table = None, ht_used = 0, ht_size_exp = - 1\<rparr>"

definition dictCreate :: "('k, 'v) dict" where
  "dictCreate = \<lparr>ht0 = dictReset, ht1 = dictReset, rehashidx = - 1, pauserehash = 0\<rparr>"

section \<open>Resizing\<close>

text \<open>The number of bits of a number: 64 minus the count of leading zeros of the builtin.\<close>

fun bit_length :: "nat \<Rightarrow> nat" where
  "bit_length n = (if n = 0 then 0 else Suc (bit_length (n div 2)))"

declare bit_length.simps [simp del]

definition clzl :: "nat \<Rightarrow> nat" where
  "clzl n = 64 - bit_length n"

definition dictNextExp :: "nat \<Rightarrow> int" where
  "dictNextExp sz =
     (if sz \<le> DICT_HT_INITIAL_SIZE then DICT_HT_INITIAL_EXP
      else if 2 ^ 63 - 1 \<le> sz then 63
      else int (64 - clzl (sz - 1)))"

text \<open>
  \<open>malloc_failed\<close> is \<open>None\<close> for a null argument, and otherwise says whether the
  fallible allocation fails. The first component of the result is \<open>DICT_OK\<close>.
\<close>

definition dictExpand' :: "('k, 'v) dict \<Rightarrow> nat \<Rightarrow> bool option \<Rightarrow> bool \<times> ('k, 'v) dict" where
  "dictExpand' d sz malloc_failed =
     (if dictIsRehashing d \<or> ht_used (ht0 d) > sz then (False, d)
      else let e = dictNextExp sz; newsize = push_bit (nat e) 1 :: nat
           in if newsize < sz \<or> (newsize * 8) mod 2 ^ 64 < newsize then (False, d)
              else if e = ht_size_exp (ht0 d) then (False, d)
              else if malloc_failed = Some True then (False, d)
              else let ht = \<lparr>ht_table = Some (replicate newsize []), ht_used = 0, ht_size_exp = e\<rparr>
                   in if ht_table (ht0 d) = None then (True, d\<lparr>ht0 := ht\<rparr>)
                      else (True, d\<lparr>ht1 := ht, rehashidx := 0\<rparr>))"

definition dictExpand :: "('k, 'v) dict \<Rightarrow> nat \<Rightarrow> bool \<times> ('k, 'v) dict" where
  "dictExpand d sz = dictExpand' d sz None"

definition dictTryExpand :: "('k, 'v) dict \<Rightarrow> nat \<Rightarrow> bool \<Rightarrow> bool \<times> ('k, 'v) dict" where
  "dictTryExpand d sz oom =
     (let d' = snd (dictExpand' d sz (Some oom));
          malloc_failed = (oom \<and> \<not> (dictIsRehashing d \<or> ht_used (ht0 d) > sz) \<and>
            (let e = dictNextExp sz; newsize = push_bit (nat e) 1 :: nat
             in \<not> (newsize < sz \<or> (newsize * 8) mod 2 ^ 64 < newsize) \<and> e \<noteq> ht_size_exp (ht0 d)))
      in (\<not> malloc_failed, d'))"

definition dictResize :: "dictResizeEnable \<Rightarrow> ('k, 'v) dict \<Rightarrow> bool \<times> ('k, 'v) dict" where
  "dictResize can_resize d =
     (if can_resize \<noteq> DICT_RESIZE_ENABLE \<or> dictIsRehashing d then (False, d)
      else let minimal = ht_used (ht0 d);
               minimal = (if minimal < DICT_HT_INITIAL_SIZE then DICT_HT_INITIAL_SIZE else minimal)
           in dictExpand d minimal)"

text \<open>
  Incremental rehashing. The chain of a bucket is moved entry by entry to the heads of its
  new buckets; the hash function is a parameter. The counters are decremented only while
  entries are left, which the invariant below makes explicit.
\<close>

fun rehash_chain :: "('k \<Rightarrow> nat) \<Rightarrow> nat \<Rightarrow> ('k \<times> 'v) list \<Rightarrow> ('k, 'v) dict \<Rightarrow> ('k, 'v) dict option" where
  "rehash_chain hash idx [] d = Some d"
| "rehash_chain hash idx (de # nextde) d = do {
     let e0 = ht_size_exp (ht0 d);
     let e1 = ht_size_exp (ht1 d);
     let h = (if e1 > e0 then hash (fst de) AND DICTHT_SIZE_MASK e1 else idx AND DICTHT_SIZE_MASK e1);
     t \<leftarrow> ht_table (ht1 d);
     b \<leftarrow> rd t h;
     t \<leftarrow> wr t h (de # b);
     rehash_chain hash idx nextde
       (d\<lparr>ht0 := (ht0 d)\<lparr>ht_used := ht_used (ht0 d) - 1\<rparr>,
          ht1 := (ht1 d)\<lparr>ht_table := Some t, ht_used := ht_used (ht1 d) + 1\<rparr>\<rparr>) }"

text \<open>
  Skipping empty buckets: the new index, the visits left, and whether the visits ran out.
\<close>

function rehash_skip :: "('k \<times> 'v) list list \<Rightarrow> nat \<Rightarrow> int \<Rightarrow> (nat \<times> int \<times> bool) option" where
  "rehash_skip t idx visits =
     (if idx < length t
      then if t ! idx = []
           then if visits - 1 = 0 then Some (idx + 1, 0, True) else rehash_skip t (idx + 1) (visits - 1)
           else Some (idx, visits, False)
      else None)"
  by pat_completeness auto
termination by (relation "measure (\<lambda>(t, idx, visits). length t - idx)") auto

declare rehash_skip.simps [simp del]

fun rehash_loop :: "('k \<Rightarrow> nat) \<Rightarrow> nat \<Rightarrow> int \<Rightarrow> ('k, 'v) dict \<Rightarrow> (('k, 'v) dict \<times> bool) option" where
  "rehash_loop hash 0 visits d = Some (d, False)"
| "rehash_loop hash (Suc n) visits d =
     (if ht_used (ht0 d) = 0 then Some (d, False)
      else do {
        c_assert (int (DICTHT_SIZE (ht_size_exp (ht0 d))) > rehashidx d);
        t \<leftarrow> ht_table (ht0 d);
        (idx, visits, stop) \<leftarrow> rehash_skip t (nat (rehashidx d)) visits;
        if stop then Some (d\<lparr>rehashidx := int idx\<rparr>, True)
        else do {
          d \<leftarrow> rehash_chain hash idx (t ! idx) (d\<lparr>rehashidx := int idx\<rparr>);
          rehash_loop hash n visits
            (d\<lparr>ht0 := (ht0 d)\<lparr>ht_table := Some (t[idx := []])\<rparr>, rehashidx := int idx + 1\<rparr>) } })"

text \<open>
  \<open>n * 10\<close>, an \<open>int\<close> in the code, is not bounded here; the callers pass at most 100. The variants of an
  entry without a value or with a tagged key are not modelled.
\<close>

definition dictRehash ::
  "dictResizeEnable \<Rightarrow> ('k \<Rightarrow> nat) \<Rightarrow> ('k, 'v) dict \<Rightarrow> nat \<Rightarrow> (bool \<times> ('k, 'v) dict) option" where
  "dictRehash can_resize hash d n =
     (let s0 = DICTHT_SIZE (ht_size_exp (ht0 d)); s1 = DICTHT_SIZE (ht_size_exp (ht1 d))
      in if can_resize = DICT_RESIZE_FORBID \<or> \<not> dictIsRehashing d then Some (False, d)
         else if can_resize = DICT_RESIZE_AVOID \<and>
           ((s1 > s0 \<and> s1 div s0 < dict_force_resize_ratio) \<or> (s1 < s0 \<and> s0 div s1 < dict_force_resize_ratio))
         then Some (False, d)
         else do {
           (d, stop) \<leftarrow> rehash_loop hash n (int n * 10) d;
           if stop then Some (True, d)
           else if ht_used (ht0 d) = 0
           then Some (False, d\<lparr>ht0 := ht1 d, ht1 := dictReset, rehashidx := - 1\<rparr>)
           else Some (True, d) })"

definition dictRehashStep ::
  "dictResizeEnable \<Rightarrow> ('k \<Rightarrow> nat) \<Rightarrow> ('k, 'v) dict \<Rightarrow> ('k, 'v) dict option" where
  "dictRehashStep can_resize hash d =
     (if pauserehash d = 0 then map_option snd (dictRehash can_resize hash d 1) else Some d)"

text \<open>
  \<open>allow\<close> is the callback of the dictionary type: the memory the new table needs, and the
  numerator and denominator of the load factor.
\<close>

definition dictTypeExpandAllowed :: "(nat \<Rightarrow> nat \<Rightarrow> nat \<Rightarrow> bool) option \<Rightarrow> ('k, 'v) dict \<Rightarrow> bool" where
  "dictTypeExpandAllowed allow d = (case allow of
      None \<Rightarrow> True
    | Some f \<Rightarrow> f (DICTHT_SIZE (dictNextExp (ht_used (ht0 d) + 1)) * 8) (ht_used (ht0 d)) (DICTHT_SIZE (ht_size_exp (ht0 d))))"

definition dictExpandIfNeeded ::
  "dictResizeEnable \<Rightarrow> (nat \<Rightarrow> nat \<Rightarrow> nat \<Rightarrow> bool) option \<Rightarrow> ('k, 'v) dict \<Rightarrow> bool \<times> ('k, 'v) dict" where
  "dictExpandIfNeeded can_resize allow d =
     (if dictIsRehashing d then (True, d)
      else if DICTHT_SIZE (ht_size_exp (ht0 d)) = 0 then dictExpand d DICT_HT_INITIAL_SIZE
      else if (can_resize = DICT_RESIZE_ENABLE \<and> ht_used (ht0 d) \<ge> DICTHT_SIZE (ht_size_exp (ht0 d))) \<or>
        (can_resize \<noteq> DICT_RESIZE_FORBID \<and>
         ht_used (ht0 d) div DICTHT_SIZE (ht_size_exp (ht0 d)) > dict_force_resize_ratio)
      then if \<not> dictTypeExpandAllowed allow d then (True, d) else dictExpand d (ht_used (ht0 d) + 1)
      else (True, d))"

section \<open>Lookup and update\<close>

text \<open>
  A key is compared by equality; an entry pointer is represented by the key of the entry, which
  is unique in the dictionary.
\<close>

definition find_in :: "('k \<Rightarrow> nat) \<Rightarrow> ('k, 'v) dictht \<Rightarrow> 'k \<Rightarrow> 'v option option" where
  "find_in hash ht key = do {
     t \<leftarrow> ht_table ht;
     b \<leftarrow> rd t (hash key AND DICTHT_SIZE_MASK (ht_size_exp ht));
     Some (map_of b key) }"

definition find_tables :: "('k \<Rightarrow> nat) \<Rightarrow> ('k, 'v) dict \<Rightarrow> 'k \<Rightarrow> 'v option option" where
  "find_tables hash d key = do {
     r \<leftarrow> find_in hash (ht0 d) key;
     if r \<noteq> None then Some r
     else if \<not> dictIsRehashing d then Some None
     else find_in hash (ht1 d) key }"

definition dictFind ::
  "dictResizeEnable \<Rightarrow> ('k \<Rightarrow> nat) \<Rightarrow> ('k, 'v) dict \<Rightarrow> 'k \<Rightarrow> ('v option \<times> ('k, 'v) dict) option" where
  "dictFind can_resize hash d key =
     (if dictSize d = 0 then Some (None, d)
      else do {
        d \<leftarrow> (if dictIsRehashing d then dictRehashStep can_resize hash d else Some d);
        r \<leftarrow> find_tables hash d key;
        Some (r, d) })"

text \<open>
  The position is the index of the bucket in the table new keys go to; no position means that
  the key exists (its value is the second component) or that the table could not grow.
\<close>

definition dictFindPositionForInsert ::
  "dictResizeEnable \<Rightarrow> (nat \<Rightarrow> nat \<Rightarrow> nat \<Rightarrow> bool) option \<Rightarrow> ('k \<Rightarrow> nat) \<Rightarrow> ('k, 'v) dict \<Rightarrow> 'k \<Rightarrow>
     (nat option \<times> 'v option \<times> ('k, 'v) dict) option" where
  "dictFindPositionForInsert can_resize allow hash d key = do {
     d \<leftarrow> (if dictIsRehashing d then dictRehashStep can_resize hash d else Some d);
     let (ok, d) = dictExpandIfNeeded can_resize allow d;
     if \<not> ok then Some (None, None, d)
     else do {
       r \<leftarrow> find_tables hash d key;
       case r of
         Some v \<Rightarrow> Some (None, Some v, d)
       | None \<Rightarrow>
           let ht = (if dictIsRehashing d then ht1 d else ht0 d)
           in Some (Some (hash key AND DICTHT_SIZE_MASK (ht_size_exp ht)), None, d) } }"

definition insert_ht :: "('k, 'v) dictht \<Rightarrow> 'k \<Rightarrow> 'v \<Rightarrow> nat \<Rightarrow> ('k, 'v) dictht option" where
  "insert_ht ht key val pos = do {
     c_assert (pos \<le> DICTHT_SIZE_MASK (ht_size_exp ht));
     t \<leftarrow> ht_table ht;
     b \<leftarrow> rd t pos;
     t \<leftarrow> wr t pos ((key, val) # b);
     Some (ht\<lparr>ht_table := Some t, ht_used := ht_used ht + 1\<rparr>) }"

definition dictInsertAtPosition ::
  "('k, 'v) dict \<Rightarrow> 'k \<Rightarrow> 'v \<Rightarrow> nat \<Rightarrow> ('k, 'v) dict option" where
  "dictInsertAtPosition d key val pos =
     (if dictIsRehashing d
      then do { ht \<leftarrow> insert_ht (ht1 d) key val pos; Some (d\<lparr>ht1 := ht\<rparr>) }
      else do { ht \<leftarrow> insert_ht (ht0 d) key val pos; Some (d\<lparr>ht0 := ht\<rparr>) })"

text \<open>
  The value of a new entry is not initialised until the caller sets it: \<open>v0\<close>. The first
  component is whether an entry was added, the second the value of an existing one.
\<close>

definition dictAddRaw ::
  "dictResizeEnable \<Rightarrow> (nat \<Rightarrow> nat \<Rightarrow> nat \<Rightarrow> bool) option \<Rightarrow> ('k \<Rightarrow> nat) \<Rightarrow> ('k, 'v) dict \<Rightarrow> 'k \<Rightarrow> 'v \<Rightarrow>
     (bool \<times> 'v option \<times> ('k, 'v) dict) option" where
  "dictAddRaw can_resize allow hash d key v0 = do {
     (pos, existing, d) \<leftarrow> dictFindPositionForInsert can_resize allow hash d key;
     case pos of
       None \<Rightarrow> Some (False, existing, d)
     | Some p \<Rightarrow> do { d \<leftarrow> dictInsertAtPosition d key v0 p; Some (True, None, d) } }"

definition chain_set :: "'k \<Rightarrow> 'v \<Rightarrow> ('k \<times> 'v) list \<Rightarrow> ('k \<times> 'v) list" where
  "chain_set key val = map (\<lambda>(k, v). if k = key then (k, val) else (k, v))"

definition dictSetVal :: "('k, 'v) dict \<Rightarrow> 'k \<Rightarrow> 'v \<Rightarrow> ('k, 'v) dict" where
  "dictSetVal d key val =
     d\<lparr>ht0 := (ht0 d)\<lparr>ht_table := map_option (map (chain_set key val)) (ht_table (ht0 d))\<rparr>,
       ht1 := (ht1 d)\<lparr>ht_table := map_option (map (chain_set key val)) (ht_table (ht1 d))\<rparr>\<rparr>"

definition dictAdd ::
  "dictResizeEnable \<Rightarrow> (nat \<Rightarrow> nat \<Rightarrow> nat \<Rightarrow> bool) option \<Rightarrow> ('k \<Rightarrow> nat) \<Rightarrow> 'v \<Rightarrow> ('k, 'v) dict \<Rightarrow> 'k \<Rightarrow> 'v \<Rightarrow>
     (bool \<times> ('k, 'v) dict) option" where
  "dictAdd can_resize allow hash v0 d key val = do {
     (added, existing, d) \<leftarrow> dictAddRaw can_resize allow hash d key v0;
     if \<not> added then Some (False, d) else Some (True, dictSetVal d key val) }"

text \<open>
  The entry whose value is set is given by its key, where the code has a pointer to it. Where
  \<open>dictAddRaw\<close> neither adds an entry nor finds one, \<open>dictReplace\<close> reads the value through a pointer
  that is not set.
\<close>

definition dictReplace ::
  "dictResizeEnable \<Rightarrow> (nat \<Rightarrow> nat \<Rightarrow> nat \<Rightarrow> bool) option \<Rightarrow> ('k \<Rightarrow> nat) \<Rightarrow> 'v \<Rightarrow> ('k, 'v) dict \<Rightarrow> 'k \<Rightarrow> 'v \<Rightarrow>
     (bool \<times> ('k, 'v) dict) option" where
  "dictReplace can_resize allow hash v0 d key val = do {
     (added, existing, d) \<leftarrow> dictAddRaw can_resize allow hash d key v0;
     if added then Some (True, dictSetVal d key val)
     else do { oldval \<leftarrow> existing; Some (False, dictSetVal d key val) } }"

fun chain_remove :: "'k \<Rightarrow> ('k \<times> 'v) list \<Rightarrow> ('k \<times> 'v) list" where
  "chain_remove key [] = []"
| "chain_remove key ((k, v) # b) = (if k = key then b else (k, v) # chain_remove key b)"

definition delete_in ::
  "('k \<Rightarrow> nat) \<Rightarrow> ('k, 'v) dictht \<Rightarrow> 'k \<Rightarrow> ('v option \<times> ('k, 'v) dictht) option" where
  "delete_in hash ht key = do {
     t \<leftarrow> ht_table ht;
     let idx = hash key AND DICTHT_SIZE_MASK (ht_size_exp ht);
     b \<leftarrow> rd t idx;
     case map_of b key of
       None \<Rightarrow> Some (None, ht)
     | Some v \<Rightarrow> do {
         t \<leftarrow> wr t idx (chain_remove key b);
         Some (Some v, ht\<lparr>ht_table := Some t, ht_used := ht_used ht - 1\<rparr>) } }"

definition dictGenericDelete ::
  "dictResizeEnable \<Rightarrow> ('k \<Rightarrow> nat) \<Rightarrow> ('k, 'v) dict \<Rightarrow> 'k \<Rightarrow> ('v option \<times> ('k, 'v) dict) option" where
  "dictGenericDelete can_resize hash d key =
     (if dictSize d = 0 then Some (None, d)
      else do {
        d \<leftarrow> (if dictIsRehashing d then dictRehashStep can_resize hash d else Some d);
        (r, ht) \<leftarrow> delete_in hash (ht0 d) key;
        if r \<noteq> None then Some (r, d\<lparr>ht0 := ht\<rparr>)
        else if \<not> dictIsRehashing d then Some (None, d)
        else do {
          (r, ht) \<leftarrow> delete_in hash (ht1 d) key;
          Some (r, if r \<noteq> None then d\<lparr>ht1 := ht\<rparr> else d) } })"

definition dictDelete ::
  "dictResizeEnable \<Rightarrow> ('k \<Rightarrow> nat) \<Rightarrow> ('k, 'v) dict \<Rightarrow> 'k \<Rightarrow> (bool \<times> ('k, 'v) dict) option" where
  "dictDelete can_resize hash d key = do {
     (r, d) \<leftarrow> dictGenericDelete can_resize hash d key;
     Some (r \<noteq> None, d) }"

definition dictUnlink ::
  "dictResizeEnable \<Rightarrow> ('k \<Rightarrow> nat) \<Rightarrow> ('k, 'v) dict \<Rightarrow> 'k \<Rightarrow> ('v option \<times> ('k, 'v) dict) option" where
  "dictUnlink can_resize hash d key = dictGenericDelete can_resize hash d key"

definition dictFetchValue ::
  "dictResizeEnable \<Rightarrow> ('k \<Rightarrow> nat) \<Rightarrow> ('k, 'v) dict \<Rightarrow> 'k \<Rightarrow> ('v option \<times> ('k, 'v) dict) option" where
  "dictFetchValue can_resize hash d key = dictFind can_resize hash d key"

text \<open>
  \<open>_dictClear\<close> frees the entries of the buckets until none is left, then the table,
  and resets it whatever it held.
\<close>

definition dictClear :: "('k, 'v) dictht \<Rightarrow> ('k, 'v) dictht" where
  "dictClear ht = dictReset"

definition dictEmpty :: "('k, 'v) dict \<Rightarrow> ('k, 'v) dict" where
  "dictEmpty d = d\<lparr>ht0 := dictClear (ht0 d), ht1 := dictClear (ht1 d), rehashidx := - 1, pauserehash := 0\<rparr>"

section \<open>The dictionary invariant\<close>

definition ht_entries :: "('k, 'v) dictht \<Rightarrow> ('k \<times> 'v) list" where
  "ht_entries ht = (case ht_table ht of None \<Rightarrow> [] | Some t \<Rightarrow> concat t)"

text \<open>
  A table is either unallocated or has a power of two of buckets, counts its entries, and holds
  every entry in the bucket its hash selects.
\<close>

definition ht_ok :: "('k \<Rightarrow> nat) \<Rightarrow> ('k, 'v) dictht \<Rightarrow> bool" where
  "ht_ok hash ht \<longleftrightarrow> (case ht_table ht of
      None \<Rightarrow> ht_used ht = 0 \<and> ht_size_exp ht = - 1
    | Some t \<Rightarrow> 0 \<le> ht_size_exp ht \<and> length t = 2 ^ nat (ht_size_exp ht) \<and>
        ht_used ht = length (concat t) \<and>
        (\<forall>i < length t. \<forall>x \<in> set (t ! i). hash (fst x) mod 2 ^ nat (ht_size_exp ht) = i))"

definition dict_entries :: "('k, 'v) dict \<Rightarrow> ('k \<times> 'v) list" where
  "dict_entries d = ht_entries (ht0 d) @ ht_entries (ht1 d)"

definition rehash_ok :: "('k, 'v) dict \<Rightarrow> bool" where
  "rehash_ok d \<longleftrightarrow> (if rehashidx d = - 1 then ht1 d = dictReset
     else 0 \<le> rehashidx d \<and> ht_table (ht1 d) \<noteq> None \<and> ht_size_exp (ht0 d) \<noteq> ht_size_exp (ht1 d) \<and>
       (case ht_table (ht0 d) of None \<Rightarrow> False | Some t \<Rightarrow>
          nat (rehashidx d) \<le> length t \<and> (\<forall>i < nat (rehashidx d). t ! i = [])))"

definition dict_ok :: "('k \<Rightarrow> nat) \<Rightarrow> ('k, 'v) dict \<Rightarrow> bool" where
  "dict_ok hash d \<longleftrightarrow> ht_ok hash (ht0 d) \<and> ht_ok hash (ht1 d) \<and> rehash_ok d \<and>
     distinct (map fst (dict_entries d))"

text \<open>The map a dictionary stands for.\<close>

definition dict_map :: "('k, 'v) dict \<Rightarrow> 'k \<Rightarrow> 'v option" where
  "dict_map d = map_of (dict_entries d)"

lemma mask_mod: "0 \<le> e \<Longrightarrow> h AND DICTHT_SIZE_MASK e = h mod 2 ^ nat e"
  using take_bit_eq_mask [of "nat e" h]
  by (simp add: DICTHT_SIZE_MASK_def DICTHT_SIZE_def push_bit_of_1 take_bit_eq_mod mask_eq_exp_minus_1)

lemma size_pow: "0 \<le> e \<Longrightarrow> DICTHT_SIZE e = 2 ^ nat e"
  by (simp add: DICTHT_SIZE_def push_bit_of_1)

lemma ht_ok_reset [simp]: "ht_ok hash dictReset" "ht_entries dictReset = []" "ht_table dictReset = None"
  "ht_used dictReset = 0"
  by (simp_all add: ht_ok_def dictReset_def ht_entries_def)

lemma concat_update:
  assumes "i < length t"
  shows "mset (concat (t[i := b])) + mset (t ! i) = mset (concat t) + mset b"
    and "length (concat (t[i := b])) + length (t ! i) = length (concat t) + length b"
proof -
  have t: "t = take i t @ t ! i # drop (Suc i) t" using assms by (rule id_take_nth_drop)
  have u: "t[i := b] = take i t @ b # drop (Suc i) t" using assms by (rule upd_conv_take_nth_drop)
  have c: "concat t = concat (take i t) @ t ! i @ concat (drop (Suc i) t)"
    by (subst t) simp
  show "mset (concat (t[i := b])) + mset (t ! i) = mset (concat t) + mset b"
    unfolding u c by (simp add: ac_simps)
  show "length (concat (t[i := b])) + length (t ! i) = length (concat t) + length b"
    unfolding u c by simp
qed

lemma ht_okE:
  assumes "ht_ok hash ht" and "ht_table ht = Some t"
  shows "0 \<le> ht_size_exp ht" "length t = 2 ^ nat (ht_size_exp ht)" "ht_used ht = length (concat t)"
    "i < length t \<Longrightarrow> x \<in> set (t ! i) \<Longrightarrow> hash (fst x) mod 2 ^ nat (ht_size_exp ht) = i"
    "ht_entries ht = concat t"
  using assms by (auto simp: ht_ok_def ht_entries_def)

text \<open>Replacing one bucket of a table, with the counter adjusted.\<close>

lemma ht_ok_update:
  assumes ok: "ht_ok hash ht" and t: "ht_table ht = Some t" and i: "i < length t"
    and b: "\<And>x. x \<in> set b \<Longrightarrow> hash (fst x) mod 2 ^ nat (ht_size_exp ht) = i"
    and n: "n + length (t ! i) = ht_used ht + length b"
  shows "ht_ok hash (ht\<lparr>ht_table := Some (t[i := b]), ht_used := n\<rparr>)"
    and "mset (ht_entries (ht\<lparr>ht_table := Some (t[i := b]), ht_used := n\<rparr>)) + mset (t ! i) =
      mset (ht_entries ht) + mset b"
proof -
  note o = ht_okE [OF ok t]
  have "n = length (concat (t[i := b]))" using n o(3) concat_update(2) [OF i, of b] by linarith
  moreover have "hash (fst x) mod 2 ^ nat (ht_size_exp ht) = j" if "j < length t" "x \<in> set (t[i := b] ! j)" for j x
    using that b o(4) by (cases "j = i") auto
  ultimately show "ht_ok hash (ht\<lparr>ht_table := Some (t[i := b]), ht_used := n\<rparr>)"
    using o(1,2) by (simp add: ht_ok_def)
  show "mset (ht_entries (ht\<lparr>ht_table := Some (t[i := b]), ht_used := n\<rparr>)) + mset (t ! i) =
      mset (ht_entries ht) + mset b"
    using concat_update(1) [OF i, of b] o(5) by (simp add: ht_entries_def)
qed

lemma dict_map_mset:
  assumes "distinct (map fst (dict_entries d))" and "mset (dict_entries d') = mset (dict_entries d)"
  shows "distinct (map fst (dict_entries d'))" and "dict_map d' = dict_map d"
proof -
  have "mset (map fst (dict_entries d')) = mset (map fst (dict_entries d))" using assms(2) by simp
  then show dist: "distinct (map fst (dict_entries d'))"
    using assms(1) mset_eq_imp_distinct_iff by blast
  have "set (dict_entries d') = set (dict_entries d)" using assms(2) by (metis set_mset_mset)
  then show "dict_map d' = dict_map d"
    unfolding dict_map_def using map_of_inject_set [OF dist assms(1)] by blast
qed

section \<open>Rehashing keeps the map\<close>

lemma rehash_chain_ok:
  assumes "ht_ok hash (ht1 d)" and "ht_table (ht1 d) = Some t1" and "0 \<le> ht_size_exp (ht0 d)"
    and "ht_size_exp (ht0 d) \<noteq> ht_size_exp (ht1 d)"
    and "\<And>x. x \<in> set chain \<Longrightarrow> hash (fst x) mod 2 ^ nat (ht_size_exp (ht0 d)) = idx"
    and "length chain \<le> ht_used (ht0 d)"
  shows "\<exists>ht. rehash_chain hash idx chain d =
      Some (d\<lparr>ht0 := (ht0 d)\<lparr>ht_used := ht_used (ht0 d) - length chain\<rparr>, ht1 := ht\<rparr>) \<and>
    ht_ok hash ht \<and> ht_table ht \<noteq> None \<and> ht_size_exp ht = ht_size_exp (ht1 d) \<and>
    mset (ht_entries ht) = mset chain + mset (ht_entries (ht1 d))"
  using assms
proof (induction chain arbitrary: d t1)
  case Nil
  then show ?case by (intro exI [of _ "ht1 d"]) simp
next
  case (Cons x chain)
  let ?e0 = "ht_size_exp (ht0 d)" and ?e1 = "ht_size_exp (ht1 d)"
  note o = ht_okE [OF Cons.prems(1,2)]
  define i where "i = hash (fst x) mod 2 ^ nat ?e1"
  have h: "(if ?e1 > ?e0 then hash (fst x) AND DICTHT_SIZE_MASK ?e1 else idx AND DICTHT_SIZE_MASK ?e1) = i"
  proof (cases "?e1 > ?e0")
    case True
    then show ?thesis using mask_mod [OF o(1)] by (simp add: i_def)
  next
    case False
    have "hash (fst x) mod 2 ^ nat ?e0 = idx" using Cons.prems(5) by simp
    moreover have "(2 :: nat) ^ nat ?e1 dvd 2 ^ nat ?e0" using False by (simp add: le_imp_power_dvd nat_mono)
    ultimately have "idx mod 2 ^ nat ?e1 = i" unfolding i_def by (metis mod_mod_cancel)
    then show ?thesis using False mask_mod [OF o(1), of idx] by simp
  qed
  have il: "i < length t1" using o(2) by (simp add: i_def)
  let ?b = "x # t1 ! i"
  let ?ht = "(ht1 d)\<lparr>ht_table := Some (t1[i := ?b]), ht_used := ht_used (ht1 d) + 1\<rparr>"
  let ?d = "d\<lparr>ht0 := (ht0 d)\<lparr>ht_used := ht_used (ht0 d) - 1\<rparr>, ht1 := ?ht\<rparr>"
  have bi: "hash (fst y) mod 2 ^ nat ?e1 = i" if "y \<in> set ?b" for y
  proof (cases "y = x")
    case True
    then show ?thesis by (simp add: i_def)
  next
    case False
    then have "y \<in> set (t1 ! i)" using that by simp
    with il show ?thesis by (rule o(4))
  qed
  have ok: "ht_ok hash ?ht"
    by (rule ht_ok_update(1) [OF Cons.prems(1,2) il bi]) simp_all
  have "mset (ht_entries ?ht) + mset (t1 ! i) = mset (ht_entries (ht1 d)) + mset ?b"
    by (rule ht_ok_update(2) [OF Cons.prems(1,2) il bi]) simp_all
  then have ms: "mset (ht_entries ?ht) = add_mset x (mset (ht_entries (ht1 d)))" by simp
  have step: "rehash_chain hash idx (x # chain) d = rehash_chain hash idx chain ?d"
    unfolding rehash_chain.simps Let_def h using Cons.prems(2) il by (simp add: rd_Some wr_Some)
  have "\<exists>ht. rehash_chain hash idx chain ?d =
      Some (?d\<lparr>ht0 := (ht0 ?d)\<lparr>ht_used := ht_used (ht0 ?d) - length chain\<rparr>, ht1 := ht\<rparr>) \<and>
    ht_ok hash ht \<and> ht_table ht \<noteq> None \<and> ht_size_exp ht = ht_size_exp (ht1 ?d) \<and>
    mset (ht_entries ht) = mset chain + mset (ht_entries (ht1 ?d))"
  proof (rule Cons.IH)
    show "ht_ok hash (ht1 ?d)" using ok by simp
    show "ht_table (ht1 ?d) = Some (t1[i := ?b])" by simp
    show "hash (fst y) mod 2 ^ nat (ht_size_exp (ht0 ?d)) = idx" if "y \<in> set chain" for y
      using Cons.prems(5) [of y] that by simp
  qed (use Cons.prems in simp_all)
  then obtain ht where ht: "rehash_chain hash idx chain ?d =
      Some (?d\<lparr>ht0 := (ht0 ?d)\<lparr>ht_used := ht_used (ht0 ?d) - length chain\<rparr>, ht1 := ht\<rparr>)"
    "ht_ok hash ht" "ht_table ht \<noteq> None" "ht_size_exp ht = ht_size_exp (ht1 ?d)"
    "mset (ht_entries ht) = mset chain + mset (ht_entries (ht1 ?d))"
    by blast
  have "?d\<lparr>ht0 := (ht0 ?d)\<lparr>ht_used := ht_used (ht0 ?d) - length chain\<rparr>, ht1 := ht\<rparr> =
      d\<lparr>ht0 := (ht0 d)\<lparr>ht_used := ht_used (ht0 d) - length (x # chain)\<rparr>, ht1 := ht\<rparr>"
    by (cases d) simp
  then show ?case using step ht ms by (intro exI [of _ ht]) simp
qed

text \<open>Skipping stops at the next non-empty bucket, or earlier when the visits run out.\<close>

definition skip_result :: "('k \<times> 'v) list list \<Rightarrow> nat \<Rightarrow> nat \<Rightarrow> nat \<Rightarrow> bool \<Rightarrow> bool" where
  "skip_result t idx j idx' stop \<longleftrightarrow> idx \<le> idx' \<and> idx' \<le> j \<and> (\<forall>i. idx \<le> i \<and> i < idx' \<longrightarrow> t ! i = []) \<and>
     (stop \<longrightarrow> idx < idx') \<and> (\<not> stop \<longrightarrow> t ! idx' \<noteq> [])"

lemma skip_result_Suc:
  assumes "skip_result t (idx + 1) j idx' stop" and "t ! idx = []"
  shows "skip_result t idx j idx' stop"
proof -
  have "t ! i = []" if "idx \<le> i" "i < idx'" for i
    using that assms by (cases "i = idx") (auto simp: skip_result_def)
  then show ?thesis using assms by (auto simp: skip_result_def)
qed

lemma rehash_skip_ok:
  assumes "idx \<le> j" and "j < length t" and "t ! j \<noteq> []"
  shows "\<exists>idx' v stop. rehash_skip t idx visits = Some (idx', v, stop) \<and> skip_result t idx j idx' stop"
  using assms
proof (induction "j - idx" arbitrary: idx visits)
  case 0
  then have "idx = j" by simp
  moreover have "rehash_skip t idx visits = Some (idx, visits, False)"
    using 0 \<open>idx = j\<close> by (subst rehash_skip.simps) simp
  ultimately show ?case using 0 by (intro exI [of _ idx] exI [of _ visits] exI [of _ False]) (auto simp: skip_result_def)
next
  case (Suc n)
  then have idx: "idx < length t" "idx < j" "n = j - (idx + 1)" by auto
  show ?case
  proof (cases "t ! idx = []")
    case True
    show ?thesis
    proof (cases "visits - 1 = 0")
      case v: True
      have "rehash_skip t idx visits = Some (idx + 1, 0, True)"
        using True idx v by (subst rehash_skip.simps) simp
      moreover have "skip_result t idx j (idx + 1) True"
        using True idx by (auto simp: skip_result_def le_less_Suc_eq)
      ultimately show ?thesis by blast
    next
      case v: False
      have "rehash_skip t idx visits = rehash_skip t (idx + 1) (visits - 1)"
        using True idx v by (subst rehash_skip.simps) simp
      moreover have "\<exists>idx' v stop. rehash_skip t (idx + 1) (visits - 1) = Some (idx', v, stop) \<and>
          skip_result t (idx + 1) j idx' stop"
        using idx Suc.prems by (intro Suc.hyps(1)) simp_all
      ultimately show ?thesis using skip_result_Suc [OF _ True] by metis
    qed
  next
    case False
    have "rehash_skip t idx visits = Some (idx, visits, False)"
      using False idx by (subst rehash_skip.simps) simp
    moreover have "skip_result t idx j idx False" using False idx by (auto simp: skip_result_def)
    ultimately show ?thesis by blast
  qed
qed

text \<open>
  Moving one bucket, as one step: the entries of bucket \<open>idx\<close> leave the old table and
  join the new one.
\<close>

lemma rehash_bucket_ok:
  assumes ok: "dict_ok hash d" and re: "rehashidx d \<noteq> - 1" and t0: "ht_table (ht0 d) = Some t0"
    and idx: "idx < length t0" and empty: "\<forall>i < idx. t0 ! i = []"
  shows "\<exists>ht. rehash_chain hash idx (t0 ! idx) (d\<lparr>rehashidx := int idx\<rparr>) =
      Some (d\<lparr>ht0 := (ht0 d)\<lparr>ht_used := ht_used (ht0 d) - length (t0 ! idx)\<rparr>, ht1 := ht, rehashidx := int idx\<rparr>) \<and>
    (let d' = d\<lparr>ht0 := (ht0 d)\<lparr>ht_table := Some (t0[idx := []]), ht_used := ht_used (ht0 d) - length (t0 ! idx)\<rparr>,
        ht1 := ht, rehashidx := int idx + 1\<rparr>
     in dict_ok hash d' \<and> mset (dict_entries d') = mset (dict_entries d))"
proof -
  have o0: "ht_ok hash (ht0 d)" and o1: "ht_ok hash (ht1 d)" and dist: "distinct (map fst (dict_entries d))"
    using ok by (simp_all add: dict_ok_def)
  obtain t1 where t1: "ht_table (ht1 d) = Some t1" and ne: "ht_size_exp (ht0 d) \<noteq> ht_size_exp (ht1 d)"
    using ok re by (auto simp: dict_ok_def rehash_ok_def)
  note e0 = ht_okE [OF o0 t0]
  have le: "length (t0 ! idx) \<le> ht_used (ht0 d)"
    using concat_update(2) [OF idx, of "[]"] e0(3) by simp
  let ?d = "d\<lparr>rehashidx := int idx\<rparr>"
  have "\<exists>ht. rehash_chain hash idx (t0 ! idx) ?d =
      Some (?d\<lparr>ht0 := (ht0 ?d)\<lparr>ht_used := ht_used (ht0 ?d) - length (t0 ! idx)\<rparr>, ht1 := ht\<rparr>) \<and>
    ht_ok hash ht \<and> ht_table ht \<noteq> None \<and> ht_size_exp ht = ht_size_exp (ht1 ?d) \<and>
    mset (ht_entries ht) = mset (t0 ! idx) + mset (ht_entries (ht1 ?d))"
    using o1 t1 e0(1) ne e0(4) [OF idx] le by (intro rehash_chain_ok) simp_all
  then obtain ht where ht: "rehash_chain hash idx (t0 ! idx) ?d =
      Some (?d\<lparr>ht0 := (ht0 ?d)\<lparr>ht_used := ht_used (ht0 ?d) - length (t0 ! idx)\<rparr>, ht1 := ht\<rparr>)"
    "ht_ok hash ht" "ht_table ht \<noteq> None" "ht_size_exp ht = ht_size_exp (ht1 d)"
    "mset (ht_entries ht) = mset (t0 ! idx) + mset (ht_entries (ht1 d))" by auto
  let ?ht0 = "(ht0 d)\<lparr>ht_table := Some (t0[idx := []]), ht_used := ht_used (ht0 d) - length (t0 ! idx)\<rparr>"
  have k0: "ht_ok hash ?ht0" by (rule ht_ok_update(1) [OF o0 t0 idx]) (use le in simp_all)
  have "mset (ht_entries ?ht0) + mset (t0 ! idx) = mset (ht_entries (ht0 d)) + mset []"
    by (rule ht_ok_update(2) [OF o0 t0 idx]) (use le in simp_all)
  then have ms: "mset (ht_entries ?ht0) + mset (ht_entries ht) = mset (ht_entries (ht0 d)) + mset (ht_entries (ht1 d))"
    unfolding ht(5) by (simp add: ac_simps)
  let ?d' = "d\<lparr>ht0 := ?ht0, ht1 := ht, rehashidx := int idx + 1\<rparr>"
  have me: "mset (dict_entries ?d') = mset (dict_entries d)" using ms by (simp add: dict_entries_def)
  have "rehash_ok ?d'"
    using ht(3,4) ne idx empty by (auto simp: rehash_ok_def less_Suc_eq nth_list_update nat_add_distrib)
  then have "dict_ok hash ?d'"
    using k0 ht(2) dict_map_mset(1) [OF dist me] by (simp add: dict_ok_def)
  moreover have "?d\<lparr>ht0 := (ht0 ?d)\<lparr>ht_used := ht_used (ht0 ?d) - length (t0 ! idx)\<rparr>, ht1 := ht\<rparr> =
      d\<lparr>ht0 := (ht0 d)\<lparr>ht_used := ht_used (ht0 d) - length (t0 ! idx)\<rparr>, ht1 := ht, rehashidx := int idx\<rparr>"
    by (cases d) simp
  ultimately show ?thesis using ht(1) me by (intro exI [of _ ht]) (simp add: Let_def)
qed

lemma used_nonempty:
  assumes "ht_ok hash ht" and "ht_table ht = Some t" and "ht_used ht \<noteq> 0"
  shows "\<exists>j < length t. t ! j \<noteq> []"
proof (rule ccontr)
  assume "\<not> ?thesis"
  then have "\<forall>b \<in> set t. b = []" by (auto simp: in_set_conv_nth)
  then have "concat t = []" by simp
  then show False using assms ht_okE(3) [OF assms(1,2)] by simp
qed

lemma dict_ok_index:
  assumes "dict_ok hash d" and "rehashidx d \<noteq> - 1" and "ht_table (ht0 d) = Some t"
    and "idx \<le> length t" and "\<forall>i < idx. t ! i = []"
  shows "dict_ok hash (d\<lparr>rehashidx := int idx\<rparr>)"
  using assms by (auto simp: dict_ok_def rehash_ok_def dict_entries_def)

lemma rehash_loop_ok:
  assumes "dict_ok hash d" and "rehashidx d \<noteq> - 1"
  shows "\<exists>d' stop. rehash_loop hash n visits d = Some (d', stop) \<and> dict_ok hash d' \<and> rehashidx d' \<noteq> - 1 \<and>
    mset (dict_entries d') = mset (dict_entries d) \<and> pauserehash d' = pauserehash d \<and>
    ht_size_exp (ht0 d') = ht_size_exp (ht0 d) \<and> rehashidx d \<le> rehashidx d' \<and>
    (0 < n \<and> ht_used (ht0 d) \<noteq> 0 \<longrightarrow> rehashidx d < rehashidx d')"
  using assms
proof (induction n arbitrary: visits d)
  case 0
  then show ?case by (auto intro: exI [of _ False])
next
  case (Suc n)
  show ?case
  proof (cases "ht_used (ht0 d) = 0")
    case True
    then show ?thesis using Suc.prems by (auto intro: exI [of _ False])
  next
    case False
    have ok0: "ht_ok hash (ht0 d)" using Suc.prems(1) by (simp add: dict_ok_def)
    obtain t where t: "ht_table (ht0 d) = Some t" and r0: "0 \<le> rehashidx d"
      and re: "nat (rehashidx d) \<le> length t" "\<forall>i < nat (rehashidx d). t ! i = []"
      using Suc.prems by (auto simp: dict_ok_def rehash_ok_def split: option.splits)
    obtain j where j: "j < length t" "t ! j \<noteq> []" using used_nonempty [OF ok0 t False] by blast
    have jr: "nat (rehashidx d) \<le> j" using j re(2) by (metis not_le)
    obtain idx v stop where sk: "rehash_skip t (nat (rehashidx d)) visits = Some (idx, v, stop)"
      "skip_result t (nat (rehashidx d)) j idx stop"
      using rehash_skip_ok [OF jr j] by blast
    have em: "\<forall>i < idx. t ! i = []" using sk(2) re(2) unfolding skip_result_def by (metis not_le)
    have idx: "idx < length t" "rehashidx d \<le> int idx" "stop \<Longrightarrow> rehashidx d < int idx"
      using sk(2) j(1) r0 by (auto simp: skip_result_def)
    have as: "int (DICTHT_SIZE (ht_size_exp (ht0 d))) > rehashidx d"
    proof -
      have "DICTHT_SIZE (ht_size_exp (ht0 d)) = length t" using ht_okE(1,2) [OF ok0 t] by (simp add: size_pow)
      moreover have "nat (rehashidx d) < length t" using jr j(1) by simp
      ultimately show ?thesis using r0 by (simp add: nat_less_iff)
    qed
    show ?thesis
    proof (cases stop)
      case True
      have "rehash_loop hash (Suc n) visits d = Some (d\<lparr>rehashidx := int idx\<rparr>, True)"
        using False as t sk(1) True by simp
      moreover have "dict_ok hash (d\<lparr>rehashidx := int idx\<rparr>)"
        using dict_ok_index [OF Suc.prems t _ em] idx(1) by simp
      ultimately show ?thesis using idx True by (auto simp: dict_entries_def)
    next
      case ns: False
      obtain ht where ht: "rehash_chain hash idx (t ! idx) (d\<lparr>rehashidx := int idx\<rparr>) =
          Some (d\<lparr>ht0 := (ht0 d)\<lparr>ht_used := ht_used (ht0 d) - length (t ! idx)\<rparr>, ht1 := ht, rehashidx := int idx\<rparr>)"
        "dict_ok hash (d\<lparr>ht0 := (ht0 d)\<lparr>ht_table := Some (t[idx := []]), ht_used := ht_used (ht0 d) - length (t ! idx)\<rparr>,
          ht1 := ht, rehashidx := int idx + 1\<rparr>)"
        "mset (dict_entries (d\<lparr>ht0 := (ht0 d)\<lparr>ht_table := Some (t[idx := []]), ht_used := ht_used (ht0 d) - length (t ! idx)\<rparr>,
          ht1 := ht, rehashidx := int idx + 1\<rparr>)) = mset (dict_entries d)"
        using rehash_bucket_ok [OF Suc.prems t idx(1) em] unfolding Let_def by blast
      let ?d = "d\<lparr>ht0 := (ht0 d)\<lparr>ht_table := Some (t[idx := []]), ht_used := ht_used (ht0 d) - length (t ! idx)\<rparr>,
          ht1 := ht, rehashidx := int idx + 1\<rparr>"
      let ?d1 = "d\<lparr>ht0 := (ht0 d)\<lparr>ht_used := ht_used (ht0 d) - length (t ! idx)\<rparr>, ht1 := ht, rehashidx := int idx\<rparr>"
      have eq: "?d1\<lparr>ht0 := (ht0 ?d1)\<lparr>ht_table := Some (t[idx := []])\<rparr>, rehashidx := int idx + 1\<rparr> = ?d"
        by (cases d; cases "ht0 d") simp
      have "rehash_loop hash (Suc n) visits d =
          rehash_loop hash n v (?d1\<lparr>ht0 := (ht0 ?d1)\<lparr>ht_table := Some (t[idx := []])\<rparr>, rehashidx := int idx + 1\<rparr>)"
        using False as t sk(1) ns ht(1) by simp
      then have step: "rehash_loop hash (Suc n) visits d = rehash_loop hash n v ?d" unfolding eq .
      have "\<exists>d' stop. rehash_loop hash n v ?d = Some (d', stop) \<and> dict_ok hash d' \<and> rehashidx d' \<noteq> - 1 \<and>
          mset (dict_entries d') = mset (dict_entries ?d) \<and> pauserehash d' = pauserehash ?d \<and>
          ht_size_exp (ht0 d') = ht_size_exp (ht0 ?d) \<and> rehashidx ?d \<le> rehashidx d' \<and>
          (0 < n \<and> ht_used (ht0 ?d) \<noteq> 0 \<longrightarrow> rehashidx ?d < rehashidx d')"
        using ht(2) by (intro Suc.IH) simp_all
      then show ?thesis unfolding step ht(3) using idx(2) by auto
    qed
  qed
qed

lemma dict_ok_size: "dict_ok hash d \<Longrightarrow> dictSize d = length (dict_entries d)"
  by (auto simp: dict_ok_def dictSize_def dict_entries_def ht_ok_def ht_entries_def split: option.splits)

lemma rehash_swap_ok:
  assumes "dict_ok hash d" and "rehashidx d \<noteq> - 1" and "ht_used (ht0 d) = 0"
  shows "dict_ok hash (d\<lparr>ht0 := ht1 d, ht1 := dictReset, rehashidx := - 1\<rparr>)"
    and "mset (dict_entries (d\<lparr>ht0 := ht1 d, ht1 := dictReset, rehashidx := - 1\<rparr>)) = mset (dict_entries d)"
proof -
  have "ht_entries (ht0 d) = []"
    using assms(1,3) by (auto simp: dict_ok_def ht_ok_def ht_entries_def split: option.splits)
  then have e: "dict_entries (d\<lparr>ht0 := ht1 d, ht1 := dictReset, rehashidx := - 1\<rparr>) = dict_entries d"
    by (simp add: dict_entries_def)
  then show "mset (dict_entries (d\<lparr>ht0 := ht1 d, ht1 := dictReset, rehashidx := - 1\<rparr>)) = mset (dict_entries d)"
    by simp
  show "dict_ok hash (d\<lparr>ht0 := ht1 d, ht1 := dictReset, rehashidx := - 1\<rparr>)"
    using assms(1) unfolding dict_ok_def e by (simp add: rehash_ok_def)
qed

text \<open>One call of \<open>dictRehash\<close> is invisible, and makes progress while a rehash is on.\<close>

lemma dictRehash_ok:
  assumes "dict_ok hash d"
  shows "\<exists>more d'. dictRehash rs hash d n = Some (more, d') \<and> dict_ok hash d' \<and>
    mset (dict_entries d') = mset (dict_entries d) \<and> pauserehash d' = pauserehash d"
    and "rs = DICT_RESIZE_ENABLE \<Longrightarrow> rehashidx d \<noteq> - 1 \<Longrightarrow> 0 < n \<Longrightarrow>
      \<exists>more d'. dictRehash rs hash d n = Some (more, d') \<and>
       (rehashidx d' = - 1 \<or> (rehashidx d < rehashidx d' \<and> ht_size_exp (ht0 d') = ht_size_exp (ht0 d)))"
proof -
  let ?skip = "rs = DICT_RESIZE_FORBID \<or> \<not> dictIsRehashing d \<or> (rs = DICT_RESIZE_AVOID \<and>
     (let s0 = DICTHT_SIZE (ht_size_exp (ht0 d)); s1 = DICTHT_SIZE (ht_size_exp (ht1 d)) in
      (s1 > s0 \<and> s1 div s0 < dict_force_resize_ratio) \<or> (s1 < s0 \<and> s0 div s1 < dict_force_resize_ratio)))"
  have skip: "?skip \<Longrightarrow> dictRehash rs hash d n = Some (False, d)"
    by (auto simp: dictRehash_def Let_def)
  have go: "\<exists>d1 stop. rehash_loop hash n (int n * 10) d = Some (d1, stop) \<and> dict_ok hash d1 \<and> rehashidx d1 \<noteq> - 1 \<and>
      mset (dict_entries d1) = mset (dict_entries d) \<and> pauserehash d1 = pauserehash d \<and>
      ht_size_exp (ht0 d1) = ht_size_exp (ht0 d) \<and> rehashidx d \<le> rehashidx d1 \<and>
      (0 < n \<and> ht_used (ht0 d) \<noteq> 0 \<longrightarrow> rehashidx d < rehashidx d1) \<and>
      dictRehash rs hash d n = (if stop then Some (True, d1) else if ht_used (ht0 d1) = 0
        then Some (False, d1\<lparr>ht0 := ht1 d1, ht1 := dictReset, rehashidx := - 1\<rparr>) else Some (True, d1))"
    if ns: "\<not> ?skip"
  proof -
    have re: "rehashidx d \<noteq> - 1" using ns by (simp add: dictIsRehashing_def)
    obtain d1 stop where l: "rehash_loop hash n (int n * 10) d = Some (d1, stop)" "dict_ok hash d1" "rehashidx d1 \<noteq> - 1"
      "mset (dict_entries d1) = mset (dict_entries d)" "pauserehash d1 = pauserehash d"
      "ht_size_exp (ht0 d1) = ht_size_exp (ht0 d)" "rehashidx d \<le> rehashidx d1"
      "0 < n \<and> ht_used (ht0 d) \<noteq> 0 \<longrightarrow> rehashidx d < rehashidx d1"
      using rehash_loop_ok [OF assms re, of n "int n * 10"] by blast
    have "dictRehash rs hash d n = (if stop then Some (True, d1) else if ht_used (ht0 d1) = 0
        then Some (False, d1\<lparr>ht0 := ht1 d1, ht1 := dictReset, rehashidx := - 1\<rparr>) else Some (True, d1))"
      using ns l(1) unfolding dictRehash_def Let_def by auto
    then show ?thesis using l by blast
  qed
  show "\<exists>more d'. dictRehash rs hash d n = Some (more, d') \<and> dict_ok hash d' \<and>
    mset (dict_entries d') = mset (dict_entries d) \<and> pauserehash d' = pauserehash d"
  proof (cases ?skip)
    case True
    then show ?thesis using skip assms by blast
  next
    case False
    then obtain d1 stop where l: "dict_ok hash d1" "rehashidx d1 \<noteq> - 1" "mset (dict_entries d1) = mset (dict_entries d)"
      "pauserehash d1 = pauserehash d" "dictRehash rs hash d n = (if stop then Some (True, d1) else if ht_used (ht0 d1) = 0
        then Some (False, d1\<lparr>ht0 := ht1 d1, ht1 := dictReset, rehashidx := - 1\<rparr>) else Some (True, d1))"
      using go by blast
    then show ?thesis using rehash_swap_ok [OF l(1,2)] by auto
  qed
  show "\<exists>more d'. dictRehash rs hash d n = Some (more, d') \<and>
       (rehashidx d' = - 1 \<or> (rehashidx d < rehashidx d' \<and> ht_size_exp (ht0 d') = ht_size_exp (ht0 d)))"
    if "rs = DICT_RESIZE_ENABLE" "rehashidx d \<noteq> - 1" "0 < n"
  proof -
    have "\<not> ?skip" using that by (simp add: dictIsRehashing_def)
    then obtain d1 stop where l: "rehash_loop hash n (int n * 10) d = Some (d1, stop)"
      "ht_size_exp (ht0 d1) = ht_size_exp (ht0 d)" "0 < n \<and> ht_used (ht0 d) \<noteq> 0 \<longrightarrow> rehashidx d < rehashidx d1"
      "dictRehash rs hash d n = (if stop then Some (True, d1) else if ht_used (ht0 d1) = 0
        then Some (False, d1\<lparr>ht0 := ht1 d1, ht1 := dictReset, rehashidx := - 1\<rparr>) else Some (True, d1))"
      using go by blast
    show ?thesis
    proof (cases "ht_used (ht0 d) = 0")
      case True
      then have "d1 = d \<and> \<not> stop" using l(1) that(3) by (cases n) auto
      then show ?thesis using l(4) True by (auto intro: exI [of _ False])
    next
      case False
      then show ?thesis using l that(3) by auto
    qed
  qed
qed

section \<open>Lookup, insertion and deletion\<close>

lemma map_of_bucket:
  assumes "i < length t" and "\<And>j. j < length t \<Longrightarrow> j \<noteq> i \<Longrightarrow> key \<notin> fst ` set (t ! j)"
  shows "map_of (concat t) key = map_of (t ! i) key"
proof -
  have t: "t = take i t @ t ! i # drop (Suc i) t" using assms(1) by (rule id_take_nth_drop)
  have c: "concat t = concat (take i t) @ t ! i @ concat (drop (Suc i) t)" by (subst t) simp
  have "key \<notin> fst ` set (concat (take i t))" "key \<notin> fst ` set (concat (drop (Suc i) t))"
  proof -
    have "key \<notin> fst ` set b" if "b \<in> set (take i t)" for b
    proof -
      from that obtain j where "j < i" "b = t ! j" using assms(1) by (auto simp: in_set_conv_nth)
      then show ?thesis using assms by simp
    qed
    moreover have "key \<notin> fst ` set b" if "b \<in> set (drop (Suc i) t)" for b
    proof -
      from that obtain j where "j < length t - Suc i" "b = t ! (Suc i + j)" by (auto simp: in_set_conv_nth)
      then show ?thesis using assms(2) [of "Suc i + j"] by simp
    qed
    ultimately show "key \<notin> fst ` set (concat (take i t))" "key \<notin> fst ` set (concat (drop (Suc i) t))"
      by auto
  qed
  then have "map_of (concat (take i t)) key = None" "map_of (concat (drop (Suc i) t)) key = None"
    by (simp_all add: map_of_eq_None_iff)
  then show ?thesis unfolding c by (simp add: map_add_def split: option.splits)
qed

lemma hash_index:
  assumes "ht_ok hash ht" and "ht_table ht = Some t"
  shows "hash key AND DICTHT_SIZE_MASK (ht_size_exp ht) < length t"
    and "map_of (t ! (hash key AND DICTHT_SIZE_MASK (ht_size_exp ht))) key = map_of (ht_entries ht) key"
proof -
  note o = ht_okE [OF assms]
  let ?i = "hash key AND DICTHT_SIZE_MASK (ht_size_exp ht)"
  have i: "?i = hash key mod 2 ^ nat (ht_size_exp ht)" by (rule mask_mod [OF o(1)])
  show il: "?i < length t" unfolding i using o(2) by simp
  have "key \<notin> fst ` set (t ! j)" if "j < length t" "j \<noteq> ?i" for j
    using o(4) [OF that(1)] that(2) unfolding i by auto
  then show "map_of (t ! ?i) key = map_of (ht_entries ht) key"
    unfolding o(5) using map_of_bucket [OF il] by metis
qed

lemma find_in_ok:
  assumes "ht_ok hash ht" and "ht_table ht \<noteq> None"
  shows "find_in hash ht key = Some (map_of (ht_entries ht) key)"
proof -
  obtain t where t: "ht_table ht = Some t" using assms(2) by blast
  show ?thesis
    using hash_index [OF assms(1) t, of key] t by (simp add: find_in_def rd_Some)
qed

lemma dict_map_tables:
  "dict_map d key = (case map_of (ht_entries (ht0 d)) key of Some v \<Rightarrow> Some v | None \<Rightarrow> map_of (ht_entries (ht1 d)) key)"
  by (simp add: dict_map_def dict_entries_def map_add_def split: option.splits)

lemma find_tables_ok:
  assumes "dict_ok hash d" and "ht_table (ht0 d) \<noteq> None"
  shows "find_tables hash d key = Some (dict_map d key)"
proof -
  have "find_in hash (ht0 d) key = Some (map_of (ht_entries (ht0 d)) key)"
    using assms by (intro find_in_ok) (simp_all add: dict_ok_def)
  moreover have "rehashidx d \<noteq> - 1 \<Longrightarrow> find_in hash (ht1 d) key = Some (map_of (ht_entries (ht1 d)) key)"
    using assms by (intro find_in_ok) (auto simp: dict_ok_def rehash_ok_def)
  moreover have "rehashidx d = - 1 \<Longrightarrow> ht_entries (ht1 d) = []"
    using assms by (simp add: dict_ok_def rehash_ok_def)
  ultimately show ?thesis
    by (auto simp: find_tables_def dictIsRehashing_def dict_map_tables split: option.splits)
qed

lemma table_allocated:
  assumes "dict_ok hash d" and "dictSize d \<noteq> 0"
  shows "ht_table (ht0 d) \<noteq> None"
  using assms by (auto simp: dict_ok_def rehash_ok_def dictSize_def ht_ok_def dictReset_def split: if_splits option.splits)

text \<open>The rehashing step that every operation starts with.\<close>

lemma step_ok:
  assumes "dict_ok hash d"
  shows "\<exists>d'. (if dictIsRehashing d then dictRehashStep rs hash d else Some d) = Some d' \<and> dict_ok hash d' \<and>
    dict_map d' = dict_map d \<and> length (dict_entries d') = length (dict_entries d)"
proof -
  have dist: "distinct (map fst (dict_entries d))" using assms by (simp add: dict_ok_def)
  obtain more d' where r: "dictRehash rs hash d 1 = Some (more, d')" "dict_ok hash d'"
    "mset (dict_entries d') = mset (dict_entries d)"
    using dictRehash_ok(1) [OF assms, of rs 1] by blast
  have "dict_map d' = dict_map d" using dist r(3) by (rule dict_map_mset(2))
  moreover have "length (dict_entries d') = length (dict_entries d)" using r(3) by (rule mset_eq_length)
  ultimately show ?thesis using r(1,2) assms by (auto simp: dictRehashStep_def)
qed

lemma dictFind_ok:
  assumes "dict_ok hash d"
  shows "\<exists>d'. dictFind rs hash d key = Some (dict_map d key, d') \<and> dict_ok hash d' \<and> dict_map d' = dict_map d \<and>
    length (dict_entries d') = length (dict_entries d)"
proof (cases "dictSize d = 0")
  case True
  then have "dict_entries d = []" using dict_ok_size [OF assms] by simp
  then show ?thesis using True assms by (simp add: dictFind_def dict_map_def)
next
  case False
  obtain d1 where d1: "(if dictIsRehashing d then dictRehashStep rs hash d else Some d) = Some d1" "dict_ok hash d1"
    "dict_map d1 = dict_map d" "length (dict_entries d1) = length (dict_entries d)"
    using step_ok [OF assms] by blast
  have "dictSize d1 \<noteq> 0" using False d1(4) dict_ok_size [OF d1(2)] dict_ok_size [OF assms] by simp
  then have "find_tables hash d1 key = Some (dict_map d key)"
    using find_tables_ok [OF d1(2) table_allocated [OF d1(2)]] d1(3) by simp
  then show ?thesis using False d1 by (auto simp: dictFind_def)
qed

subsection \<open>Growing\<close>

lemma bit_length_bounds:
  "n < 2 ^ bit_length n" "0 < n \<Longrightarrow> 2 ^ bit_length n \<le> 2 * n"
proof (induction n rule: bit_length.induct)
  case (1 n)
  { case 1
    show ?case
    proof (cases "n = 0")
      case False
      then have "n div 2 < 2 ^ bit_length (n div 2)" using "1.IH"(1) by simp
      then show ?thesis using False by (subst bit_length.simps) simp
    qed simp }
  { case 2
    show ?case
    proof (cases "n div 2 = 0")
      case True
      then have "n = 1" using 2 by simp
      then show ?thesis by (simp add: bit_length.simps)
    next
      case False
      then have "2 ^ bit_length (n div 2) \<le> 2 * (n div 2)" using "1.IH"(2) 2 by simp
      then show ?thesis using 2 by (subst bit_length.simps) simp
    qed }
qed

lemma dictNextExp_bounds:
  assumes "sz < 2 ^ 60"
  shows "2 \<le> dictNextExp sz" "sz \<le> 2 ^ nat (dictNextExp sz)" "2 ^ nat (dictNextExp sz) < (2 :: nat) ^ 61"
proof -
  have "2 \<le> dictNextExp sz \<and> sz \<le> 2 ^ nat (dictNextExp sz) \<and> 2 ^ nat (dictNextExp sz) < (2 :: nat) ^ 61"
  proof (cases "sz \<le> 4")
    case True
    then show ?thesis by (simp add: dictNextExp_def DICT_HT_INITIAL_SIZE_def DICT_HT_INITIAL_EXP_def)
  next
    case False
    let ?b = "bit_length (sz - 1)"
    have b: "sz - 1 < 2 ^ ?b" "2 ^ ?b \<le> 2 * (sz - 1)" using bit_length_bounds [of "sz - 1"] False by simp_all
    have lt: "(2 :: nat) ^ ?b < 2 ^ 61" using b(2) assms by simp
    then have "?b < 61" by (rule power_less_imp_less_exp [rotated]) simp
    then have e: "dictNextExp sz = int ?b"
      using False assms by (simp add: dictNextExp_def DICT_HT_INITIAL_SIZE_def clzl_def)
    have "2 \<le> ?b"
    proof (rule ccontr)
      assume "\<not> 2 \<le> ?b"
      then have "(2 :: nat) ^ ?b \<le> 2 ^ 1" by (intro power_increasing) simp_all
      then show False using b(1) False by simp
    qed
    then show ?thesis using e b(1) lt by simp
  qed
  then show "2 \<le> dictNextExp sz" "sz \<le> 2 ^ nat (dictNextExp sz)" "2 ^ nat (dictNextExp sz) < (2 :: nat) ^ 61"
    by blast+
qed

lemma new_table_ok:
  assumes "0 \<le> e"
  shows "ht_ok hash \<lparr>ht_table = Some (replicate (2 ^ nat e) []), ht_used = 0, ht_size_exp = e\<rparr>"
    "ht_entries \<lparr>ht_table = Some (replicate (2 ^ nat e) []), ht_used = 0, ht_size_exp = e\<rparr> = []"
  using assms by (simp_all add: ht_ok_def ht_entries_def)

lemma dictExpand_ok:
  fixes d :: "('k, 'v) dict"
  assumes ok: "dict_ok hash d" and nr: "rehashidx d = - 1" and le: "ht_used (ht0 d) \<le> sz" and lt: "sz < 2 ^ 60"
    and ne: "dictNextExp sz \<noteq> ht_size_exp (ht0 d)"
  shows "\<exists>d'. dictExpand d sz = (True, d') \<and> dict_ok hash d' \<and> dict_entries d' = dict_entries d \<and>
    ht_table (ht0 d') \<noteq> None \<and> pauserehash d' = pauserehash d"
proof -
  note b = dictNextExp_bounds [OF lt]
  let ?e = "dictNextExp sz"
  let ?ht = "\<lparr>ht_table = Some (replicate (2 ^ nat ?e) []), ht_used = 0, ht_size_exp = ?e\<rparr> :: ('k, 'v) dictht"
  have nt: "ht_ok hash ?ht" "ht_entries ?ht = []" using new_table_ok [where e = ?e] b(1) by auto
  have ov: "\<not> (2 ^ nat ?e < sz \<or> (2 ^ nat ?e * 8) mod 2 ^ 64 < (2 :: nat) ^ nat ?e)"
  proof -
    have "(2 :: nat) ^ nat ?e * 8 < 2 ^ 64" using b(3) by simp
    then have "(2 ^ nat ?e * 8) mod 2 ^ 64 = (2 :: nat) ^ nat ?e * 8" by (rule mod_less)
    then show ?thesis using b(2) by simp
  qed
  have ex: "dictExpand d sz = (if ht_table (ht0 d) = None then (True, d\<lparr>ht0 := ?ht\<rparr>)
      else (True, d\<lparr>ht1 := ?ht, rehashidx := 0\<rparr>))"
    unfolding dictExpand_def dictExpand'_def Let_def dictIsRehashing_def push_bit_of_1
    using nr le ov ne by simp
  have r: "ht1 d = dictReset" using ok nr by (simp add: dict_ok_def rehash_ok_def)
  show ?thesis
  proof (cases "ht_table (ht0 d)")
    case None
    then have "ht_entries (ht0 d) = []" by (simp add: ht_entries_def)
    then show ?thesis using ex None ok nt r nr
      by (simp add: dict_ok_def rehash_ok_def dict_entries_def)
  next
    case (Some t)
    then show ?thesis using ex ok nt r ne
      by (auto simp: dict_ok_def rehash_ok_def dict_entries_def)
  qed
qed

lemma dictExpandIfNeeded_ok:
  assumes ok: "dict_ok hash d" and lt: "length (dict_entries d) + 1 < 2 ^ 60"
  shows "\<exists>d'. dictExpandIfNeeded rs allow d = (True, d') \<and> dict_ok hash d' \<and> dict_entries d' = dict_entries d \<and>
    ht_table (ht0 d') \<noteq> None"
proof (cases "dictIsRehashing d")
  case True
  then show ?thesis using ok by (auto simp: dictExpandIfNeeded_def dict_ok_def rehash_ok_def dictIsRehashing_def split: option.splits)
next
  case nr: False
  then have nr': "rehashidx d = - 1" by (simp add: dictIsRehashing_def)
  have ok0: "ht_ok hash (ht0 d)" using ok by (simp add: dict_ok_def)
  have ul: "ht_used (ht0 d) \<le> length (dict_entries d)" using dict_ok_size [OF ok] by (simp add: dictSize_def)
  show ?thesis
  proof (cases "ht_table (ht0 d)")
    case None
    then have z: "ht_used (ht0 d) = 0" "ht_size_exp (ht0 d) = - 1" using ok0 by (simp_all add: ht_ok_def)
    then have e: "dictExpandIfNeeded rs allow d = dictExpand d DICT_HT_INITIAL_SIZE"
      using nr by (simp add: dictExpandIfNeeded_def DICTHT_SIZE_def)
    have "\<exists>d'. dictExpand d DICT_HT_INITIAL_SIZE = (True, d') \<and> dict_ok hash d' \<and> dict_entries d' = dict_entries d \<and>
        ht_table (ht0 d') \<noteq> None \<and> pauserehash d' = pauserehash d"
      using z by (intro dictExpand_ok [OF ok nr'])
        (simp_all add: DICT_HT_INITIAL_SIZE_def dictNextExp_def DICT_HT_INITIAL_EXP_def)
    then show ?thesis unfolding e by blast
  next
    case (Some t)
    note o = ht_okE [OF ok0 Some]
    have s: "DICTHT_SIZE (ht_size_exp (ht0 d)) = 2 ^ nat (ht_size_exp (ht0 d))" by (rule size_pow [OF o(1)])
    let ?c = "(rs = DICT_RESIZE_ENABLE \<and> ht_used (ht0 d) \<ge> DICTHT_SIZE (ht_size_exp (ht0 d))) \<or>
        (rs \<noteq> DICT_RESIZE_FORBID \<and> ht_used (ht0 d) div DICTHT_SIZE (ht_size_exp (ht0 d)) > dict_force_resize_ratio)"
    show ?thesis
    proof (cases "?c \<and> dictTypeExpandAllowed allow d")
      case False
      then have "dictExpandIfNeeded rs allow d = (True, d)" using nr s by (auto simp: dictExpandIfNeeded_def)
      then show ?thesis using ok Some by simp
    next
      case True
      then have e: "dictExpandIfNeeded rs allow d = dictExpand d (ht_used (ht0 d) + 1)"
        using nr s by (simp add: dictExpandIfNeeded_def)
      have ge: "2 ^ nat (ht_size_exp (ht0 d)) \<le> ht_used (ht0 d)"
      proof (rule ccontr)
        assume "\<not> ?thesis"
        then show False using True s by simp
      qed
      have lt': "ht_used (ht0 d) + 1 < 2 ^ 60" using ul lt by linarith
      have "dictNextExp (ht_used (ht0 d) + 1) \<noteq> ht_size_exp (ht0 d)"
        using dictNextExp_bounds(2) [OF lt'] ge by auto
      then have "\<exists>d'. dictExpand d (ht_used (ht0 d) + 1) = (True, d') \<and> dict_ok hash d' \<and>
          dict_entries d' = dict_entries d \<and> ht_table (ht0 d') \<noteq> None \<and> pauserehash d' = pauserehash d"
        using lt' by (intro dictExpand_ok [OF ok nr']) simp_all
      then show ?thesis unfolding e by blast
    qed
  qed
qed

subsection \<open>Insertion\<close>

lemma distinct_map_of_insert:
  assumes "distinct (map fst ys)" and "mset ys = add_mset (k, v) (mset xs)"
  shows "map_of ys = (map_of xs)(k \<mapsto> v)" and "map_of xs = (map_of ys)(k := None)"
    and "distinct (map fst xs)"
proof -
  have m: "mset (map fst ys) = mset (map fst ((k, v) # xs))" using assms(2) by simp
  have d: "distinct (map fst ((k, v) # xs))"
    using assms(1) mset_eq_imp_distinct_iff [OF m] by blast
  have "set ys = set ((k, v) # xs)" using assms(2) by (metis mset.simps(2) set_mset_mset)
  then have "map_of ys = map_of ((k, v) # xs)" using map_of_inject_set [OF assms(1) d] by blast
  then show e: "map_of ys = (map_of xs)(k \<mapsto> v)" by simp
  have "k \<notin> fst ` set xs" using d by simp
  then have "map_of xs k = None" by (simp add: map_of_eq_None_iff)
  then show "map_of xs = (map_of ys)(k := None)" unfolding e by (simp add: fun_upd_idem)
  show "distinct (map fst xs)" using d by simp
qed

lemma insert_ht_ok:
  assumes ok: "ht_ok hash ht" and t: "ht_table ht \<noteq> None"
  shows "\<exists>ht'. insert_ht ht key v (hash key AND DICTHT_SIZE_MASK (ht_size_exp ht)) = Some ht' \<and> ht_ok hash ht' \<and>
    mset (ht_entries ht') = add_mset (key, v) (mset (ht_entries ht)) \<and> ht_size_exp ht' = ht_size_exp ht \<and>
    ht_table ht' \<noteq> None"
proof -
  obtain t where t: "ht_table ht = Some t" using t by blast
  note o = ht_okE [OF ok t]
  let ?i = "hash key AND DICTHT_SIZE_MASK (ht_size_exp ht)"
  have i: "?i = hash key mod 2 ^ nat (ht_size_exp ht)" by (rule mask_mod [OF o(1)])
  have il: "?i < length t" using hash_index(1) [OF ok t] .
  let ?b = "(key, v) # t ! ?i"
  let ?ht = "ht\<lparr>ht_table := Some (t[?i := ?b]), ht_used := ht_used ht + 1\<rparr>"
  have b: "hash (fst y) mod 2 ^ nat (ht_size_exp ht) = ?i" if "y \<in> set ?b" for y
    using that o(4) [OF il, of y] i by (cases "y = (key, v)") auto
  have "ht_ok hash ?ht" by (rule ht_ok_update(1) [OF ok t il b]) simp_all
  moreover have "mset (ht_entries ?ht) + mset (t ! ?i) = mset (ht_entries ht) + mset ?b"
    by (rule ht_ok_update(2) [OF ok t il b]) simp_all
  moreover have "?i \<le> DICTHT_SIZE_MASK (ht_size_exp ht)"
    using il o(1,2) by (simp add: DICTHT_SIZE_MASK_def size_pow)
  ultimately show ?thesis using t il by (simp add: insert_ht_def rd_Some wr_Some)
qed

lemma chain_set_map: "map_of (chain_set key val xs) =
    (\<lambda>k. if k = key then map_option (\<lambda>_. val) (map_of xs k) else map_of xs k)"
  by (induction xs) (auto simp: chain_set_def fun_eq_iff)

lemma chain_set_props: "map fst (chain_set key val xs) = map fst xs" "chain_set key val (xs @ ys) = chain_set key val xs @ chain_set key val ys"
  "concat (map (chain_set key val) t) = chain_set key val (concat t)" "length (chain_set key val xs) = length xs"
  "chain_set key val [] = []"
  by (auto simp: chain_set_def map_concat)

lemma dictSetVal_ok:
  assumes "dict_ok hash d"
  shows "dict_ok hash (dictSetVal d key val)"
    and "dict_map (dictSetVal d key val) = (\<lambda>k. if k = key then map_option (\<lambda>_. val) (dict_map d k) else dict_map d k)"
    and "length (dict_entries (dictSetVal d key val)) = length (dict_entries d)"
proof -
  define g where "g = (\<lambda>ht :: ('a, 'b) dictht. ht\<lparr>ht_table := map_option (map (chain_set key val)) (ht_table ht)\<rparr>)"
  have d: "dictSetVal d key val = d\<lparr>ht0 := g (ht0 d), ht1 := g (ht1 d)\<rparr>"
    by (simp add: dictSetVal_def g_def)
  have e: "ht_entries (g ht) = chain_set key val (ht_entries ht)" for ht
    by (auto simp: g_def ht_entries_def chain_set_props split: option.splits)
  have keys: "fst ` set (chain_set key val b) = fst ` set b" for b
    by (metis chain_set_props(1) set_map)
  have gk: "ht_ok hash (g ht)" if "ht_ok hash ht" for ht
  proof (cases "ht_table ht")
    case None
    then show ?thesis using that by (simp add: g_def ht_ok_def)
  next
    case (Some t)
    note o = ht_okE [OF that Some]
    have "hash (fst x) mod 2 ^ nat (ht_size_exp ht) = i" if "i < length t" "x \<in> set (chain_set key val (t ! i))" for i x
    proof -
      have "fst x \<in> fst ` set (t ! i)" using that(2) keys by (metis image_eqI)
      then show ?thesis using o(4) [OF that(1)] by auto
    qed
    then show ?thesis using Some o(1-3) by (simp add: g_def ht_ok_def chain_set_props)
  qed
  have ent: "dict_entries (dictSetVal d key val) = chain_set key val (dict_entries d)"
    by (simp add: d dict_entries_def e chain_set_props)
  have "rehash_ok (dictSetVal d key val)"
    using assms by (auto simp: d g_def dict_ok_def rehash_ok_def dictReset_def chain_set_props split: option.splits if_splits)
  then show "dict_ok hash (dictSetVal d key val)"
    using assms gk ent by (simp add: dict_ok_def d chain_set_props)
  show "dict_map (dictSetVal d key val) = (\<lambda>k. if k = key then map_option (\<lambda>_. val) (dict_map d k) else dict_map d k)"
    unfolding dict_map_def ent by (rule chain_set_map)
  show "length (dict_entries (dictSetVal d key val)) = length (dict_entries d)"
    unfolding ent by (rule chain_set_props)
qed

lemma dictInsert_ok:
  assumes ok: "dict_ok hash d" and t: "ht_table (ht0 d) \<noteq> None" and new: "dict_map d key = None"
  shows "\<exists>d'. dictInsertAtPosition d key v
      (hash key AND DICTHT_SIZE_MASK (ht_size_exp (if dictIsRehashing d then ht1 d else ht0 d))) = Some d' \<and>
    dict_ok hash d' \<and> dict_map d' = (dict_map d)(key \<mapsto> v) \<and> length (dict_entries d') = length (dict_entries d) + 1"
proof -
  have dist: "distinct (map fst (dict_entries d))" using ok by (simp add: dict_ok_def)
  have nk: "key \<notin> fst ` set (dict_entries d)" using new by (simp add: dict_map_def map_of_eq_None_iff)
  have fin: "distinct (map fst (dict_entries d'))" "dict_map d' = (dict_map d)(key \<mapsto> v)"
    "length (dict_entries d') = length (dict_entries d) + 1"
    if m: "mset (dict_entries d') = add_mset (key, v) (mset (dict_entries d))" for d'
  proof -
    have "mset (map fst (dict_entries d')) = mset (map fst ((key, v) # dict_entries d))" using m by simp
    moreover have "distinct (map fst ((key, v) # dict_entries d))" using dist nk by simp
    ultimately show k: "distinct (map fst (dict_entries d'))" using mset_eq_imp_distinct_iff by blast
    show "dict_map d' = (dict_map d)(key \<mapsto> v)"
      unfolding dict_map_def by (rule distinct_map_of_insert(1) [OF k m])
    have "size (mset (dict_entries d')) = size (add_mset (key, v) (mset (dict_entries d)))" using m by (rule arg_cong)
    then show "length (dict_entries d') = length (dict_entries d) + 1" by simp
  qed
  show ?thesis
  proof (cases "dictIsRehashing d")
    case True
    have "ht_ok hash (ht1 d)" "ht_table (ht1 d) \<noteq> None"
      using ok True by (auto simp: dict_ok_def rehash_ok_def dictIsRehashing_def)
    from insert_ht_ok [OF this, of key v] obtain ht where ht:
      "insert_ht (ht1 d) key v (hash key AND DICTHT_SIZE_MASK (ht_size_exp (ht1 d))) = Some ht" "ht_ok hash ht"
      "mset (ht_entries ht) = add_mset (key, v) (mset (ht_entries (ht1 d)))" "ht_size_exp ht = ht_size_exp (ht1 d)"
      "ht_table ht \<noteq> None" by blast
    have m: "mset (dict_entries (d\<lparr>ht1 := ht\<rparr>)) = add_mset (key, v) (mset (dict_entries d))"
      using ht(3) by (simp add: dict_entries_def)
    have "rehash_ok (d\<lparr>ht1 := ht\<rparr>)"
      using ok True ht(4,5) by (auto simp: dict_ok_def rehash_ok_def dictIsRehashing_def split: option.splits)
    then have "dict_ok hash (d\<lparr>ht1 := ht\<rparr>)" using ok ht(2) fin(1) [OF m] by (simp add: dict_ok_def)
    then show ?thesis using True ht(1) fin(2,3) [OF m] by (simp add: dictInsertAtPosition_def)
  next
    case False
    have "ht_ok hash (ht0 d)" using ok by (simp add: dict_ok_def)
    from insert_ht_ok [OF this t, of key v] obtain ht where ht:
      "insert_ht (ht0 d) key v (hash key AND DICTHT_SIZE_MASK (ht_size_exp (ht0 d))) = Some ht" "ht_ok hash ht"
      "mset (ht_entries ht) = add_mset (key, v) (mset (ht_entries (ht0 d)))" by blast
    have m: "mset (dict_entries (d\<lparr>ht0 := ht\<rparr>)) = add_mset (key, v) (mset (dict_entries d))"
      using ht(3) by (simp add: dict_entries_def)
    have "rehash_ok (d\<lparr>ht0 := ht\<rparr>)"
      using ok False by (simp add: dict_ok_def rehash_ok_def dictIsRehashing_def)
    then have "dict_ok hash (d\<lparr>ht0 := ht\<rparr>)" using ok ht(2) fin(1) [OF m] by (simp add: dict_ok_def)
    then show ?thesis using False ht(1) fin(2,3) [OF m] by (simp add: dictInsertAtPosition_def)
  qed
qed

lemma dictAddRaw_ok:
  assumes ok: "dict_ok hash d" and lt: "length (dict_entries d) + 1 < 2 ^ 60"
  shows "\<exists>d'. dictAddRaw rs allow hash d key v0 = Some (dict_map d key = None, dict_map d key, d') \<and> dict_ok hash d' \<and>
    dict_map d' = (if dict_map d key = None then (dict_map d)(key \<mapsto> v0) else dict_map d) \<and>
    length (dict_entries d') \<le> length (dict_entries d) + 1"
proof -
  obtain d1 where d1: "(if dictIsRehashing d then dictRehashStep rs hash d else Some d) = Some d1" "dict_ok hash d1"
    "dict_map d1 = dict_map d" "length (dict_entries d1) = length (dict_entries d)"
    using step_ok [OF ok] by blast
  obtain d2 where d2: "dictExpandIfNeeded rs allow d1 = (True, d2)" "dict_ok hash d2" "dict_entries d2 = dict_entries d1"
    "ht_table (ht0 d2) \<noteq> None"
    using dictExpandIfNeeded_ok [OF d1(2), of rs allow] lt d1(4) by auto
  have m: "dict_map d2 = dict_map d" using d2(3) d1(3) by (simp add: dict_map_def)
  have f: "find_tables hash d2 key = Some (dict_map d key)" using find_tables_ok [OF d2(2,4)] m by simp
  let ?pos = "hash key AND DICTHT_SIZE_MASK (ht_size_exp (if dictIsRehashing d2 then ht1 d2 else ht0 d2))"
  have p: "dictFindPositionForInsert rs allow hash d key =
      (case dict_map d key of Some v \<Rightarrow> Some (None, Some v, d2) | None \<Rightarrow> Some (Some ?pos, None, d2))"
    unfolding dictFindPositionForInsert_def d1(1) using d2(1) f by (simp add: Let_def split: option.splits)
  show ?thesis
  proof (cases "dict_map d key")
    case None
    then obtain d' where "dictInsertAtPosition d2 key v0 ?pos = Some d'" "dict_ok hash d'"
      "dict_map d' = (dict_map d2)(key \<mapsto> v0)" "length (dict_entries d') = length (dict_entries d2) + 1"
      using dictInsert_ok [OF d2(2,4), of key v0] m by auto
    then show ?thesis using p None m d1(4) d2(3) by (simp add: dictAddRaw_def)
  next
    case (Some v)
    then show ?thesis using p m d1(4) d2(2,3) by (simp add: dictAddRaw_def)
  qed
qed

subsection \<open>Deletion\<close>

lemma chain_remove_mset: "map_of b key = Some v \<Longrightarrow> add_mset (key, v) (mset (chain_remove key b)) = mset b"
  by (induction key b rule: chain_remove.induct) (auto split: if_splits)

lemma delete_in_ok:
  assumes ok: "ht_ok hash ht" and t: "ht_table ht \<noteq> None"
  shows "\<exists>ht'. delete_in hash ht key = Some (map_of (ht_entries ht) key, ht') \<and> ht_ok hash ht' \<and>
    ht_size_exp ht' = ht_size_exp ht \<and> (\<exists>t t'. ht_table ht = Some t \<and> ht_table ht' = Some t' \<and> length t' = length t \<and>
      (\<forall>i < length t. t ! i = [] \<longrightarrow> t' ! i = [])) \<and>
    (case map_of (ht_entries ht) key of None \<Rightarrow> ht' = ht
       | Some v \<Rightarrow> add_mset (key, v) (mset (ht_entries ht')) = mset (ht_entries ht))"
proof -
  obtain t where t: "ht_table ht = Some t" using t by blast
  note o = ht_okE [OF ok t]
  let ?i = "hash key AND DICTHT_SIZE_MASK (ht_size_exp ht)"
  have il: "?i < length t" and m: "map_of (t ! ?i) key = map_of (ht_entries ht) key"
    using hash_index [OF ok t] by simp_all
  show ?thesis
  proof (cases "map_of (ht_entries ht) key")
    case None
    then have "delete_in hash ht key = Some (None, ht)"
      using t il m by (simp add: delete_in_def Let_def rd_Some)
    then show ?thesis using None ok t by simp
  next
    case (Some v)
    let ?b = "chain_remove key (t ! ?i)"
    have cm: "add_mset (key, v) (mset ?b) = mset (t ! ?i)" using m Some by (intro chain_remove_mset) simp
    have len: "Suc (length ?b) = length (t ! ?i)" using arg_cong [OF cm, of size] by simp
    have sub: "set ?b \<subseteq> set (t ! ?i)" using cm by (metis set_mset_add_mset_insert set_mset_mset subset_insertI)
    have lu: "length (t ! ?i) \<le> ht_used ht" using concat_update(2) [OF il, of "[]"] o(3) by simp
    let ?ht = "ht\<lparr>ht_table := Some (t[?i := ?b]), ht_used := ht_used ht - 1\<rparr>"
    have b: "hash (fst y) mod 2 ^ nat (ht_size_exp ht) = ?i" if "y \<in> set ?b" for y
      using that sub o(4) [OF il] by blast
    have k: "ht_ok hash ?ht" by (rule ht_ok_update(1) [OF ok t il b]) (use len lu in simp_all)
    have "mset (ht_entries ?ht) + mset (t ! ?i) = mset (ht_entries ht) + mset ?b"
      by (rule ht_ok_update(2) [OF ok t il b]) (use len lu in simp_all)
    then have "add_mset (key, v) (mset (ht_entries ?ht)) = mset (ht_entries ht)"
      unfolding cm [symmetric] by simp
    moreover have "t ! i = [] \<Longrightarrow> t[?i := ?b] ! i = []" if "i < length t" for i
      using len that by (cases "i = ?i") auto
    moreover have "delete_in hash ht key = Some (Some v, ?ht)"
      using t il m Some by (simp add: delete_in_def Let_def rd_Some wr_Some)
    ultimately show ?thesis using Some k t by (intro exI [of _ ?ht]) simp
  qed
qed

lemma dictGenericDelete_ok:
  assumes ok: "dict_ok hash d"
  shows "\<exists>d'. dictGenericDelete rs hash d key = Some (dict_map d key, d') \<and> dict_ok hash d' \<and>
    dict_map d' = (dict_map d)(key := None) \<and> length (dict_entries d') \<le> length (dict_entries d)"
proof (cases "dictSize d = 0")
  case True
  then have "dict_entries d = []" using dict_ok_size [OF ok] by simp
  then show ?thesis using True ok by (auto simp: dictGenericDelete_def dict_map_def)
next
  case False
  obtain d1 where d1: "(if dictIsRehashing d then dictRehashStep rs hash d else Some d) = Some d1" "dict_ok hash d1"
    "dict_map d1 = dict_map d" "length (dict_entries d1) = length (dict_entries d)"
    using step_ok [OF ok] by blast
  have t0: "ht_table (ht0 d1) \<noteq> None"
    using table_allocated [OF d1(2)] False d1(4) dict_ok_size [OF d1(2)] dict_ok_size [OF ok] by simp
  have dist: "distinct (map fst (dict_entries d1))" using d1(2) by (simp add: dict_ok_def)
  have fin: "distinct (map fst (dict_entries d'))" "dict_map d' = (dict_map d1)(key := None)"
    "length (dict_entries d') \<le> length (dict_entries d1)"
    if "add_mset (key, v) (mset (dict_entries d')) = mset (dict_entries d1)" for d' v
  proof -
    have m: "mset (dict_entries d1) = add_mset (key, v) (mset (dict_entries d'))" using that by simp
    show "distinct (map fst (dict_entries d'))" by (rule distinct_map_of_insert(3) [OF dist m])
    show "dict_map d' = (dict_map d1)(key := None)"
      unfolding dict_map_def by (rule distinct_map_of_insert(2) [OF dist m])
    have "size (mset (dict_entries d1)) = size (add_mset (key, v) (mset (dict_entries d')))" using m by (rule arg_cong)
    then show "length (dict_entries d') \<le> length (dict_entries d1)" by simp
  qed
  have ok0: "ht_ok hash (ht0 d1)" using d1(2) by (simp add: dict_ok_def)
  obtain h0 t t' where h0: "delete_in hash (ht0 d1) key = Some (map_of (ht_entries (ht0 d1)) key, h0)" "ht_ok hash h0"
    "ht_size_exp h0 = ht_size_exp (ht0 d1)" "ht_table (ht0 d1) = Some t" "ht_table h0 = Some t'" "length t' = length t"
    "\<forall>i < length t. t ! i = [] \<longrightarrow> t' ! i = []"
    "case map_of (ht_entries (ht0 d1)) key of None \<Rightarrow> h0 = ht0 d1
       | Some v \<Rightarrow> add_mset (key, v) (mset (ht_entries h0)) = mset (ht_entries (ht0 d1))"
    using delete_in_ok [OF ok0 t0, of key] by blast
  show ?thesis
  proof (cases "map_of (ht_entries (ht0 d1)) key")
    case (Some v)
    have "add_mset (key, v) (mset (dict_entries (d1\<lparr>ht0 := h0\<rparr>))) = mset (dict_entries d1)"
      using h0(8) Some by (simp add: dict_entries_def flip: add_mset_add_single union_mset_add_mset_left)
    note f = fin [OF this]
    have "rehash_ok (d1\<lparr>ht0 := h0\<rparr>)"
      using d1(2) h0(3-7) by (auto simp: dict_ok_def rehash_ok_def)
    then have "dict_ok hash (d1\<lparr>ht0 := h0\<rparr>)" using d1(2) h0(2) f(1) by (simp add: dict_ok_def)
    moreover have "dictGenericDelete rs hash d key = Some (dict_map d key, d1\<lparr>ht0 := h0\<rparr>)"
      unfolding dictGenericDelete_def d1(1) using False h0(1) Some d1(3) [symmetric] by (simp add: dict_map_tables)
    ultimately show ?thesis using f d1(3,4) by auto
  next
    case None
    show ?thesis
    proof (cases "dictIsRehashing d1")
      case nr: False
      have "ht_entries (ht1 d1) = []" using d1(2) nr by (simp add: dict_ok_def rehash_ok_def dictIsRehashing_def)
      then have n: "dict_map d key = None" using None d1(3) [symmetric] by (simp add: dict_map_tables)
      have "dictGenericDelete rs hash d key = Some (dict_map d key, d1)"
        unfolding dictGenericDelete_def d1(1) using False h0(1) None nr n by simp
      then show ?thesis using d1 n by (auto simp: fun_upd_idem)
    next
      case re: True
      have ok1: "ht_ok hash (ht1 d1)" "ht_table (ht1 d1) \<noteq> None"
        using d1(2) re by (auto simp: dict_ok_def rehash_ok_def dictIsRehashing_def)
      obtain h1 where h1: "delete_in hash (ht1 d1) key = Some (map_of (ht_entries (ht1 d1)) key, h1)" "ht_ok hash h1"
        "ht_size_exp h1 = ht_size_exp (ht1 d1)" "ht_table h1 \<noteq> None"
        "case map_of (ht_entries (ht1 d1)) key of None \<Rightarrow> h1 = ht1 d1
           | Some v \<Rightarrow> add_mset (key, v) (mset (ht_entries h1)) = mset (ht_entries (ht1 d1))"
        using delete_in_ok [OF ok1, of key] by auto
      have dm: "dict_map d key = map_of (ht_entries (ht1 d1)) key" using None d1(3) [symmetric] by (simp add: dict_map_tables)
      show ?thesis
      proof (cases "map_of (ht_entries (ht1 d1)) key")
        case (Some v)
        have "add_mset (key, v) (mset (dict_entries (d1\<lparr>ht1 := h1\<rparr>))) = mset (dict_entries d1)"
          using h1(5) Some by (simp add: dict_entries_def flip: union_mset_add_mset_right)
        note f = fin [OF this]
        have "rehash_ok (d1\<lparr>ht1 := h1\<rparr>)"
          using d1(2) re h1(3,4) by (auto simp: dict_ok_def rehash_ok_def dictIsRehashing_def split: option.splits)
        then have "dict_ok hash (d1\<lparr>ht1 := h1\<rparr>)" using d1(2) h1(2) f(1) by (simp add: dict_ok_def)
        moreover have "dictGenericDelete rs hash d key = Some (dict_map d key, d1\<lparr>ht1 := h1\<rparr>)"
          unfolding dictGenericDelete_def d1(1) using False h0(1) None re h1(1) Some dm by simp
        ultimately show ?thesis using f d1(3,4) by auto
      next
        case n: None
        have "dictGenericDelete rs hash d key = Some (dict_map d key, d1)"
          unfolding dictGenericDelete_def d1(1) using False h0(1) None re h1(1) n dm by simp
        then show ?thesis using d1 dm n by (auto simp: fun_upd_idem)
      qed
    qed
  qed
qed

section \<open>The dictionary as a map\<close>

definition dict_apply ::
  "dictResizeEnable \<Rightarrow> (nat \<Rightarrow> nat \<Rightarrow> nat \<Rightarrow> bool) option \<Rightarrow> ('k \<Rightarrow> nat) \<Rightarrow> 'v \<Rightarrow> ('k, 'v) dict \<Rightarrow> ('k, 'v) map_op \<Rightarrow>
     ((bool \<times> 'v option) \<times> ('k, 'v) dict) option" where
  "dict_apply rs allow hash v0 d x = (case x of
      MapAdd k v \<Rightarrow> do { (b, d) \<leftarrow> dictAdd rs allow hash v0 d k v; Some ((b, None), d) }
    | MapReplace k v \<Rightarrow> do { (b, d) \<leftarrow> dictReplace rs allow hash v0 d k v; Some ((b, None), d) }
    | MapDelete k \<Rightarrow> do { (b, d) \<leftarrow> dictDelete rs hash d k; Some ((b, None), d) }
    | MapFind k \<Rightarrow> do { (r, d) \<leftarrow> dictFind rs hash d k; Some ((r \<noteq> None, r), d) })"

lemma dict_apply_ok:
  assumes ok: "dict_ok hash d" and lt: "length (dict_entries d) + 1 < 2 ^ 60"
  shows "\<exists>d'. dict_apply rs allow hash v0 d x = Some (map_reply x (dict_map d), d') \<and> dict_ok hash d' \<and>
    dict_map d' = map_spec x (dict_map d) \<and> length (dict_entries d') \<le> length (dict_entries d) + 1"
proof (cases x)
  case (MapAdd k v)
  obtain d1 where d1: "dictAddRaw rs allow hash d k v0 = Some (dict_map d k = None, dict_map d k, d1)" "dict_ok hash d1"
    "dict_map d1 = (if dict_map d k = None then (dict_map d)(k \<mapsto> v0) else dict_map d)"
    "length (dict_entries d1) \<le> length (dict_entries d) + 1"
    using dictAddRaw_ok [OF ok lt, of rs allow k v0] by blast
  show ?thesis
    using d1 dictSetVal_ok [OF d1(2), of k v] MapAdd
    by (cases "dict_map d k") (auto simp: dict_apply_def dictAdd_def fun_eq_iff)
next
  case (MapReplace k v)
  obtain d1 where d1: "dictAddRaw rs allow hash d k v0 = Some (dict_map d k = None, dict_map d k, d1)" "dict_ok hash d1"
    "dict_map d1 = (if dict_map d k = None then (dict_map d)(k \<mapsto> v0) else dict_map d)"
    "length (dict_entries d1) \<le> length (dict_entries d) + 1"
    using dictAddRaw_ok [OF ok lt, of rs allow k v0] by blast
  show ?thesis
    using d1 dictSetVal_ok [OF d1(2), of k v] MapReplace
    by (cases "dict_map d k") (auto simp: dict_apply_def dictReplace_def fun_eq_iff)
next
  case (MapDelete k)
  then show ?thesis using dictGenericDelete_ok [OF ok, of rs k] by (auto simp: dict_apply_def dictDelete_def)
next
  case (MapFind k)
  then show ?thesis using dictFind_ok [OF ok, of rs k] by (auto simp: dict_apply_def)
qed

interpretation dmap: map_encoding "dict_ok hash" dict_map "\<lambda>d. length (dict_entries d)"
  "dict_apply rs allow hash v0" "2 ^ 60"
  for hash :: "'k \<Rightarrow> nat" and rs allow and v0 :: 'v
  by unfold_locales (rule dict_apply_ok)

lemma dictCreate_ok: "dict_ok hash dictCreate" "dict_map dictCreate = Map.empty" "dict_entries dictCreate = []"
  by (simp_all add: dict_ok_def dictCreate_def rehash_ok_def dict_entries_def dict_map_def)

text \<open>
  C1. The hash table is a map. From an empty dictionary, any sequence of fewer than 2^60
  additions, replacements, deletions and lookups runs without a failed assertion or an access
  outside a table, answers every operation as a finite map would, and ends in a dictionary that
  stands for that map; for every hash function, every resize policy and every decision of the
  type's callback. Every operation interleaves with the incremental rehashing it performs.
\<close>

theorem dict_refines_map:
  assumes "length ops < 2 ^ 60"
  shows "\<exists>d. map_run (dict_apply rs allow hash v0) ops dictCreate = Some (map_replies ops Map.empty, d) \<and>
    dict_ok hash d \<and> dict_map d = fold map_spec ops Map.empty"
  using dmap.run_replies [of hash dictCreate ops rs allow v0] assms by (simp add: dictCreate_ok)

theorem dict_refines_map_witness:
  "\<exists>d. map_run (dict_apply DICT_RESIZE_ENABLE None (\<lambda>k. k) 0)
      [MapAdd 1 10, MapAdd 5 50, MapDelete 1, MapFind 5 :: (nat, nat) map_op] dictCreate =
    Some (map_replies [MapAdd (1 :: nat) 10, MapAdd 5 50, MapDelete 1, MapFind 5] Map.empty, d) \<and>
    dict_ok (\<lambda>k. k) d \<and> dict_map d = fold map_spec [MapAdd 1 10, MapAdd 5 50, MapDelete 1, MapFind 5] Map.empty"
  by (rule dict_refines_map) simp

text \<open>
  C12. The structural invariant of the dictionary - table sizes that are powers of two, exact
  element counters, every entry in the bucket of its hash, buckets before the rehash index empty,
  no key twice - is kept by a call of \<open>dictRehash\<close> of any number of steps, which moves
  entries between the tables and loses, duplicates or changes none; and the counters add up to the
  number of keys of the map.
\<close>

theorem dictRehash_invariant:
  assumes "dict_ok hash d"
  shows "\<exists>more d'. dictRehash rs hash d n = Some (more, d') \<and> dict_ok hash d' \<and> dict_map d' = dict_map d \<and>
    dictSize d' = card (dom (dict_map d))"
proof -
  obtain more d' where r: "dictRehash rs hash d n = Some (more, d')" "dict_ok hash d'"
    "mset (dict_entries d') = mset (dict_entries d)"
    using dictRehash_ok(1) [OF assms, of rs n] by blast
  have dist: "distinct (map fst (dict_entries d))" using assms by (simp add: dict_ok_def)
  have m: "dict_map d' = dict_map d" using dist r(3) by (rule dict_map_mset(2))
  have "dictSize d' = length (dict_entries d')" using r(2) by (rule dict_ok_size)
  also have "\<dots> = length (map fst (dict_entries d))" using mset_eq_length [OF r(3)] by simp
  also have "\<dots> = card (set (map fst (dict_entries d)))" using distinct_card [OF dist] by simp
  also have "set (map fst (dict_entries d)) = dom (dict_map d)" by (simp add: dict_map_def dom_map_of_conv_image_fst)
  finally show ?thesis using r m by blast
qed

text \<open>A dictionary in the middle of a rehash from four to eight buckets.\<close>

definition rehash_example :: "(nat, nat) dict" where
  "rehash_example =
     \<lparr>ht0 = \<lparr>ht_table = Some [[], [(5, 50)], [], []], ht_used = 1, ht_size_exp = 2\<rparr>,
      ht1 = \<lparr>ht_table = Some [[(8, 80)], [], [], [], [], [], [], []], ht_used = 1, ht_size_exp = 3\<rparr>,
      rehashidx = 1, pauserehash = 0\<rparr>"

lemma rehash_example_ok: "dict_ok (\<lambda>k. k) rehash_example"
  by (simp add: rehash_example_def dict_ok_def ht_ok_def rehash_ok_def dict_entries_def ht_entries_def All_less_Suc2)

lemma rehash_example_size: "DICTHT_SIZE (ht_size_exp (ht0 rehash_example)) = 4"
  by (simp add: rehash_example_def DICTHT_SIZE_def)

theorem dictRehash_invariant_witness:
  "\<exists>more d'. dictRehash DICT_RESIZE_ENABLE (\<lambda>k. k) rehash_example 3 = Some (more, d') \<and>
    dict_ok (\<lambda>k. k) d' \<and> dict_map d' = dict_map rehash_example \<and>
    dictSize d' = card (dom (dict_map rehash_example))"
  using dictRehash_invariant [OF rehash_example_ok] by blast

fun rehash_times :: "('k \<Rightarrow> nat) \<Rightarrow> nat \<Rightarrow> nat \<Rightarrow> ('k, 'v) dict \<Rightarrow> ('k, 'v) dict option" where
  "rehash_times hash n 0 d = Some d"
| "rehash_times hash n (Suc k) d = do {
     (more, d) \<leftarrow> dictRehash DICT_RESIZE_ENABLE hash d n;
     rehash_times hash n k d }"

lemma rehash_idle: "rehashidx d = - 1 \<Longrightarrow> rehash_times hash n k d = Some d"
  by (induction k) (simp_all add: dictRehash_def dictIsRehashing_def Let_def)

lemma rehash_index_bound:
  assumes "dict_ok hash d" and "rehashidx d \<noteq> - 1"
  shows "0 \<le> rehashidx d" and "nat (rehashidx d) \<le> DICTHT_SIZE (ht_size_exp (ht0 d))"
  using assms by (auto simp: dict_ok_def rehash_ok_def ht_ok_def size_pow split: option.splits)

text \<open>
  C13. Rehashing terminates: as long as resizing is enabled, calling \<open>dictRehash\<close> with at
  least one step, once more than there are buckets in the old table, completes the migration.
  Every call either finishes it or advances the rehash index, whatever the number of empty
  buckets it is limited to visit.
\<close>

theorem dictRehash_completes:
  assumes "dict_ok hash d" and "0 < n" and "DICTHT_SIZE (ht_size_exp (ht0 d)) < k"
  shows "\<exists>d'. rehash_times hash n k d = Some d' \<and> rehashidx d' = - 1 \<and> dict_ok hash d' \<and>
    dict_map d' = dict_map d"
proof -
  have main: "\<exists>d'. rehash_times hash n k d = Some d' \<and> rehashidx d' = - 1 \<and> dict_ok hash d' \<and> dict_map d' = dict_map d"
    if "dict_ok hash d" "rehashidx d = - 1 \<or> DICTHT_SIZE (ht_size_exp (ht0 d)) < k + nat (rehashidx d)" for d k
    using that
  proof (induction k arbitrary: d)
    case 0
    then show ?case using rehash_index_bound(2) [OF 0(1)] by (cases "rehashidx d = - 1") auto
  next
    case (Suc k)
    show ?case
    proof (cases "rehashidx d = - 1")
      case True
      then show ?thesis using rehash_idle [OF True, of hash n "Suc k"] Suc.prems(1) by blast
    next
      case False
      obtain more d1 where r: "dictRehash DICT_RESIZE_ENABLE hash d n = Some (more, d1)" "dict_ok hash d1"
        "mset (dict_entries d1) = mset (dict_entries d)"
        using dictRehash_ok(1) [OF Suc.prems(1), of DICT_RESIZE_ENABLE n] by blast
      have dist: "distinct (map fst (dict_entries d))" using Suc.prems(1) by (simp add: dict_ok_def)
      have m: "dict_map d1 = dict_map d" using dist r(3) by (rule dict_map_mset(2))
      have "rehashidx d1 = - 1 \<or> (rehashidx d < rehashidx d1 \<and> ht_size_exp (ht0 d1) = ht_size_exp (ht0 d))"
        using dictRehash_ok(2) [OF Suc.prems(1) refl False assms(2)] r(1) by auto
      then have "rehashidx d1 = - 1 \<or> DICTHT_SIZE (ht_size_exp (ht0 d1)) < k + nat (rehashidx d1)"
        using Suc.prems(2) False rehash_index_bound(1) [OF Suc.prems(1) False] by auto
      then show ?thesis using Suc.IH [OF r(2)] r(1) m by simp
    qed
  qed
  show ?thesis by (rule main [OF assms(1)]) (use assms(3) in simp)
qed

theorem dictRehash_completes_witness:
  "\<exists>d'. rehash_times (\<lambda>k. k) 1 5 rehash_example = Some d' \<and> rehashidx d' = - 1 \<and>
    dict_ok (\<lambda>k. k) d' \<and> dict_map d' = dict_map rehash_example"
  using dictRehash_completes [OF rehash_example_ok, of 1 5] rehash_example_size by simp

end
