(* ===== verification/Dict_Scan.thy ===== *)
theory Dict_Scan
  imports Dict
begin

text \<open>
  The cursor scan of the hash table, \<open>rev\<close>, \<open>dictScan\<close> and \<open>dictScanDefrag\<close> of
  \<open>src/redis-7.2.4/src/dict.c\<close>. The cursor is a word of 64 bits that is incremented with its bits
  reversed. The lemmas give the closed form of \<open>rev\<close>, the interval of reversed hashes that one
  call covers, with one table and with two while rehashing, and the termination of the loop over
  the larger table. The theorem at the end is the guarantee that the comment over \<open>dictScan\<close> makes:
  every element that is present during the whole iteration is returned.
\<close>

section \<open>Reversing the bits of the cursor\<close>

text \<open>\<open>rev\<close>: the loop halves \<open>s\<close> from 64 bits, and exchanges neighbouring groups of \<open>s\<close> bits.\<close>

function rev_loop :: "nat \<Rightarrow> u64 \<Rightarrow> u64 \<Rightarrow> u64" where
  "rev_loop s msk v =
     (let s = s div 2
      in if s > 0
         then let msk = msk XOR push_bit s msk;
                  v = (drop_bit s v AND msk) OR (push_bit s v AND NOT msk)
              in rev_loop s msk v
         else v)"
  by pat_completeness auto
termination by (relation "measure (\<lambda>(s, msk, v). s)") auto

declare rev_loop.simps [simp del]

definition rev_bits :: "u64 \<Rightarrow> u64" where
  "rev_bits v = rev_loop 64 (- 1) v"

text \<open>A pass exchanges neighbouring groups of \<open>s\<close> bits.\<close>

definition rev_pass :: "nat \<Rightarrow> u64 \<Rightarrow> u64 \<Rightarrow> u64" where
  "rev_pass s msk v = (drop_bit s v AND msk) OR (push_bit s v AND NOT msk)"

lemma rev_loop_step:
  "0 < s \<Longrightarrow> msk XOR push_bit s msk = msk' \<Longrightarrow> rev_loop (2 * s) msk v = rev_loop s msk' (rev_pass s msk' v)"
  by (subst rev_loop.simps) (simp add: rev_pass_def)

lemma rev_masks:
  "(- 1 :: u64) XOR push_bit 32 (- 1) = 0x00000000FFFFFFFF"
  "(0x00000000FFFFFFFF :: u64) XOR push_bit 16 0x00000000FFFFFFFF = 0x0000FFFF0000FFFF"
  "(0x0000FFFF0000FFFF :: u64) XOR push_bit 8 0x0000FFFF0000FFFF = 0x00FF00FF00FF00FF"
  "(0x00FF00FF00FF00FF :: u64) XOR push_bit 4 0x00FF00FF00FF00FF = 0x0F0F0F0F0F0F0F0F"
  "(0x0F0F0F0F0F0F0F0F :: u64) XOR push_bit 2 0x0F0F0F0F0F0F0F0F = 0x3333333333333333"
  "(0x3333333333333333 :: u64) XOR push_bit 1 0x3333333333333333 = 0x5555555555555555"
  by (simp_all add: push_bit_eq_mult)

lemma rev_bits_passes:
  "rev_bits v =
     rev_pass 1 0x5555555555555555 (rev_pass 2 0x3333333333333333 (rev_pass 4 0x0F0F0F0F0F0F0F0F
       (rev_pass 8 0x00FF00FF00FF00FF (rev_pass 16 0x0000FFFF0000FFFF (rev_pass 32 0x00000000FFFFFFFF v)))))"
  using rev_loop_step [OF _ rev_masks(1), of v] rev_loop_step [OF _ rev_masks(2)] rev_loop_step [OF _ rev_masks(3)]
    rev_loop_step [OF _ rev_masks(4)] rev_loop_step [OF _ rev_masks(5)] rev_loop_step [OF _ rev_masks(6)]
  by (simp add: rev_bits_def rev_loop.simps [of "Suc 0"])

lemma bit_pass:
  "bit (rev_pass s msk v) i \<longleftrightarrow> i < 64 \<and> (if bit msk i then bit v (i + s) else s \<le> i \<and> bit v (i - s))"
  by (auto simp: rev_pass_def bit_simps add.commute [of s] dest: bit_imp_le_length)

lemma upt_64_all: "(\<forall>i < 64. P i) \<longleftrightarrow> list_all P [0..<64 :: nat]"
  by (auto simp: list_all_iff)

lemma bit_rev_all: "\<forall>i < 64. bit (rev_bits v) i = bit v (63 - i)"
  unfolding upt_64_all rev_bits_passes
  by (simp add: upt_rec bit_pass numeral_2_eq_2 numeral_3_eq_3)

lemma bit_rev: "bit (rev_bits v) i \<longleftrightarrow> i < 64 \<and> bit v (63 - i)"
  using bit_rev_all [of v] bit_imp_le_length [of "rev_bits v" i] by auto

lemma rev_rev [simp]: "rev_bits (rev_bits v) = v"
  by (rule bit_word_eqI) (auto simp: bit_rev)

lemma rev_0 [simp]: "rev_bits 0 = 0"
  by (rule bit_word_eqI) (simp add: bit_rev)

section \<open>Scanning with a cursor\<close>

text \<open>
  The steps of \<open>dictScanDefrag\<close>: the cursor is incremented from its high bits with the bits outside of
  the mask set; a bucket is emitted; in the larger table the loop goes through the expansions of
  the index of the smaller one.
\<close>

definition next_cursor :: "u64 \<Rightarrow> u64 \<Rightarrow> u64" where
  "next_cursor m v = rev_bits (rev_bits (v OR NOT m) + 1)"

definition scan_mask :: "('k, 'v) dictht \<Rightarrow> u64" where
  "scan_mask ht = of_nat (DICTHT_SIZE_MASK (ht_size_exp ht))"

definition scan_bucket :: "('k, 'v) dictht \<Rightarrow> u64 \<Rightarrow> ('k \<times> 'v) list option" where
  "scan_bucket ht v = do { t \<leftarrow> ht_table ht; rd t (unat (v AND scan_mask ht)) }"

partial_function (option) scan_loop ::
  "('k, 'v) dictht \<Rightarrow> u64 \<Rightarrow> u64 \<Rightarrow> ('k \<times> 'v) list \<Rightarrow> (('k \<times> 'v) list \<times> u64) option" where
  "scan_loop t1 m0 v es = do {
     b \<leftarrow> scan_bucket t1 v;
     let v = next_cursor (scan_mask t1) v;
     if v AND (m0 XOR scan_mask t1) \<noteq> 0 then scan_loop t1 m0 v (es @ b) else Some (es @ b, v) }"

text \<open>
  \<open>dictScan\<close> is \<open>dictScanDefrag\<close> without functions that move memory. The result is the list of the entries
  passed to the callback and the next cursor. The callback does not change the dictionary;
  rehashing is paused at the start and resumed at the end, so that the dictionary is as before.
\<close>

definition dictScan :: "('k, 'v) dict \<Rightarrow> u64 \<Rightarrow> (('k \<times> 'v) list \<times> u64) option" where
  "dictScan d v =
     (if dictSize d = 0 then Some ([], 0)
      else if \<not> dictIsRehashing d then do {
        b \<leftarrow> scan_bucket (ht0 d) v;
        Some (b, next_cursor (scan_mask (ht0 d)) v) }
      else do {
        let (t0, t1) =
          (if DICTHT_SIZE (ht_size_exp (ht0 d)) > DICTHT_SIZE (ht_size_exp (ht1 d)) then (ht1 d, ht0 d)
           else (ht0 d, ht1 d));
        b \<leftarrow> scan_bucket t0 v;
        scan_loop t1 (scan_mask t0) v b })"

section \<open>The order in which a scan visits hashes\<close>

text \<open>The place of a cursor or a hash in the scan: its bits reversed. The place grows from call to call.\<close>

definition scan_order :: "u64 \<Rightarrow> nat" where
  "scan_order v = unat (rev_bits v)"

lemma order_less: "scan_order v < 2 ^ 64"
  using unsigned_less [of "rev_bits v"] by (simp add: scan_order_def)

lemma order_0 [simp]: "scan_order 0 = 0"
  by (simp add: scan_order_def)

lemma order_eq_0: "scan_order v = 0 \<longleftrightarrow> v = 0"
  by (metis scan_order_def rev_0 rev_rev unat_eq_zero)

lemma or_mask_nat: "x OR mask n = x div 2 ^ n * 2 ^ n + (2 ^ n - 1 :: nat)"
proof -
  have "push_bit n (drop_bit n (x OR mask n)) + take_bit n (x OR mask n) = x OR mask n" by (rule bits_ident)
  moreover have "drop_bit n (x OR mask n) = drop_bit n x" by (simp add: drop_bit_mask_eq)
  moreover have "take_bit n (x OR mask n) = mask n" by (rule bit_eqI) (auto simp: bit_simps)
  ultimately show ?thesis by (simp add: push_bit_eq_mult drop_bit_eq_div mask_eq_exp_minus_1)
qed

lemma unat_or_mask:
  assumes "n \<le> 64"
  shows "unat (u OR mask n :: u64) = unat u div 2 ^ n * 2 ^ n + (2 ^ n - 1)"
proof -
  have "unat (mask n :: u64) = mask n" using assms by (intro bit_eqI) (auto simp: bit_simps)
  then show ?thesis unfolding unsigned_or_eq by (simp only: or_mask_nat)
qed

lemma rev_or_mask: "k < 64 \<Longrightarrow> rev_bits (v OR NOT (mask k)) = rev_bits v OR mask (64 - k)"
  by (rule bit_word_eqI) (auto simp: bit_rev bit_simps)

text \<open>The next cursor is the start of the next block of \<open>2 ^ (64 - k)\<close> positions.\<close>

lemma next_order:
  assumes "k < 64"
  shows "scan_order (next_cursor (mask k) v) = ((scan_order v div 2 ^ (64 - k) + 1) * 2 ^ (64 - k)) mod 2 ^ 64"
proof -
  let ?B = "2 ^ (64 - k) :: nat"
  have "scan_order (next_cursor (mask k) v) = unat ((rev_bits v OR mask (64 - k)) + 1)"
    using assms by (simp add: scan_order_def next_cursor_def rev_or_mask)
  also have "\<dots> = (unat (rev_bits v OR mask (64 - k)) + 1) mod 2 ^ 64"
    by (simp add: unat_word_ariths)
  also have "unat (rev_bits v OR mask (64 - k)) + 1 = scan_order v div ?B * ?B + ?B"
    by (simp add: unat_or_mask scan_order_def)
  finally show ?thesis by (simp add: algebra_simps)
qed

lemma same_block:
  assumes "k < 64" "scan_order u div 2 ^ (64 - k) = scan_order v div 2 ^ (64 - k)"
  shows "unat u mod 2 ^ k = unat v mod 2 ^ k"
proof -
  have "drop_bit (64 - k) (unat (rev_bits u)) = drop_bit (64 - k) (unat (rev_bits v))"
    using assms(2) by (simp add: scan_order_def drop_bit_eq_div)
  then have d: "drop_bit (64 - k) (rev_bits u) = drop_bit (64 - k) (rev_bits v)"
    by (metis unat_drop_bit_eq unsigned_word_eqI)
  have "take_bit k u = take_bit k v"
  proof (rule bit_word_eqI)
    fix i assume i: "i < LENGTH(64)"
    show "bit (take_bit k u) i = bit (take_bit k v) i"
    proof (cases "i < k")
      case True
      then have e: "64 - k + (k - Suc i) = 63 - i" using assms(1) by simp
      have "bit (drop_bit (64 - k) (rev_bits u)) (k - Suc i) = bit (drop_bit (64 - k) (rev_bits v)) (k - Suc i)"
        using d by simp
      then have "bit (rev_bits u) (63 - i) = bit (rev_bits v) (63 - i)" by (simp add: bit_drop_bit_eq e)
      then show ?thesis using i True by (auto simp: bit_rev bit_take_bit_iff)
    qed (simp add: bit_take_bit_iff)
  qed
  then show ?thesis by (metis take_bit_eq_mod unsigned_take_bit_eq)
qed

lemma block_of:
  fixes b :: nat
  assumes "x \<le> y" "y < (x div b + 1) * b" "0 < b"
  shows "y div b = x div b"
proof (rule antisym)
  show "y div b \<le> x div b" using assms(2,3) by (simp add: less_mult_imp_div_less flip: less_Suc_eq_le)
  show "x div b \<le> y div b" using assms(1) by (rule div_le_mono)
qed

section \<open>What a call of the scan returns\<close>

text \<open>Tables of at most \<open>2 ^ K\<close> buckets.\<close>

definition scan_sized :: "nat \<Rightarrow> ('k, 'v) dict \<Rightarrow> bool" where
  "scan_sized K d \<longleftrightarrow> ht_size_exp (ht0 d) \<le> int K \<and> ht_size_exp (ht1 d) \<le> int K"

lemma scan_mask_pow: "0 \<le> ht_size_exp ht \<Longrightarrow> scan_mask ht = mask (nat (ht_size_exp ht))"
proof -
  assume "0 \<le> ht_size_exp ht"
  then have "DICTHT_SIZE_MASK (ht_size_exp ht) = mask (nat (ht_size_exp ht))"
    using size_pow [of "ht_size_exp ht"] by (simp add: DICTHT_SIZE_MASK_def mask_eq_exp_minus_1)
  then show ?thesis by (simp add: scan_mask_def of_nat_mask_eq)
qed

lemma scan_bucket_exact:
  assumes ok: "ht_ok hash ht" and t: "ht_table ht \<noteq> None" and e: "ht_size_exp ht < 64"
  shows "\<exists>b. scan_bucket ht v = Some b \<and> set b \<subseteq> set (ht_entries ht) \<and>
      (\<forall>x \<in> set (ht_entries ht). hash (fst x) < 2 ^ 64 \<and>
        scan_order (of_nat (hash (fst x))) div 2 ^ (64 - nat (ht_size_exp ht)) = scan_order v div 2 ^ (64 - nat (ht_size_exp ht))
        \<longrightarrow> x \<in> set b)"
proof -
  let ?k = "nat (ht_size_exp ht)"
  obtain t where tt: "ht_table ht = Some t" using t by blast
  note o = ht_okE [OF ok tt]
  have k: "?k < 64" using e o(1) by simp
  have i: "unat (v AND scan_mask ht) = unat v mod 2 ^ ?k"
    unfolding scan_mask_pow [OF o(1)] 
    by (simp only: take_bit_eq_mask [symmetric] unsigned_take_bit_eq) (rule take_bit_eq_mod)
  have l: "unat v mod 2 ^ ?k < length t" by (simp add: o(2))
  have "x \<in> set (t ! (unat v mod 2 ^ ?k))" if x: "x \<in> set (ht_entries ht)" and h: "hash (fst x) < 2 ^ 64"
    and b: "scan_order (of_nat (hash (fst x))) div 2 ^ (64 - ?k) = scan_order v div 2 ^ (64 - ?k)" for x
  proof -
    obtain j where j: "j < length t" "x \<in> set (t ! j)"
      using x unfolding o(5) by (metis UN_iff in_set_conv_nth set_concat)
    have "unat (of_nat (hash (fst x)) :: u64) = hash (fst x)" using h by (simp add: unsigned_of_nat take_bit_nat_eq_self)
    then have "hash (fst x) mod 2 ^ ?k = unat v mod 2 ^ ?k" using same_block [OF k b] by simp
    then show ?thesis using o(4) [OF j] j by simp
  qed
  moreover have "set (t ! (unat v mod 2 ^ ?k)) \<subseteq> set (ht_entries ht)"
    unfolding o(5) using l nth_mem by fastforce
  ultimately show ?thesis
    by (intro exI [of _ "t ! (unat v mod 2 ^ ?k)"]) (simp add: scan_bucket_def tt i rd_def l)
qed

lemma order_multiple: "scan_order v mod 2 ^ n = 0 \<longleftrightarrow> (\<forall>i < n. \<not> bit (rev_bits v) i)"
proof -
  have "scan_order v mod 2 ^ n = 0 \<longleftrightarrow> take_bit n (rev_bits v) = 0"
    by (metis scan_order_def take_bit_eq_mod unsigned_take_bit_eq unat_eq_zero)
  also have "\<dots> \<longleftrightarrow> (\<forall>i < n. \<not> bit (rev_bits v) i)"
    using bit_imp_le_length [of "rev_bits v"] by (auto simp: bit_eq_iff bit_take_bit_iff)
  finally show ?thesis .
qed

lemma mask_difference_bits:
  assumes "k < j" "j < 64"
  shows "v AND (mask k XOR mask j) = (0 :: u64) \<longleftrightarrow> (\<forall>n. k \<le> n \<and> n < j \<longrightarrow> \<not> bit v n)"
proof -
  have b: "bit (v AND (mask k XOR mask j)) n \<longleftrightarrow> bit v n \<and> k \<le> n \<and> n < j" for n
    using assms by (auto simp: bit_simps)
  show ?thesis using less_trans [OF _ assms(2)] by (auto simp: bit_eq_iff b simp del: bit_and_iff bit_xor_iff)
qed

text \<open>The condition of the loop: the cursor is not at the start of a block of the smaller table.\<close>

lemma mask_difference:
  assumes "k < j" "j < 64" "scan_order v mod 2 ^ (64 - j) = 0"
  shows "v AND (mask k XOR mask j) = 0 \<longleftrightarrow> scan_order v mod 2 ^ (64 - k) = 0"
proof -
  have low: "\<not> bit (rev_bits v) i" if "i < 64 - j" for i using assms(3) that unfolding order_multiple by simp
  have "scan_order v mod 2 ^ (64 - k) = 0 \<longleftrightarrow> (\<forall>i < 64 - k. \<not> bit (rev_bits v) i)" by (rule order_multiple)
  also have "\<dots> \<longleftrightarrow> (\<forall>i. 64 - j \<le> i \<and> i < 64 - k \<longrightarrow> \<not> bit (rev_bits v) i)"
    using low by (meson linorder_not_less)
  also have "\<dots> \<longleftrightarrow> (\<forall>n. k \<le> n \<and> n < j \<longrightarrow> \<not> bit v n)"
  proof
    assume a: "\<forall>i. 64 - j \<le> i \<and> i < 64 - k \<longrightarrow> \<not> bit (rev_bits v) i"
    show "\<forall>n. k \<le> n \<and> n < j \<longrightarrow> \<not> bit v n"
    proof (intro allI impI)
      fix n assume n: "k \<le> n \<and> n < j"
      then have "64 - j \<le> 63 - n \<and> 63 - n < 64 - k" "63 - (63 - n) = n" "63 - n < 64" using assms(1,2) by arith+
      then show "\<not> bit v n" using a bit_rev [of v "63 - n"] by metis
    qed
  next
    assume a: "\<forall>n. k \<le> n \<and> n < j \<longrightarrow> \<not> bit v n"
    show "\<forall>i. 64 - j \<le> i \<and> i < 64 - k \<longrightarrow> \<not> bit (rev_bits v) i"
    proof (intro allI impI)
      fix i assume "64 - j \<le> i \<and> i < 64 - k"
      then have "k \<le> 63 - i \<and> 63 - i < j" using assms(1,2) by arith
      then show "\<not> bit (rev_bits v) i" using a by (simp add: bit_rev)
    qed
  qed
  also have "\<dots> \<longleftrightarrow> v AND (mask k XOR mask j) = 0" using assms(1,2) by (simp add: mask_difference_bits)
  finally show ?thesis by simp
qed

lemma next_multiple:
  assumes "0 < (c :: nat)"
  shows "x < (x div c + 1) * c" and "x < e \<Longrightarrow> c dvd e \<Longrightarrow> (x div c + 1) * c \<le> e"
proof -
  show "x < (x div c + 1) * c" using assms by (simp add: dividend_less_div_times)
  assume "x < e" "c dvd e"
  then have "x div c + 1 \<le> e div c" using assms by (auto elim!: dvdE simp: less_mult_imp_div_less mult.commute Suc_le_eq)
  then have "(x div c + 1) * c \<le> e div c * c" by (rule mult_le_mono1)
  then show "(x div c + 1) * c \<le> e" using \<open>c dvd e\<close> by simp
qed

text \<open>
  The blocks of \<open>c\<close> and of \<open>b\<close> positions after \<open>x\<close>: the next small block starts inside of the big
  block of \<open>x\<close>, or both end together.
\<close>

lemma blocks:
  fixes x b c :: nat
  assumes c: "0 < c" "c dvd b" and b: "0 < b" and N: "N = (x div c + 1) * c" and E: "E = (x div b + 1) * b"
  shows "x < N" "x < E" "N \<le> E" "c dvd N" "b dvd E"
    and "x \<le> y \<Longrightarrow> y div b = x div b \<longleftrightarrow> y < E"
    and "N < E \<Longrightarrow> N mod b \<noteq> 0"
proof -
  show lt: "x < N" "x < E" unfolding N E using c(1) b by (simp_all only: next_multiple)
  show "c dvd N" "b dvd E" by (simp_all add: N E)
  have "c dvd E" using c(2) by (simp add: E)
  then show "N \<le> E" unfolding N by (rule next_multiple(2) [OF c(1) lt(2)])
  show blk: "y div b = x div b \<longleftrightarrow> y < E" if "x \<le> y" for y
    using block_of [OF that _ b] next_multiple(1) [OF b, of y] unfolding E by metis
  show "N mod b \<noteq> 0" if "N < E"
  proof
    assume "N mod b = 0"
    then have "N = x div b * b" using blk [of N] lt(1) that by (metis dvd_div_mult_self less_imp_le mod_0_imp_dvd)
    then show False using lt(1) div_times_less_eq_dividend [of x b] by simp
  qed
qed

text \<open>
  The loop over the larger table visits the blocks of the larger table up to the end of the block
  of the smaller one.
\<close>

lemma scan_loop_exact:
  fixes hash :: "'k \<Rightarrow> nat" and t1 :: "('k, 'v) dictht"
  assumes ok: "ht_ok hash t1" and t: "ht_table t1 \<noteq> None" and j: "j = nat (ht_size_exp t1)" "ht_size_exp t1 < 64"
    and k: "k < j" and B: "B = 2 ^ (64 - k)"
  shows "\<exists>es' v'. scan_loop t1 (mask k) v es = Some (es', v') \<and> set es \<subseteq> set es' \<and> set es' \<subseteq> set es \<union> set (ht_entries t1) \<and>
      scan_order v' = ((scan_order v div B + 1) * B) mod 2 ^ 64 \<and>
      (\<forall>x \<in> set (ht_entries t1). hash (fst x) < 2 ^ 64 \<and> scan_order v \<le> scan_order (of_nat (hash (fst x))) \<and>
        scan_order (of_nat (hash (fst x))) div B = scan_order v div B \<longrightarrow> x \<in> set es')"
proof (induction "(scan_order v div B + 1) * B - scan_order v" arbitrary: v es rule: less_induct)
  case less
  let ?C = "2 ^ (64 - j) :: nat" and ?v = "next_cursor (scan_mask t1) v"
  obtain tt where "ht_table t1 = Some tt" using t by blast
  note o = ht_okE [OF ok this]
  have j64: "j < 64" using j o(1) by simp
  have m: "scan_mask t1 = mask j" using scan_mask_pow [OF o(1)] j(1) by simp
  have BC: "B = 2 ^ (j - k) * ?C" using B k j64 by (simp flip: power_add)
  have pos: "0 < B" "0 < ?C" using B by simp_all
  define N where "N = (scan_order v div ?C + 1) * ?C"
  define E where "E = (scan_order v div B + 1) * B"
  have d64: "?C dvd 2 ^ 64" "B dvd 2 ^ 64" unfolding B by (rule le_imp_power_dvd, simp)+
  have CB: "?C dvd B" by (simp add: BC)
  note bl = blocks [OF pos(2) CB pos(1) N_def E_def]
  have E64: "E \<le> 2 ^ 64" unfolding E_def using next_multiple(2) [OF pos(1) order_less d64(2)] .
  have oN: "scan_order ?v = N mod 2 ^ 64" unfolding m N_def using next_order [OF j64] .
  obtain b where b: "scan_bucket t1 v = Some b" "set b \<subseteq> set (ht_entries t1)"
    "\<forall>x \<in> set (ht_entries t1). hash (fst x) < 2 ^ 64 \<and>
      scan_order (of_nat (hash (fst x))) div ?C = scan_order v div ?C \<longrightarrow> x \<in> set b"
    using scan_bucket_exact [OF ok t j(2), of v] j(1) by blast
  have now: "x \<in> set b" if "x \<in> set (ht_entries t1)" "hash (fst x) < 2 ^ 64"
    "scan_order v \<le> scan_order (of_nat (hash (fst x)))" "scan_order (of_nat (hash (fst x))) < N" for x
    using b(3) that block_of [OF that(3) that(4) [unfolded N_def] pos(2)] by blast
  have c0: "scan_order ?v mod ?C = 0" unfolding oN mod_mod_cancel [OF d64(1)] using bl(4) by (rule dvd_imp_mod_0)
  have cond: "?v AND (mask k XOR mask j) = 0 \<longleftrightarrow> scan_order ?v mod B = 0"
    unfolding B by (rule mask_difference [OF k j64 c0])
  show ?case
  proof (cases "N = E")
    case True
    have "scan_order ?v mod B = 0" unfolding oN True mod_mod_cancel [OF d64(2)] using bl(5) by (rule dvd_imp_mod_0)
    then have "scan_loop t1 (mask k) v es = Some (es @ b, ?v)"
      using cond by (subst scan_loop.simps) (simp add: b(1) m)
    then show ?thesis
      using b(2) now bl(6) oN True by (intro exI [of _ "es @ b"] exI [of _ ?v]) (auto simp: E_def)
  next
    case False
    then have less: "N < E" using bl(3) by simp
    then have v: "scan_order ?v = N" using oN E64 by simp
    have div: "N div B = scan_order v div B" using bl(6) [of N] bl(1) less by simp
    have "N mod B \<noteq> 0" using bl(7) less .
    then have step: "scan_loop t1 (mask k) v es = scan_loop t1 (mask k) ?v (es @ b)"
      using cond v by (subst scan_loop.simps) (simp add: b(1) m)
    have "(scan_order ?v div B + 1) * B - scan_order ?v < (scan_order v div B + 1) * B - scan_order v"
      using bl(1,2) less unfolding v div E_def by simp
    from less.hyps [OF this, of "es @ b"] obtain es' v' where
      r: "scan_loop t1 (mask k) ?v (es @ b) = Some (es', v')" "set (es @ b) \<subseteq> set es'"
      "set es' \<subseteq> set (es @ b) \<union> set (ht_entries t1)" "scan_order v' = ((scan_order v div B + 1) * B) mod 2 ^ 64"
      "\<forall>x \<in> set (ht_entries t1). hash (fst x) < 2 ^ 64 \<and> N \<le> scan_order (of_nat (hash (fst x))) \<and>
        scan_order (of_nat (hash (fst x))) div B = scan_order v div B \<longrightarrow> x \<in> set es'"
      unfolding v div by blast
    have "x \<in> set es'" if "x \<in> set (ht_entries t1)" "hash (fst x) < 2 ^ 64"
      "scan_order v \<le> scan_order (of_nat (hash (fst x)))" "scan_order (of_nat (hash (fst x))) div B = scan_order v div B" for x
      using now [OF that(1,2,3)] r(2,5) that by (cases "scan_order (of_nat (hash (fst x))) < N") auto
    then show ?thesis using r(1-4) b(2) unfolding step by (intro exI [of _ es'] exI [of _ v']) auto
  qed
qed

lemma cursor_end:
  assumes k: "k \<le> K" and B: "B = 2 ^ (64 - k)" and v': "scan_order v' = ((scan_order v div B + 1) * B) mod 2 ^ 64"
  shows "v' = 0 \<or> scan_order v div 2 ^ (64 - K) < scan_order v' div 2 ^ (64 - K)"
    and "scan_order v \<le> y \<Longrightarrow> y < 2 ^ 64 \<Longrightarrow> v' = 0 \<or> y < scan_order v' \<Longrightarrow> y div B = scan_order v div B"
proof -
  define E where "E = (scan_order v div B + 1) * B"
  have pos: "0 < B" and d: "B dvd 2 ^ 64" unfolding B by (simp, rule le_imp_power_dvd, simp)
  note bl = blocks [OF pos dvd_refl pos E_def E_def]
  have E64: "E \<le> 2 ^ 64" unfolding E_def using next_multiple(2) [OF pos order_less d] .
  have zero: "E = 2 ^ 64" if "v' = 0"
  proof (rule ccontr)
    assume "E \<noteq> 2 ^ 64"
    then have "scan_order v' = E" using v' E64 unfolding E_def [symmetric] by simp
    then show False using that bl(1) by simp
  qed
  have other: "scan_order v' = E" if "v' \<noteq> 0"
  proof -
    have "E \<noteq> 2 ^ 64" using that v' order_eq_0 [of v'] unfolding E_def [symmetric] by auto
    then show ?thesis using v' E64 unfolding E_def [symmetric] by simp
  qed
  have "(2 :: nat) ^ (64 - K) dvd B" unfolding B using k by (intro le_imp_power_dvd) simp
  then have "2 ^ (64 - K) dvd E" using bl(5) by (rule dvd_trans)
  then have "scan_order v div 2 ^ (64 - K) < E div 2 ^ (64 - K)"
    using bl(2) by (metis dvd_div_mult_self less_mult_imp_div_less)
  then show "v' = 0 \<or> scan_order v div 2 ^ (64 - K) < scan_order v' div 2 ^ (64 - K)" using other by auto
  show "y div B = scan_order v div B" if "scan_order v \<le> y" "y < 2 ^ 64" "v' = 0 \<or> y < scan_order v'"
    using bl(6) [OF that(1)] that(2,3) zero other by auto
qed

text \<open>
  What a call with cursor \<open>v\<close> that returns \<open>v'\<close> promises: only entries of the dictionary, a cursor that
  is later in the order or 0, and every entry whose hash is between the two.
\<close>

definition scan_covers :: "nat \<Rightarrow> ('k \<Rightarrow> nat) \<Rightarrow> ('k, 'v) dict \<Rightarrow> u64 \<Rightarrow> ('k \<times> 'v) list \<Rightarrow> u64 \<Rightarrow> bool" where
  "scan_covers K hash d v es v' \<longleftrightarrow>
     set es \<subseteq> set (dict_entries d) \<and> (v' = 0 \<or> scan_order v div 2 ^ (64 - K) < scan_order v' div 2 ^ (64 - K)) \<and>
     (\<forall>x \<in> set (dict_entries d). hash (fst x) < 2 ^ 64 \<and> scan_order v \<le> scan_order (of_nat (hash (fst x))) \<and>
        (v' = 0 \<or> scan_order (of_nat (hash (fst x))) < scan_order v') \<longrightarrow> x \<in> set es)"

lemma scan_one_table:
  assumes ok: "dict_ok hash d" and sz: "scan_sized K d" "K < 64" and ne: "dictSize d \<noteq> 0" and no: "\<not> dictIsRehashing d"
  shows "\<exists>es v'. dictScan d v = Some (es, v') \<and> scan_covers K hash d v es v'"
proof -
  let ?k = "nat (ht_size_exp (ht0 d))" and ?v = "next_cursor (scan_mask (ht0 d)) v"
  have h: "ht_ok hash (ht0 d)" and t: "ht_table (ht0 d) \<noteq> None"
    using ok table_allocated [OF ok ne] by (auto simp: dict_ok_def)
  then obtain tt where tt: "ht_table (ht0 d) = Some tt" by blast
  have e: "0 \<le> ht_size_exp (ht0 d)" "ht_size_exp (ht0 d) < 64" using ht_okE(1) [OF h tt] sz by (auto simp: scan_sized_def)
  have k: "?k < 64" "?k \<le> K" using e sz by (auto simp: scan_sized_def)
  have en: "dict_entries d = ht_entries (ht0 d)"
    using ok no by (auto simp: dict_ok_def rehash_ok_def dictIsRehashing_def dict_entries_def)
  obtain b where b: "scan_bucket (ht0 d) v = Some b" "set b \<subseteq> set (ht_entries (ht0 d))"
    "\<forall>x \<in> set (ht_entries (ht0 d)). hash (fst x) < 2 ^ 64 \<and>
      scan_order (of_nat (hash (fst x))) div 2 ^ (64 - ?k) = scan_order v div 2 ^ (64 - ?k) \<longrightarrow> x \<in> set b"
    using scan_bucket_exact [OF h t e(2)] by blast
  have "scan_order ?v = ((scan_order v div 2 ^ (64 - ?k) + 1) * 2 ^ (64 - ?k)) mod 2 ^ 64"
    unfolding scan_mask_pow [OF e(1)] by (rule next_order [OF k(1)])
  note c = cursor_end [OF k(2) refl this]
  have "scan_covers K hash d v b ?v"
    unfolding scan_covers_def en using b(2,3) c order_less by blast
  then show ?thesis using ne no b(1) by (simp add: dictScan_def)
qed

lemma scan_two_tables:
  assumes ok: "ht_ok hash t0" "ht_ok hash t1" and t: "ht_table t0 \<noteq> None" "ht_table t1 \<noteq> None"
    and sz: "ht_size_exp t0 \<le> int K" "ht_size_exp t1 \<le> int K" "K < 64" and less: "ht_size_exp t0 < ht_size_exp t1"
    and en: "set (dict_entries d) = set (ht_entries t0) \<union> set (ht_entries t1)"
  shows "\<exists>b es v'. scan_bucket t0 v = Some b \<and> scan_loop t1 (scan_mask t0) v b = Some (es, v') \<and> scan_covers K hash d v es v'"
proof -
  let ?k = "nat (ht_size_exp t0)" and ?j = "nat (ht_size_exp t1)" and ?B = "2 ^ (64 - nat (ht_size_exp t0)) :: nat"
  have e: "0 \<le> ht_size_exp t0" using ok(1) t(1) ht_okE(1) by blast
  have k: "?k \<le> K" "?k < ?j" using e sz less by simp_all
  have s: "ht_size_exp t0 < 64" "ht_size_exp t1 < 64" using sz by simp_all
  obtain b where b: "scan_bucket t0 v = Some b" "set b \<subseteq> set (ht_entries t0)"
    "\<forall>x \<in> set (ht_entries t0). hash (fst x) < 2 ^ 64 \<and>
      scan_order (of_nat (hash (fst x))) div ?B = scan_order v div ?B \<longrightarrow> x \<in> set b"
    using scan_bucket_exact [OF ok(1) t(1) s(1)] by blast
  obtain es v' where r: "scan_loop t1 (mask ?k) v b = Some (es, v')" "set b \<subseteq> set es"
    "set es \<subseteq> set b \<union> set (ht_entries t1)" "scan_order v' = ((scan_order v div ?B + 1) * ?B) mod 2 ^ 64"
    "\<forall>x \<in> set (ht_entries t1). hash (fst x) < 2 ^ 64 \<and> scan_order v \<le> scan_order (of_nat (hash (fst x))) \<and>
      scan_order (of_nat (hash (fst x))) div ?B = scan_order v div ?B \<longrightarrow> x \<in> set es"
    using scan_loop_exact [OF ok(2) t(2) refl s(2) k(2) refl] by blast
  note c = cursor_end [OF k(1) refl r(4)]
  have "scan_covers K hash d v es v'"
    unfolding scan_covers_def en using b(2,3) r(2,3,5) c order_less by blast
  then show ?thesis using b(1) r(1) scan_mask_pow [OF e] by auto
qed

lemma dictScan_covers:
  assumes ok: "dict_ok hash d" and sz: "scan_sized K d" "K < 64"
  shows "\<exists>es v'. dictScan d v = Some (es, v') \<and> scan_covers K hash d v es v'"
proof (cases "dictSize d = 0")
  case True
  have "length (dict_entries d) = dictSize d"
    using dict_ok_size [OF ok] by simp
  then show ?thesis using True by (simp add: dictScan_def scan_covers_def)
next
  case ne: False
  show ?thesis
  proof (cases "dictIsRehashing d")
    case False
    then show ?thesis using scan_one_table [OF ok sz ne] by blast
  next
    case True
    have h: "ht_ok hash (ht0 d)" "ht_ok hash (ht1 d)" and t: "ht_table (ht0 d) \<noteq> None" "ht_table (ht1 d) \<noteq> None"
      and ex: "ht_size_exp (ht0 d) \<noteq> ht_size_exp (ht1 d)"
      using ok True by (auto simp: dict_ok_def rehash_ok_def dictIsRehashing_def split: option.splits)
    have s: "ht_size_exp (ht0 d) \<le> int K" "ht_size_exp (ht1 d) \<le> int K" using sz by (simp_all add: scan_sized_def)
    have e: "0 \<le> ht_size_exp (ht0 d)" "0 \<le> ht_size_exp (ht1 d)" using h t ht_okE(1) by blast+
    have cmp: "DICTHT_SIZE (ht_size_exp (ht0 d)) > DICTHT_SIZE (ht_size_exp (ht1 d)) \<longleftrightarrow> ht_size_exp (ht1 d) < ht_size_exp (ht0 d)"
      using e by (auto simp: size_pow nat_less_eq_zless)
    show ?thesis
    proof (cases "ht_size_exp (ht1 d) < ht_size_exp (ht0 d)")
      case big: True
      have "set (dict_entries d) = set (ht_entries (ht1 d)) \<union> set (ht_entries (ht0 d))" by (auto simp: dict_entries_def)
      then show ?thesis
        using scan_two_tables [OF h(2,1) t(2,1) s(2,1) sz(2) big, of d v] ne True cmp big by (auto simp: dictScan_def)
    next
      case False
      then have less: "ht_size_exp (ht0 d) < ht_size_exp (ht1 d)" using ex by simp
      have "set (dict_entries d) = set (ht_entries (ht0 d)) \<union> set (ht_entries (ht1 d))" by (auto simp: dict_entries_def)
      then show ?thesis
        using scan_two_tables [OF h t s sz(2) less, of d v] ne True cmp False by (auto simp: dictScan_def)
    qed
  qed
qed

section \<open>A whole scan\<close>

text \<open>
  A client calls \<open>dictScan\<close> with cursor 0 and then with the cursor returned, until it is 0 again. The
  dictionaries are those that the successive calls find: between two calls it may have been
  changed, grown, shrunk or rehashed in any way.
\<close>

fun scan_run :: "('k, 'v) dict list \<Rightarrow> u64 \<Rightarrow> (('k \<times> 'v) list \<times> u64) option" where
  "scan_run [] v = Some ([], v)"
| "scan_run (d # ds) v = do {
     (es, v) \<leftarrow> dictScan d v;
     if v = 0 then Some (es, 0)
     else do {
       (es', v) \<leftarrow> scan_run ds v;
       Some (es @ es', v) } }"

lemma scan_run_total:
  assumes "\<forall>d \<in> set ds. dict_ok hash d \<and> scan_sized K d" "K < 64"
  shows "\<exists>es v'. scan_run ds v = Some (es, v') \<and> set es \<subseteq> (\<Union>d \<in> set ds. set (dict_entries d)) \<and>
    (v' = 0 \<or> scan_order v div 2 ^ (64 - K) + length ds \<le> scan_order v' div 2 ^ (64 - K))"
  using assms(1)
proof (induction ds arbitrary: v)
  case (Cons d ds)
  then obtain es v' where s: "dictScan d v = Some (es, v')"
    "v' = 0 \<or> scan_order v div 2 ^ (64 - K) < scan_order v' div 2 ^ (64 - K)" "set es \<subseteq> set (dict_entries d)"
    using dictScan_covers [of hash d K v] assms(2) by (auto simp: scan_covers_def)
  obtain es' v'' where "scan_run ds v' = Some (es', v'')" "set es' \<subseteq> (\<Union>d \<in> set ds. set (dict_entries d))"
    "v'' = 0 \<or> scan_order v' div 2 ^ (64 - K) + length ds \<le> scan_order v'' div 2 ^ (64 - K)"
    using Cons.IH [of v'] Cons.prems by auto
  then show ?case using s by (cases "v' = 0") auto
qed simp

lemma scan_run_ends:
  assumes "\<forall>d \<in> set ds. dict_ok hash d \<and> scan_sized K d" "K < 64" "2 ^ K \<le> length ds"
  shows "\<exists>es. scan_run ds 0 = Some (es, 0)"
proof -
  obtain es v' where r: "scan_run ds 0 = Some (es, v')" "v' = 0 \<or> length ds \<le> scan_order v' div 2 ^ (64 - K)"
    using scan_run_total [OF assms(1,2), of 0] by auto
  have "(2 :: nat) ^ 64 = 2 ^ K * 2 ^ (64 - K)" using assms(2) by (simp flip: power_add)
  then have "scan_order v' div 2 ^ (64 - K) < 2 ^ K"
    using order_less [of v'] by (metis less_mult_imp_div_less)
  then show ?thesis using r assms(3) by auto
qed

lemma scan_run_covers:
  assumes "\<forall>d \<in> set ds. dict_ok hash d \<and> scan_sized K d \<and> key \<in> fst ` set (dict_entries d)" "K < 64"
    and h: "hash key < 2 ^ 64" and "scan_order v \<le> scan_order (of_nat (hash key))" and "scan_run ds v = Some (es, 0)" "ds \<noteq> []"
  shows "key \<in> fst ` set es"
  using assms(1,4,5,6)
proof (induction ds arbitrary: v es)
  case (Cons d ds)
  then have d: "dict_ok hash d" "scan_sized K d" "key \<in> fst ` set (dict_entries d)" by auto
  obtain b v' where s: "dictScan d v = Some (b, v')" "scan_covers K hash d v b v'"
    using dictScan_covers [OF d(1,2) assms(2)] by blast
  obtain x where x: "x \<in> set (dict_entries d)" "fst x = key" using d(3) by auto
  have seen: "key \<in> fst ` set b" if "v' = 0 \<or> scan_order (of_nat (hash key)) < scan_order v'"
    using s(2) x h Cons.prems(2) that unfolding scan_covers_def by (metis image_eqI)
  show ?case
  proof (cases "v' = 0 \<or> ds = []")
    case True
    then show ?thesis using s(1) seen Cons.prems(3) by (auto split: if_splits)
  next
    case False
    then obtain es' where r: "scan_run ds v' = Some (es', 0)" "es = b @ es'"
      using Cons.prems(3) s(1) by (auto split: Option.bind_splits)
    show ?thesis
    proof (cases "scan_order (of_nat (hash key)) < scan_order v'")
      case True
      then show ?thesis using seen by (simp add: r(2) image_Un)
    next
      case later: False
      then have "key \<in> fst ` set es'" using Cons.IH [OF _ _ r(1)] Cons.prems(1) False by simp
      then show ?thesis by (simp add: r(2) image_Un)
    qed
  qed
qed simp

text \<open>
  C2. A whole scan misses no key, however the table is resized in between. Let every call of
  \<open>dictScan\<close> find a well-formed dictionary with tables of at most \<open>2 ^ K\<close> buckets that has the key,
  whatever was inserted, deleted, expanded, shrunk or rehashed since the call before. Then every
  call returns, only entries of those dictionaries are emitted, a scan that ended with cursor 0
  has emitted the key, and \<open>2 ^ K\<close> calls are enough for the cursor to be 0.
\<close>

theorem dictScan_complete:
  assumes "\<forall>d \<in> set ds. dict_ok hash d \<and> scan_sized K d \<and> key \<in> fst ` set (dict_entries d)" "K < 64"
    and "hash key < 2 ^ 64" and "ds \<noteq> []"
  shows "\<exists>es v'. scan_run ds 0 = Some (es, v') \<and> set es \<subseteq> (\<Union>d \<in> set ds. set (dict_entries d)) \<and>
    (v' = 0 \<longrightarrow> key \<in> fst ` set es) \<and> (2 ^ K \<le> length ds \<longrightarrow> v' = 0)"
proof -
  have ok: "\<forall>d \<in> set ds. dict_ok hash d \<and> scan_sized K d" using assms(1) by blast
  obtain es v' where r: "scan_run ds 0 = Some (es, v')" "set es \<subseteq> (\<Union>d \<in> set ds. set (dict_entries d))" using scan_run_total [OF ok assms(2)] by blast
  have "v' = 0 \<Longrightarrow> key \<in> fst ` set es"
    using scan_run_covers [OF assms(1-3), of 0 es] r assms(4) by simp
  moreover have "2 ^ K \<le> length ds \<Longrightarrow> v' = 0" using scan_run_ends [OF ok assms(2)] r by auto
  ultimately show ?thesis using r by blast
qed

text \<open>Key 5 in a table of two buckets, and then in a table of one bucket that is rehashed to two.\<close>

definition scan_example :: "(nat, nat) dict list" where
  "scan_example =
     [\<lparr>ht0 = \<lparr>ht_table = Some [[], [(5, 50)]], ht_used = 1, ht_size_exp = 1\<rparr>, ht1 = dictReset,
       rehashidx = - 1, pauserehash = 0\<rparr>,
      \<lparr>ht0 = \<lparr>ht_table = Some [[(5, 50)]], ht_used = 1, ht_size_exp = 0\<rparr>,
       ht1 = \<lparr>ht_table = Some [[], []], ht_used = 0, ht_size_exp = 1\<rparr>, rehashidx = 0, pauserehash = 0\<rparr>]"

lemma scan_example_ok:
  "\<forall>d \<in> set scan_example. dict_ok (\<lambda>k. k) d \<and> scan_sized 1 d \<and> 5 \<in> fst ` set (dict_entries d)"
  by (simp add: scan_example_def dict_ok_def ht_ok_def rehash_ok_def scan_sized_def dict_entries_def
      ht_entries_def dictReset_def All_less_Suc2)

theorem dictScan_complete_witness:
  "\<exists>es. scan_run scan_example 0 = Some (es, 0) \<and> 5 \<in> fst ` set es"
proof -
  have "scan_example \<noteq> []" "2 ^ 1 \<le> length scan_example" by (simp_all add: scan_example_def)
  then show ?thesis using dictScan_complete [OF scan_example_ok] by fastforce
qed

end
