(* ===== verification/Siphash.thy ===== *)
theory Siphash
  imports Redis_Prelude
begin

unbundle bit_operations_syntax

text \<open>
  The keyed hash of siphash.c (SipHash-1-2) and its case-insensitive variant, on the
  little-endian branch of the conditional compilation (the macro UNALIGNED_LE_CPU).  The input and
  the key are byte blocks; a read outside of a block is None.
\<close>

section \<open>Macros and helpers\<close>

definition siptlw :: "int \<Rightarrow> int" where
  "siptlw c = (if c \<ge> 65 \<and> c \<le> 90 then c + (97 - 65) else c)"

definition ROTL :: "u64 \<Rightarrow> nat \<Rightarrow> u64" where
  "ROTL x b = push_bit b x OR drop_bit (64 - b) x"

definition U8TO64_LE :: "bytes \<Rightarrow> nat \<Rightarrow> u64 option" where
  "U8TO64_LE p i = do { xs \<leftarrow> mem_read p i 8; Some (of_nat (le_nat xs)) }"

definition tlw64 :: "bytes \<Rightarrow> nat \<Rightarrow> u64 option" where
  "tlw64 p i = do { c \<leftarrow> rd p i; Some (of_int (siptlw (uint c))) }"

definition U8TO64_LE_NOCASE :: "bytes \<Rightarrow> nat \<Rightarrow> u64 option" where
  "U8TO64_LE_NOCASE p i = do {
     b0 \<leftarrow> tlw64 p i;
     b1 \<leftarrow> tlw64 p (i + 1);
     b2 \<leftarrow> tlw64 p (i + 2);
     b3 \<leftarrow> tlw64 p (i + 3);
     b4 \<leftarrow> tlw64 p (i + 4);
     b5 \<leftarrow> tlw64 p (i + 5);
     b6 \<leftarrow> tlw64 p (i + 6);
     b7 \<leftarrow> tlw64 p (i + 7);
     Some (b0 OR push_bit 8 b1 OR push_bit 16 b2 OR push_bit 24 b3 OR
           push_bit 32 b4 OR push_bit 40 b5 OR push_bit 48 b6 OR push_bit 56 b7) }"

record sipstate =
  v0 :: u64
  v1 :: u64
  v2 :: u64
  v3 :: u64

definition SIPROUND :: "sipstate \<Rightarrow> sipstate" where
  "SIPROUND s =
     (let s = s\<lparr>v0 := v0 s + v1 s\<rparr>;
          s = s\<lparr>v1 := ROTL (v1 s) 13\<rparr>;
          s = s\<lparr>v1 := v1 s XOR v0 s\<rparr>;
          s = s\<lparr>v0 := ROTL (v0 s) 32\<rparr>;
          s = s\<lparr>v2 := v2 s + v3 s\<rparr>;
          s = s\<lparr>v3 := ROTL (v3 s) 16\<rparr>;
          s = s\<lparr>v3 := v3 s XOR v2 s\<rparr>;
          s = s\<lparr>v0 := v0 s + v3 s\<rparr>;
          s = s\<lparr>v3 := ROTL (v3 s) 21\<rparr>;
          s = s\<lparr>v3 := v3 s XOR v0 s\<rparr>;
          s = s\<lparr>v2 := v2 s + v1 s\<rparr>;
          s = s\<lparr>v1 := ROTL (v1 s) 17\<rparr>;
          s = s\<lparr>v1 := v1 s XOR v2 s\<rparr>;
          s = s\<lparr>v2 := ROTL (v2 s) 32\<rparr>
      in s)"

section \<open>The two hash functions\<close>

text \<open>
  The phases the two functions share: the keyed start, the loop over the words (the number of
  iterations left is (end - in) / 8), the switch with its fall-through from case n + 1 to case n,
  and the end.  The load macro and the byte conversion are arguments.
\<close>

definition sip_init :: "u64 \<Rightarrow> u64 \<Rightarrow> sipstate" where
  "sip_init k0 k1 =
     \<lparr>v0 = 0x736f6d6570736575 XOR k0, v1 = 0x646f72616e646f6d XOR k1,
      v2 = 0x6c7967656e657261 XOR k0, v3 = 0x7465646279746573 XOR k1\<rparr>"

fun sip_words :: "(bytes \<Rightarrow> nat \<Rightarrow> u64 option) \<Rightarrow> bytes \<Rightarrow> nat \<Rightarrow> nat \<Rightarrow> sipstate \<Rightarrow> sipstate option" where
  "sip_words load p i 0 s = Some s"
| "sip_words load p i (Suc n) s = do {
     m \<leftarrow> load p i;
     s \<leftarrow> Some (SIPROUND (s\<lparr>v3 := v3 s XOR m\<rparr>));
     sip_words load p (i + 8) n (s\<lparr>v0 := v0 s XOR m\<rparr>) }"

fun sip_tail :: "(bytes \<Rightarrow> nat \<Rightarrow> u64 option) \<Rightarrow> bytes \<Rightarrow> nat \<Rightarrow> nat \<Rightarrow> u64 \<Rightarrow> u64 option" where
  "sip_tail byte p i 0 b = Some b"
| "sip_tail byte p i (Suc n) b = do {
     c \<leftarrow> byte p (i + n);
     sip_tail byte p i n (b OR push_bit (8 * n) c) }"

definition sip_final :: "sipstate \<Rightarrow> u64 \<Rightarrow> u64" where
  "sip_final s b =
     (let s = SIPROUND (s\<lparr>v3 := v3 s XOR b\<rparr>);
          s = s\<lparr>v0 := v0 s XOR b, v2 := v2 s XOR 0xff\<rparr>;
          s = SIPROUND (SIPROUND s)
      in v0 s XOR v1 s XOR v2 s XOR v3 s)"

definition byte64 :: "bytes \<Rightarrow> nat \<Rightarrow> u64 option" where
  "byte64 p i = do { c \<leftarrow> rd p i; Some (ucast c) }"

definition siphash :: "bytes \<Rightarrow> nat \<Rightarrow> bytes \<Rightarrow> u64 option" where
  "siphash p inlen k = do {
     k0 \<leftarrow> U8TO64_LE k 0;
     k1 \<leftarrow> U8TO64_LE k 8;
     s \<leftarrow> sip_words U8TO64_LE p 0 ((inlen - inlen mod 8) div 8) (sip_init k0 k1);
     b \<leftarrow> sip_tail byte64 p (inlen - inlen mod 8) (inlen mod 8) (push_bit 56 (of_nat inlen));
     Some (sip_final s b) }"

definition siphash_nocase :: "bytes \<Rightarrow> nat \<Rightarrow> bytes \<Rightarrow> u64 option" where
  "siphash_nocase p inlen k = do {
     k0 \<leftarrow> U8TO64_LE k 0;
     k1 \<leftarrow> U8TO64_LE k 8;
     s \<leftarrow> sip_words U8TO64_LE_NOCASE p 0 ((inlen - inlen mod 8) div 8) (sip_init k0 k1);
     b \<leftarrow> sip_tail tlw64 p (inlen - inlen mod 8) (inlen mod 8) (push_bit 56 (of_nat inlen));
     Some (sip_final s b) }"

section \<open>Loads\<close>

text \<open>Lower case by the alphabet, independent of the arithmetic of the code.\<close>

definition letters :: "(u8 \<times> u8) list" where
  "letters = zip (map of_char ''ABCDEFGHIJKLMNOPQRSTUVWXYZ'') (map of_char ''abcdefghijklmnopqrstuvwxyz'')"

definition lower :: "u8 \<Rightarrow> u8" where
  "lower c = (case map_of letters c of Some d \<Rightarrow> d | None \<Rightarrow> c)"

lemma lower_all: "list_all (\<lambda>i. lower (of_nat i) = of_int (siptlw (int i))) [0..<256]"
  by code_simp

lemma lower_siptlw: "lower c = of_int (siptlw (uint c))"
proof -
  have "unat c \<in> set [0..<256]" using unsigned_less [of c] by simp
  from lower_all [unfolded list_all_iff, rule_format, OF this] show ?thesis by simp
qed

lemma uint_lower: "uint (lower c) = siptlw (uint c)"
proof -
  have "0 \<le> siptlw (uint c) \<and> siptlw (uint c) < 256"
    using uint_lt2p [of c] by (auto simp: siptlw_def)
  then show ?thesis by (simp add: lower_siptlw uint_word_of_int take_bit_eq_mod)
qed

lemma tlw64_lower: "tlw64 p i = byte64 (map lower p) i"
proof -
  have "(of_int (siptlw (uint c)) :: u64) = ucast (lower c)" for c
    by (metis uint_lower ucast_eq)
  then show ?thesis by (simp add: tlw64_def byte64_def rd_def)
qed

lemma word_le_nat_Cons:
  "(of_nat (le_nat (b # bs)) :: u64) = ucast b OR push_bit 8 (of_nat (le_nat bs))"
proof -
  have sum: "(of_nat (le_nat (b # bs)) :: u64) = ucast b + push_bit 8 (of_nat (le_nat bs))"
    by (simp add: push_bit_eq_mult)
  have "(ucast b :: u64) AND push_bit 8 (of_nat (le_nat bs)) = 0"
    by (rule bit_word_eqI) (auto simp: bit_simps dest: bit_imp_le_length)
  then show ?thesis unfolding sum by (rule disjunctive_add_eq_or)
qed

lemma mem_read_8:
  assumes "i + 8 \<le> length p"
  shows "mem_read p i 8 = Some [p ! i, p ! (i + 1), p ! (i + 2), p ! (i + 3),
           p ! (i + 4), p ! (i + 5), p ! (i + 6), p ! (i + 7)]"
proof -
  have "take 8 (drop i p) = map (\<lambda>j. p ! (i + j)) [0..<8]"
    using assms by (intro nth_equalityI) auto
  moreover have "[0..<8] = [0, 1, 2, 3, 4, 5, 6, 7::nat]" by (simp add: upt_rec)
  ultimately show ?thesis using assms by (simp add: mem_read_def)
qed

lemma load_nocase:
  assumes "i + 8 \<le> length p"
  shows "U8TO64_LE_NOCASE p i = U8TO64_LE (map lower p) i"
proof -
  have "i + 8 \<le> length (map lower p)" using assms by simp
  then show ?thesis using assms unfolding U8TO64_LE_NOCASE_def U8TO64_LE_def tlw64_lower
    by (simp add: mem_read_8 byte64_def rd_def word_le_nat_Cons push_bit_or push_bit_push_bit or.assoc del: le_nat.simps(2))
qed

lemma load_ok: "i + 8 \<le> length p \<Longrightarrow> \<exists>w. U8TO64_LE p i = Some w"
  by (simp add: U8TO64_LE_def mem_read_def)

section \<open>The phases\<close>

lemma sip_words_nocase:
  "i + 8 * n \<le> length p \<Longrightarrow>
   sip_words U8TO64_LE_NOCASE p i n s = sip_words U8TO64_LE (map lower p) i n s"
  by (induction n arbitrary: i s) (auto simp: load_nocase bind_eq_Some_conv split: Option.bind_splits)

lemma sip_words_ok: "i + 8 * n \<le> length p \<Longrightarrow> \<exists>s'. sip_words U8TO64_LE p i n s = Some s'"
proof (induction n arbitrary: i s)
  case (Suc n)
  then obtain w where "U8TO64_LE p i = Some w" using load_ok [of i p] by auto
  with Suc.IH [of "i + 8"] Suc.prems show ?case by simp
qed simp

lemma sip_tail_nocase: "sip_tail tlw64 p i n b = sip_tail byte64 (map lower p) i n b"
  by (induction n arbitrary: b) (simp_all add: tlw64_lower)

lemma sip_tail_ok: "i + n \<le> length p \<Longrightarrow> \<exists>b'. sip_tail byte64 p i n b = Some b'"
  by (induction n arbitrary: b) (simp_all add: byte64_def rd_def)

lemma words_len: "8 * ((n - n mod 8) div 8) = n - n mod (8::nat)"
  by (simp add: minus_mod_eq_mult_div)

lemma words_bound: "n \<le> l \<Longrightarrow> 0 + 8 * ((n - n mod 8) div 8) \<le> (l::nat)"
  unfolding words_len by simp

lemma siphash_total:
  assumes "inlen \<le> length p" "16 \<le> length k"
  shows "\<exists>h. siphash p inlen k = Some h"
proof -
  obtain k0 k1 where k: "U8TO64_LE k 0 = Some k0" "U8TO64_LE k 8 = Some k1"
    using load_ok [of 0 k] load_ok [of 8 k] assms(2) by auto
  obtain s where "sip_words U8TO64_LE p 0 ((inlen - inlen mod 8) div 8) (sip_init k0 k1) = Some s"
    using sip_words_ok [OF words_bound [OF assms(1)]] by blast
  moreover have "inlen - inlen mod 8 + inlen mod 8 \<le> length p" using assms(1) by simp
  then obtain b where "sip_tail byte64 p (inlen - inlen mod 8) (inlen mod 8) (push_bit 56 (of_nat inlen)) = Some b"
    using sip_tail_ok by blast
  ultimately show ?thesis by (simp add: siphash_def k)
qed

text \<open>
  C16. The case-insensitive hash of any input is the plain hash of the input in lower case, although
  it loads words byte by byte where the plain one loads them whole; both return for every input
  length and read nothing beyond the input and the 16 bytes of the key. Lower case replaces each
  of the letters A to Z by its counterpart in a to z and no other byte. So keys that differ in
  case only have the same hash.
\<close>
theorem siphash_nocase_lower:
  assumes "inlen \<le> length p" "16 \<le> length k"
  shows "siphash_nocase p inlen k = siphash (map lower p) inlen k
       \<and> (\<exists>h. siphash p inlen k = Some h) \<and> (\<exists>h. siphash_nocase p inlen k = Some h)
       \<and> (\<forall>q. map lower q = map lower p \<longrightarrow> siphash_nocase q inlen k = siphash_nocase p inlen k)"
proof -
  have eq: "siphash_nocase q inlen k = siphash (map lower q) inlen k" if "inlen \<le> length q" for q
    unfolding siphash_nocase_def siphash_def sip_tail_nocase sip_words_nocase [OF words_bound [OF that]] ..
  have "siphash_nocase q inlen k = siphash_nocase p inlen k" if "map lower q = map lower p" for q
    using that assms(1) eq [of p] eq [of q] map_eq_imp_length_eq [OF that] by simp
  then show ?thesis
    using assms eq [of p] siphash_total [of inlen p k] siphash_total [of inlen "map lower p" k] by simp
qed

theorem siphash_nocase_lower_witness:
  "siphash_nocase (map of_char ''REDIS-Key'') 9 (replicate 16 7) = siphash (map of_char ''redis-key'') 9 (replicate 16 7)"
proof -
  have "map lower (map of_char ''REDIS-Key'') = (map of_char ''redis-key'' :: bytes)" by code_simp
  then show ?thesis
    using siphash_nocase_lower [of 9 "map of_char ''REDIS-Key''" "replicate 16 7"] by simp
qed

end
