(* ===== verification/Adlist.thy ===== *)
theory Adlist
  imports Redis_Prelude
begin

text \<open>
  The generic doubly linked lists of \<open>adlist.c\<close>, on an explicit heap of nodes. A pointer is an
  optional address, \<open>None\<close> being NULL; a result \<open>None\<close> of the outermost option type is an
  access through NULL or to memory that is not allocated. List headers and iterators are passed by
  value, and their allocation is not modelled. The allocator is a function of the memory that returns the address and the uninitialised
  contents of a new node, or NULL. The callback that frees a value acts on memory outside of
  the list: the model records the values it is called with.
\<close>

section \<open>Nodes, lists and iterators\<close>

type_synonym addr = nat

record 'v listNode =
  node_prev :: "addr option"
  node_next :: "addr option"
  node_value :: 'v

record 'v memory =
  heap :: "addr \<rightharpoonup> 'v listNode"
  freed :: "'v list"

type_synonym 'v allocator = "'v memory \<Rightarrow> (addr \<times> 'v listNode) option"

record 'v adlist =
  l_head :: "addr option"
  l_tail :: "addr option"
  l_dup :: "('v \<Rightarrow> 'v option) option"
  l_free :: bool
  l_match :: "('v \<Rightarrow> 'v \<Rightarrow> bool) option"
  l_len :: nat

datatype direction = AL_START_HEAD | AL_START_TAIL

record listIter =
  it_next :: "addr option"
  it_direction :: direction

definition node_at :: "'v memory \<Rightarrow> addr option \<Rightarrow> 'v listNode option" where
  "node_at m p = do { a \<leftarrow> p; heap m a }"

definition set_prev :: "'v memory \<Rightarrow> addr option \<Rightarrow> addr option \<Rightarrow> 'v memory option" where
  "set_prev m p q = do { a \<leftarrow> p; n \<leftarrow> heap m a; Some (m\<lparr>heap := (heap m)(a \<mapsto> n\<lparr>node_prev := q\<rparr>)\<rparr>) }"

definition set_next :: "'v memory \<Rightarrow> addr option \<Rightarrow> addr option \<Rightarrow> 'v memory option" where
  "set_next m p q = do { a \<leftarrow> p; n \<leftarrow> heap m a; Some (m\<lparr>heap := (heap m)(a \<mapsto> n\<lparr>node_next := q\<rparr>)\<rparr>) }"

definition zfree :: "'v memory \<Rightarrow> addr option \<Rightarrow> 'v memory" where
  "zfree m p = (case p of None \<Rightarrow> m | Some a \<Rightarrow> m\<lparr>heap := (heap m)(a := None)\<rparr>)"

definition call_free :: "'v adlist \<Rightarrow> 'v \<Rightarrow> 'v memory \<Rightarrow> 'v memory" where
  "call_free l v m = (if l_free l then m\<lparr>freed := freed m @ [v]\<rparr> else m)"

section \<open>Operations\<close>

definition listCreate :: "'v adlist" where
  "listCreate = \<lparr>l_head = None, l_tail = None, l_dup = None, l_free = False, l_match = None, l_len = 0\<rparr>"

fun listEmpty_loop :: "'v adlist \<Rightarrow> nat \<Rightarrow> addr option \<Rightarrow> 'v memory \<Rightarrow> 'v memory option" where
  "listEmpty_loop l 0 current m = Some m"
| "listEmpty_loop l (Suc len) current m = do {
     n \<leftarrow> node_at m current;
     let m = call_free l (node_value n) m;
     listEmpty_loop l len (node_next n) (zfree m current) }"

definition listEmpty :: "'v memory \<Rightarrow> 'v adlist \<Rightarrow> ('v memory \<times> 'v adlist) option" where
  "listEmpty m l = do {
     m \<leftarrow> listEmpty_loop l (l_len l) (l_head l) m;
     Some (m, l\<lparr>l_head := None, l_tail := None, l_len := 0\<rparr>) }"

definition listRelease :: "'v memory \<Rightarrow> 'v adlist \<Rightarrow> 'v memory option" where
  "listRelease m l = do { (m, l) \<leftarrow> listEmpty m l; Some m }"

definition listLinkNodeHead :: "'v memory \<Rightarrow> 'v adlist \<Rightarrow> addr \<Rightarrow> ('v memory \<times> 'v adlist) option" where
  "listLinkNodeHead m l node = do {
     (m, l) \<leftarrow>
       (if l_len l = 0 then do {
          let l = l\<lparr>l_head := Some node, l_tail := Some node\<rparr>;
          m \<leftarrow> set_next m (Some node) None;
          m \<leftarrow> set_prev m (Some node) None;
          Some (m, l) }
        else do {
          m \<leftarrow> set_prev m (Some node) None;
          m \<leftarrow> set_next m (Some node) (l_head l);
          m \<leftarrow> set_prev m (l_head l) (Some node);
          Some (m, l\<lparr>l_head := Some node\<rparr>) });
     Some (m, l\<lparr>l_len := wadd 64 (l_len l) 1\<rparr>) }"

definition listLinkNodeTail :: "'v memory \<Rightarrow> 'v adlist \<Rightarrow> addr \<Rightarrow> ('v memory \<times> 'v adlist) option" where
  "listLinkNodeTail m l node = do {
     (m, l) \<leftarrow>
       (if l_len l = 0 then do {
          let l = l\<lparr>l_head := Some node, l_tail := Some node\<rparr>;
          m \<leftarrow> set_next m (Some node) None;
          m \<leftarrow> set_prev m (Some node) None;
          Some (m, l) }
        else do {
          m \<leftarrow> set_prev m (Some node) (l_tail l);
          m \<leftarrow> set_next m (Some node) None;
          m \<leftarrow> set_next m (l_tail l) (Some node);
          Some (m, l\<lparr>l_tail := Some node\<rparr>) });
     Some (m, l\<lparr>l_len := wadd 64 (l_len l) 1\<rparr>) }"

text \<open>The operations that allocate return NULL, an inner \<open>None\<close>, when the allocation fails.\<close>

definition new_node :: "'v memory \<Rightarrow> addr \<Rightarrow> 'v listNode \<Rightarrow> 'v \<Rightarrow> 'v memory" where
  "new_node m a z v = m\<lparr>heap := (heap m)(a \<mapsto> z\<lparr>node_value := v\<rparr>)\<rparr>"

definition listAddNodeHead :: "'v allocator \<Rightarrow> 'v memory \<Rightarrow> 'v adlist \<Rightarrow> 'v \<Rightarrow> ('v memory \<times> 'v adlist) option option" where
  "listAddNodeHead zmalloc m l v =
     (case zmalloc m of
        None \<Rightarrow> Some None
      | Some (a, z) \<Rightarrow> map_option Some (listLinkNodeHead (new_node m a z v) l a))"

definition listAddNodeTail :: "'v allocator \<Rightarrow> 'v memory \<Rightarrow> 'v adlist \<Rightarrow> 'v \<Rightarrow> ('v memory \<times> 'v adlist) option option" where
  "listAddNodeTail zmalloc m l v =
     (case zmalloc m of
        None \<Rightarrow> Some None
      | Some (a, z) \<Rightarrow> map_option Some (listLinkNodeTail (new_node m a z v) l a))"

definition listInsertNode ::
  "'v allocator \<Rightarrow> 'v memory \<Rightarrow> 'v adlist \<Rightarrow> addr \<Rightarrow> 'v \<Rightarrow> bool \<Rightarrow> ('v memory \<times> 'v adlist) option option" where
  "listInsertNode zmalloc m l old_node v after =
     (case zmalloc m of
        None \<Rightarrow> Some None
      | Some (a, z) \<Rightarrow> do {
          let m = new_node m a z v;
          (m, l) \<leftarrow>
            (if after then do {
               m \<leftarrow> set_prev m (Some a) (Some old_node);
               old \<leftarrow> node_at m (Some old_node);
               m \<leftarrow> set_next m (Some a) (node_next old);
               Some (m, if l_tail l = Some old_node then l\<lparr>l_tail := Some a\<rparr> else l) }
             else do {
               m \<leftarrow> set_next m (Some a) (Some old_node);
               old \<leftarrow> node_at m (Some old_node);
               m \<leftarrow> set_prev m (Some a) (node_prev old);
               Some (m, if l_head l = Some old_node then l\<lparr>l_head := Some a\<rparr> else l) });
          n \<leftarrow> node_at m (Some a);
          m \<leftarrow> (if node_prev n \<noteq> None then set_next m (node_prev n) (Some a) else Some m);
          n \<leftarrow> node_at m (Some a);
          m \<leftarrow> (if node_next n \<noteq> None then set_prev m (node_next n) (Some a) else Some m);
          Some (Some (m, l\<lparr>l_len := wadd 64 (l_len l) 1\<rparr>)) })"

definition listUnlinkNode :: "'v memory \<Rightarrow> 'v adlist \<Rightarrow> addr \<Rightarrow> ('v memory \<times> 'v adlist) option" where
  "listUnlinkNode m l node = do {
     n \<leftarrow> node_at m (Some node);
     (m, l) \<leftarrow>
       (if node_prev n \<noteq> None then do { m \<leftarrow> set_next m (node_prev n) (node_next n); Some (m, l) }
        else Some (m, l\<lparr>l_head := node_next n\<rparr>));
     n \<leftarrow> node_at m (Some node);
     (m, l) \<leftarrow>
       (if node_next n \<noteq> None then do { m \<leftarrow> set_prev m (node_next n) (node_prev n); Some (m, l) }
        else Some (m, l\<lparr>l_tail := node_prev n\<rparr>));
     m \<leftarrow> set_next m (Some node) None;
     m \<leftarrow> set_prev m (Some node) None;
     Some (m, l\<lparr>l_len := wsub 64 (l_len l) 1\<rparr>) }"

definition listDelNode :: "'v memory \<Rightarrow> 'v adlist \<Rightarrow> addr \<Rightarrow> ('v memory \<times> 'v adlist) option" where
  "listDelNode m l node = do {
     (m, l) \<leftarrow> listUnlinkNode m l node;
     n \<leftarrow> node_at m (Some node);
     Some (zfree (call_free l (node_value n) m) (Some node), l) }"

definition listGetIterator :: "'v adlist \<Rightarrow> direction \<Rightarrow> listIter" where
  "listGetIterator l d =
     (if d = AL_START_HEAD then \<lparr>it_next = l_head l, it_direction = d\<rparr>
      else \<lparr>it_next = l_tail l, it_direction = d\<rparr>)"

definition listRewind :: "'v adlist \<Rightarrow> listIter" where
  "listRewind l = \<lparr>it_next = l_head l, it_direction = AL_START_HEAD\<rparr>"

definition listRewindTail :: "'v adlist \<Rightarrow> listIter" where
  "listRewindTail l = \<lparr>it_next = l_tail l, it_direction = AL_START_TAIL\<rparr>"

definition listNext :: "'v memory \<Rightarrow> listIter \<Rightarrow> (addr option \<times> listIter) option" where
  "listNext m it =
     (let current = it_next it
      in case current of
           None \<Rightarrow> Some (None, it)
         | Some a \<Rightarrow> do {
             n \<leftarrow> node_at m (Some a);
             Some (current,
               it\<lparr>it_next := (if it_direction it = AL_START_HEAD then node_next n else node_prev n)\<rparr>) })"

partial_function (option) listDup_loop ::
  "'v allocator \<Rightarrow> listIter \<Rightarrow> 'v memory \<Rightarrow> 'v adlist \<Rightarrow> ('v memory \<times> 'v adlist option) option" where
  "listDup_loop zmalloc it m copy = do {
     (node, it) \<leftarrow> listNext m it;
     case node of
       None \<Rightarrow> Some (m, Some copy)
     | Some a \<Rightarrow> do {
         n \<leftarrow> node_at m (Some a);
         case (case l_dup copy of None \<Rightarrow> Some (node_value n) | Some f \<Rightarrow> f (node_value n)) of
           None \<Rightarrow> do { m \<leftarrow> listRelease m copy; Some (m, None) }
         | Some v \<Rightarrow> do {
             r \<leftarrow> listAddNodeTail zmalloc m copy v;
             case r of
               None \<Rightarrow> do { m \<leftarrow> listRelease (call_free copy v m) copy; Some (m, None) }
             | Some (m, copy) \<Rightarrow> listDup_loop zmalloc it m copy } } }"

definition listDup :: "'v allocator \<Rightarrow> 'v memory \<Rightarrow> 'v adlist \<Rightarrow> ('v memory \<times> 'v adlist option) option" where
  "listDup zmalloc m orig =
     listDup_loop zmalloc (listRewind orig) m
       (listCreate\<lparr>l_dup := l_dup orig, l_free := l_free orig, l_match := l_match orig\<rparr>)"

partial_function (option) listSearchKey_loop ::
  "'v memory \<Rightarrow> ('v \<Rightarrow> 'v \<Rightarrow> bool) option \<Rightarrow> 'v \<Rightarrow> listIter \<Rightarrow> addr option option" where
  "listSearchKey_loop m mat key it = do {
     (node, it) \<leftarrow> listNext m it;
     case node of
       None \<Rightarrow> Some None
     | Some a \<Rightarrow> do {
         n \<leftarrow> node_at m (Some a);
         if (case mat of Some f \<Rightarrow> f (node_value n) key | None \<Rightarrow> key = node_value n)
         then Some (Some a)
         else listSearchKey_loop m mat key it } }"

definition listSearchKey :: "'v memory \<Rightarrow> 'v adlist \<Rightarrow> 'v \<Rightarrow> addr option option" where
  "listSearchKey m l key = listSearchKey_loop m (l_match l) key (listRewind l)"

fun walk :: "('v listNode \<Rightarrow> addr option) \<Rightarrow> 'v memory \<Rightarrow> nat \<Rightarrow> addr option \<Rightarrow> addr option option" where
  "walk field m 0 n = Some n"
| "walk field m (Suc index) n =
     (if n = None then Some n else do { x \<leftarrow> node_at m n; walk field m index (field x) })"

text \<open>The index is a \<open>long\<close> of the code other than its minimum, whose negation overflows.\<close>

definition listIndex :: "'v memory \<Rightarrow> 'v adlist \<Rightarrow> int \<Rightarrow> addr option option" where
  "listIndex m l index =
     (if index < 0 then walk node_prev m (nat (- index - 1)) (l_tail l)
      else walk node_next m (nat index) (l_head l))"

definition listRotateTailToHead :: "'v memory \<Rightarrow> 'v adlist \<Rightarrow> ('v memory \<times> 'v adlist) option" where
  "listRotateTailToHead m l =
     (if l_len l \<le> 1 then Some (m, l)
      else do {
        let tl = l_tail l;
        n \<leftarrow> node_at m tl;
        let l = l\<lparr>l_tail := node_prev n\<rparr>;
        m \<leftarrow> set_next m (l_tail l) None;
        m \<leftarrow> set_prev m (l_head l) tl;
        m \<leftarrow> set_prev m tl None;
        m \<leftarrow> set_next m tl (l_head l);
        Some (m, l\<lparr>l_head := tl\<rparr>) })"

definition listRotateHeadToTail :: "'v memory \<Rightarrow> 'v adlist \<Rightarrow> ('v memory \<times> 'v adlist) option" where
  "listRotateHeadToTail m l =
     (if l_len l \<le> 1 then Some (m, l)
      else do {
        let hd = l_head l;
        n \<leftarrow> node_at m hd;
        let l = l\<lparr>l_head := node_next n\<rparr>;
        m \<leftarrow> set_prev m (l_head l) None;
        m \<leftarrow> set_next m (l_tail l) hd;
        m \<leftarrow> set_next m hd None;
        m \<leftarrow> set_prev m hd (l_tail l);
        Some (m, l\<lparr>l_tail := hd\<rparr>) })"

definition listJoin :: "'v memory \<Rightarrow> 'v adlist \<Rightarrow> 'v adlist \<Rightarrow> ('v memory \<times> 'v adlist \<times> 'v adlist) option" where
  "listJoin m l other =
     (if l_len other = 0 then Some (m, l, other)
      else do {
        m \<leftarrow> set_prev m (l_head other) (l_tail l);
        (m, l) \<leftarrow>
          (if l_tail l \<noteq> None then do { m \<leftarrow> set_next m (l_tail l) (l_head other); Some (m, l) }
           else Some (m, l\<lparr>l_head := l_head other\<rparr>));
        Some (m, l\<lparr>l_tail := l_tail other, l_len := wadd 64 (l_len l) (l_len other)\<rparr>,
          other\<lparr>l_head := None, l_tail := None, l_len := 0\<rparr>) })"

definition listInitNode :: "'v memory \<Rightarrow> addr \<Rightarrow> 'v \<Rightarrow> 'v memory option" where
  "listInitNode m node v = do {
     n \<leftarrow> heap m node;
     Some (m\<lparr>heap := (heap m)(node \<mapsto> n\<lparr>node_prev := None, node_next := None, node_value := v\<rparr>)\<rparr>) }"

section \<open>The list that a memory holds\<close>

definition first_addr :: "(addr \<times> 'v) list \<Rightarrow> addr option \<Rightarrow> addr option" where
  "first_addr ps q = (case ps of [] \<Rightarrow> q | x # _ \<Rightarrow> Some (fst x))"

definition last_addr :: "addr option \<Rightarrow> (addr \<times> 'v) list \<Rightarrow> addr option" where
  "last_addr p ps = (if ps = [] then p else Some (fst (last ps)))"

lemma first_addr_simps [simp]:
  "first_addr [] q = q" "first_addr (x # ps) q = Some (fst x)"
  "first_addr (ps @ rs) q = first_addr ps (first_addr rs q)"
  by (simp_all add: first_addr_def split: list.split)

lemma last_addr_simps [simp]:
  "last_addr p [] = p" "last_addr p (ps @ [x]) = Some (fst x)"
  "last_addr p (x # ps) = last_addr (Some (fst x)) ps"
  "last_addr p (ps @ rs) = last_addr (last_addr p ps) rs"
  by (simp_all add: last_addr_def)

text \<open>The nodes \<open>ps\<close>, addresses with values, linked in both directions between \<open>p\<close> and \<open>q\<close>.\<close>

fun seg :: "(addr \<rightharpoonup> 'v listNode) \<Rightarrow> addr option \<Rightarrow> (addr \<times> 'v) list \<Rightarrow> addr option \<Rightarrow> bool" where
  "seg h p [] q \<longleftrightarrow> True"
| "seg h p ((a, v) # ps) q \<longleftrightarrow>
     h a = Some \<lparr>node_prev = p, node_next = first_addr ps q, node_value = v\<rparr> \<and> seg h (Some a) ps q"

lemma seg_append [simp]:
  "seg h p (ps @ rs) q \<longleftrightarrow> seg h p ps (first_addr rs q) \<and> seg h (last_addr p ps) rs q"
proof (induction ps arbitrary: p)
  case (Cons x ps)
  then show ?case by (cases x) (simp add: conj_assoc)
qed simp

lemma seg_frame [simp]: "a \<notin> fst ` set ps \<Longrightarrow> seg (h(a := n)) p ps q = seg h p ps q"
proof (induction ps arbitrary: p)
  case (Cons x ps)
  then show ?case by (cases x) simp
qed simp

lemma seg_alloc: "seg h p ps q \<Longrightarrow> a \<in> fst ` set ps \<Longrightarrow> \<exists>n. h a = Some n"
proof (induction ps arbitrary: p)
  case (Cons x ps)
  then show ?case by (cases x) auto
qed simp

definition holds :: "'v memory \<Rightarrow> 'v adlist \<Rightarrow> (addr \<times> 'v) list \<Rightarrow> bool" where
  "holds m l ps \<longleftrightarrow>
     seg (heap m) None ps None \<and> distinct (map fst ps) \<and>
     l_head l = first_addr ps None \<and> l_tail l = last_addr None ps \<and> l_len l = length ps \<and> finite (dom (heap m))"

lemma holds_create: "finite (dom (heap m)) \<Longrightarrow> holds m listCreate []"
  by (simp add: holds_def listCreate_def)

lemma holds_fresh: "holds m l ps \<Longrightarrow> heap m a = None \<Longrightarrow> a \<notin> fst ` set ps"
  using seg_alloc by (fastforce simp: holds_def)

lemmas node_defs = node_at_def set_prev_def set_next_def new_node_def

lemma link_head:
  assumes "holds m l ps" "heap m a = None" "length ps < 2 ^ 64 - 1"
  shows "\<exists>m' l'. listLinkNodeHead (new_node m a z v) l a = Some (m', l') \<and> holds m' l' ((a, v) # ps)"
proof -
  have w: "wadd 64 (length ps) 1 = Suc (length ps)" using assms(3) by simp
  show ?thesis
  proof (cases ps)
    case Nil
    then show ?thesis using assms(1) w by (simp add: listLinkNodeHead_def node_defs holds_def)
  next
    case (Cons x rs)
    obtain b u where x: "x = (b, u)" by fastforce
    have "a \<noteq> b" "a \<notin> fst ` set rs" "b \<notin> fst ` set rs"
      using holds_fresh [OF assms(1,2)] assms(1) by (auto simp: Cons x holds_def)
    then show ?thesis using assms(1) w by (simp add: listLinkNodeHead_def node_defs holds_def Cons x)
  qed
qed

lemma link_tail:
  assumes "holds m l ps" "heap m a = None" "length ps < 2 ^ 64 - 1"
  shows "\<exists>m' l'. listLinkNodeTail (new_node m a z v) l a = Some (m', l') \<and> holds m' l' (ps @ [(a, v)])
           \<and> (\<forall>x. x \<noteq> a \<and> x \<notin> fst ` set ps \<longrightarrow> heap m' x = heap m x)
           \<and> l_dup l' = l_dup l"
proof -
  have w: "wadd 64 (length ps) 1 = Suc (length ps)" using assms(3) by simp
  show ?thesis
  proof (cases ps rule: rev_cases)
    case Nil
    then show ?thesis using assms(1) w by (simp add: listLinkNodeTail_def node_defs holds_def)
  next
    case (snoc rs x)
    obtain b u where x: "x = (b, u)" by fastforce
    have "a \<noteq> b" "a \<notin> fst ` set rs" "b \<notin> fst ` set rs"
      using holds_fresh [OF assms(1,2)] assms(1) by (auto simp: snoc x holds_def)
    then show ?thesis using assms(1) w by (simp add: listLinkNodeTail_def node_defs holds_def snoc x)
  qed
qed

lemma insert_after:
  assumes "holds m l (xs @ (b, u) # ys)" "zmalloc m = Some (a, z)" "heap m a = None" "length (xs @ (b, u) # ys) < 2 ^ 64 - 1"
  shows "\<exists>m' l'. listInsertNode zmalloc m l b v True = Some (Some (m', l')) \<and> holds m' l' (xs @ (b, u) # (a, v) # ys)"
proof -
  have w: "wadd 64 (l_len l) 1 = Suc (length xs + Suc (length ys))"
    using assms(1,4) by (simp add: holds_def)
  have d: "a \<noteq> b" "a \<notin> fst ` set xs" "a \<notin> fst ` set ys" "b \<notin> fst ` set xs" "b \<notin> fst ` set ys"
    using holds_fresh [OF assms(1,3)] assms(1) by (auto simp: holds_def)
  show ?thesis
  proof (cases ys)
    case Nil
    then show ?thesis using assms(1,2) d w by (simp add: listInsertNode_def node_defs holds_def)
  next
    case (Cons y rs)
    obtain c t where y: "y = (c, t)" by fastforce
    have "c \<notin> fst ` set xs" "c \<notin> fst ` set rs" "last_addr (Some c) rs \<noteq> Some b"
      using assms(1) d(5) by (auto simp: holds_def Cons y last_addr_def split: if_splits)
    then show ?thesis using assms(1,2) d w by (simp add: listInsertNode_def node_defs holds_def Cons y)
  qed
qed

lemma insert_before:
  assumes "holds m l (xs @ (b, u) # ys)" "zmalloc m = Some (a, z)" "heap m a = None" "length (xs @ (b, u) # ys) < 2 ^ 64 - 1"
  shows "\<exists>m' l'. listInsertNode zmalloc m l b v False = Some (Some (m', l')) \<and> holds m' l' (xs @ (a, v) # (b, u) # ys)"
proof -
  have w: "wadd 64 (l_len l) 1 = Suc (length xs + Suc (length ys))"
    using assms(1,4) by (simp add: holds_def)
  have d: "a \<noteq> b" "a \<notin> fst ` set xs" "a \<notin> fst ` set ys" "b \<notin> fst ` set xs" "b \<notin> fst ` set ys"
    using holds_fresh [OF assms(1,3)] assms(1) by (auto simp: holds_def)
  show ?thesis
  proof (cases xs rule: rev_cases)
    case Nil
    then show ?thesis using assms(1,2) d w by (simp add: listInsertNode_def node_defs holds_def)
  next
    case (snoc rs y)
    obtain c t where y: "y = (c, t)" by fastforce
    have "c \<notin> fst ` set ys" "c \<notin> fst ` set rs" "first_addr rs (Some c) \<noteq> Some b"
      using assms(1) d(4) by (auto simp: holds_def snoc y first_addr_def split: list.splits)
    then show ?thesis using assms(1,2) d w by (simp add: listInsertNode_def node_defs holds_def snoc y)
  qed
qed

lemma delete_node:
  assumes "holds m l (xs @ (a, v) # ys)" "length (xs @ (a, v) # ys) < 2 ^ 64"
  shows "\<exists>m' l'. listDelNode m l a = Some (m', l') \<and> holds m' l' (xs @ ys)
           \<and> freed m' = freed m @ (if l_free l then [v] else [])"
proof -
  have w: "wsub 64 (l_len l) 1 = length xs + length ys"
    using assms by (simp add: holds_def)
  have d: "a \<notin> fst ` set xs" "a \<notin> fst ` set ys" using assms(1) by (auto simp: holds_def)
  note defs = listDelNode_def listUnlinkNode_def node_defs zfree_def call_free_def holds_def
  show ?thesis
  proof (cases xs rule: rev_cases)
    case Nil
    show ?thesis
    proof (cases ys)
      case Nil
      then show ?thesis using \<open>xs = []\<close> assms(1) d w by (simp add: defs)
    next
      case (Cons y rs)
      obtain c t where y: "y = (c, t)" by fastforce
      have "c \<notin> fst ` set rs" "c \<noteq> a" using assms(1) by (auto simp: holds_def Cons y)
      then show ?thesis using \<open>xs = []\<close> assms(1) d w by (simp add: defs Cons y)
    qed
  next
    case (snoc ws x)
    obtain b u where x: "x = (b, u)" by fastforce
    have b: "b \<notin> fst ` set ws" "b \<notin> fst ` set ys" "b \<noteq> a" using assms(1) by (auto simp: holds_def snoc x)
    show ?thesis
    proof (cases ys)
      case Nil
      then show ?thesis using snoc x assms(1) d w b by (simp add: defs)
    next
      case (Cons y rs)
      obtain c t where y: "y = (c, t)" by fastforce
      have "c \<notin> fst ` set rs" "c \<noteq> a" "c \<noteq> b" "c \<notin> fst ` set ws" using assms(1) by (auto simp: holds_def Cons y snoc x)
      then show ?thesis using snoc x assms(1) d w b by (simp add: defs Cons y)
    qed
  qed
qed

lemma walk_next:
  "seg (heap m) p ps None \<Longrightarrow>
   walk node_next m i (first_addr ps None) = Some (if i < length ps then Some (fst (ps ! i)) else None)"
proof (induction i arbitrary: p ps)
  case 0
  then show ?case by (cases ps) auto
next
  case (Suc i)
  then show ?case by (cases ps) (auto simp: node_at_def)
qed

lemma walk_prev:
  "seg (heap m) None ps q \<Longrightarrow>
   walk node_prev m i (last_addr None ps) = Some (if i < length ps then Some (fst (ps ! (length ps - 1 - i))) else None)"
proof (induction i arbitrary: q ps)
  case 0
  then show ?case by (cases ps rule: rev_cases) auto
next
  case (Suc i)
  show ?case
  proof (cases ps rule: rev_cases)
    case (snoc rs x)
    obtain a v where x: "x = (a, v)" by fastforce
    have "walk node_prev m i (last_addr None rs) = Some (if i < length rs then Some (fst (rs ! (length rs - 1 - i))) else None)"
      using Suc.prems by (intro Suc.IH [of _ "Some a"]) (simp add: snoc x)
    moreover have "i < length rs \<Longrightarrow> length rs - Suc i < length rs" by arith
    ultimately show ?thesis using Suc.prems by (simp add: snoc x node_at_def nth_append)
  qed simp
qed

text \<open>The position of an index: negative indexes count from the end.\<close>

definition position :: "'a list \<Rightarrow> int \<Rightarrow> nat option" where
  "position xs i =
     (if i < 0 then if nat (- i) \<le> length xs then Some (length xs - nat (- i)) else None
      else if nat i < length xs then Some (nat i) else None)"

lemma listIndex_exact:
  assumes "holds m l ps"
  shows "listIndex m l i = Some (map_option (\<lambda>k. fst (ps ! k)) (position ps i))"
proof -
  have "seg (heap m) None ps None" using assms by (simp add: holds_def)
  note w = walk_next [OF this] walk_prev [OF this]
  have e: "l_head l = first_addr ps None" "l_tail l = last_addr None ps" using assms by (simp_all add: holds_def)
  show ?thesis
  proof (cases "i < 0")
    case True
    then have "nat (- i) = Suc (nat (- i - 1))" by simp
    then show ?thesis using True by (simp add: listIndex_def position_def e w Suc_le_eq)
  next
    case False
    then show ?thesis by (simp add: listIndex_def position_def e w)
  qed
qed

lemma search_loop:
  "seg (heap m) p ps None \<Longrightarrow>
   listSearchKey_loop m mat key \<lparr>it_next = first_addr ps None, it_direction = AL_START_HEAD\<rparr> =
     Some (map_option fst (find (\<lambda>(a, v). case mat of Some f \<Rightarrow> f v key | None \<Rightarrow> key = v) ps))"
proof (induction ps arbitrary: p)
  case Nil
  show ?case by (subst listSearchKey_loop.simps) (simp add: listNext_def)
next
  case (Cons x ps)
  obtain a v where x: "x = (a, v)" by fastforce
  have "heap m a = Some \<lparr>node_prev = p, node_next = first_addr ps None, node_value = v\<rparr>" "seg (heap m) (Some a) ps None"
    using Cons.prems by (simp_all add: x)
  then show ?case
    using Cons.IH by (subst listSearchKey_loop.simps) (simp add: x listNext_def node_at_def split: option.split)
qed

lemma listSearchKey_exact:
  assumes "holds m l ps"
  shows "listSearchKey m l key =
    Some (map_option fst (find (\<lambda>(a, v). case l_match l of Some f \<Rightarrow> f v key | None \<Rightarrow> key = v) ps))"
  using assms search_loop [of m None ps] by (simp add: listSearchKey_def listRewind_def holds_def)

lemma empty_loop:
  "seg (heap m) p ps q \<Longrightarrow> distinct (map fst ps) \<Longrightarrow> finite (dom (heap m)) \<Longrightarrow>
   \<exists>m'. listEmpty_loop l (length ps) (first_addr ps q) m = Some m' \<and> finite (dom (heap m')) \<and>
     freed m' = freed m @ (if l_free l then map snd ps else []) \<and>
     (\<forall>x. heap m' x = (if x \<in> fst ` set ps then None else heap m x))"
proof (induction ps arbitrary: p m)
  case (Cons x ps)
  obtain a v where x: "x = (a, v)" by fastforce
  let ?m = "zfree (call_free l v m) (Some a)"
  have h: "heap ?m = (heap m)(a := None)" by (simp add: zfree_def call_free_def)
  have "seg (heap ?m) (Some a) ps q" "distinct (map fst ps)" "finite (dom (heap ?m))"
    using Cons.prems unfolding h by (simp_all add: x)
  from Cons.IH [OF this] obtain m' where "listEmpty_loop l (length ps) (first_addr ps q) ?m = Some m'"
    "finite (dom (heap m'))" "freed m' = freed ?m @ (if l_free l then map snd ps else [])"
    "\<forall>x. heap m' x = (if x \<in> fst ` set ps then None else heap ?m x)" by blast
  moreover have "freed ?m = freed m @ (if l_free l then [v] else [])" by (simp add: zfree_def call_free_def)
  ultimately show ?case using Cons.prems(1) unfolding h by (auto simp: x node_at_def)
qed simp

lemma empty_list:
  assumes "holds m l ps"
  shows "\<exists>m' l'. listEmpty m l = Some (m', l') \<and> holds m' l' []"
  using assms empty_loop [of m None ps None l] by (auto simp: listEmpty_def holds_def)

lemma two_ends:
  assumes "2 \<le> length ps"
  shows "\<exists>b u ys a v. ps = (b, u) # ys @ [(a, v)]"
proof -
  obtain x xs where "ps = x # xs" "xs \<noteq> []" using assms by (cases ps; cases "tl ps") auto
  then show ?thesis by (cases x; cases xs rule: rev_cases) auto
qed

lemma rotate_tail:
  assumes "holds m l ps" "2 \<le> length ps"
  shows "\<exists>m' l'. listRotateTailToHead m l = Some (m', l') \<and> holds m' l' (last ps # butlast ps)"
proof -
  obtain b u ys a v where ps: "ps = (b, u) # ys @ [(a, v)]" using two_ends [OF assms(2)] by blast
  have d: "a \<noteq> b" "a \<notin> fst ` set ys" "b \<notin> fst ` set ys" using assms(1) by (auto simp: holds_def ps)
  note defs = listRotateTailToHead_def node_defs holds_def ps
  show ?thesis
  proof (cases ys rule: rev_cases)
    case Nil
    then show ?thesis using assms(1) d by (simp add: defs Let_def)
  next
    case (snoc zs y)
    obtain c t where y: "y = (c, t)" by fastforce
    have "c \<noteq> a" "c \<noteq> b" "c \<notin> fst ` set zs" using assms(1) by (auto simp: holds_def ps snoc y)
    then show ?thesis using assms(1) d by (simp add: defs snoc y butlast_append Let_def)
  qed
qed

lemma rotate_head:
  assumes "holds m l ps" "2 \<le> length ps"
  shows "\<exists>m' l'. listRotateHeadToTail m l = Some (m', l') \<and> holds m' l' (tl ps @ [hd ps])"
proof -
  obtain b u ys a v where ps: "ps = (b, u) # ys @ [(a, v)]" using two_ends [OF assms(2)] by blast
  have d: "a \<noteq> b" "a \<notin> fst ` set ys" "b \<notin> fst ` set ys" using assms(1) by (auto simp: holds_def ps)
  note defs = listRotateHeadToTail_def node_defs holds_def ps
  show ?thesis
  proof (cases ys)
    case Nil
    then show ?thesis using assms(1) d by (simp add: defs Let_def)
  next
    case (Cons y zs)
    obtain c t where y: "y = (c, t)" by fastforce
    have "c \<noteq> a" "c \<noteq> b" "c \<notin> fst ` set zs" using assms(1) by (auto simp: holds_def ps Cons y)
    then show ?thesis using assms(1) d by (simp add: defs Cons y Let_def)
  qed
qed

lemma join_lists:
  assumes "holds m l ps" "holds m other rs" "fst ` set ps \<inter> fst ` set rs = {}" "length ps + length rs < 2 ^ 64"
  shows "\<exists>m' l' o'. listJoin m l other = Some (m', l', o') \<and> holds m' l' (ps @ rs) \<and> holds m' o' []"
proof (cases rs)
  case Nil
  then show ?thesis using assms by (auto simp: listJoin_def holds_def)
next
  case (Cons x rs')
  obtain b u where x: "x = (b, u)" by fastforce
  have w: "wadd 64 (length ps) (length rs) = length ps + length rs" using assms(4) by simp
  have b: "b \<notin> fst ` set ps" "b \<notin> fst ` set rs'" using assms(2,3) by (auto simp: holds_def Cons x)
  show ?thesis
  proof (cases ps rule: rev_cases)
    case Nil
    then show ?thesis using assms(1,2) w b by (simp add: listJoin_def node_defs holds_def Cons x)
  next
    case (snoc qs y)
    obtain c t where y: "y = (c, t)" by fastforce
    have "c \<notin> fst ` set qs" "c \<notin> fst ` set rs'" "c \<noteq> b" using assms(1,3) by (auto simp: holds_def snoc y Cons x)
    then show ?thesis using assms(1,2,3) w b by (auto simp: listJoin_def node_defs holds_def Cons x snoc y)
  qed
qed

section \<open>Sequences of operations\<close>

text \<open>What the code relies on: the allocator returns a node that is not in use.\<close>

definition fresh_nodes :: "'v allocator \<Rightarrow> bool" where
  "fresh_nodes zmalloc \<longleftrightarrow>
     (\<forall>m. finite (dom (heap m)) \<longrightarrow> (\<exists>a z. zmalloc m = Some (a, z) \<and> heap m a = None))"

lemma fresh_node:
  assumes "fresh_nodes zmalloc" "holds m l ps"
  obtains a z where "zmalloc m = Some (a, z)" "heap m a = None"
  using assms unfolding fresh_nodes_def holds_def by blast

lemma seg_cong: "seg h p ps q \<Longrightarrow> (\<forall>x \<in> fst ` set ps. h' x = h x) \<Longrightarrow> seg h' p ps q"
proof (induction ps arbitrary: p)
  case (Cons x ps)
  then show ?case by (cases x) auto
qed simp

lemma dup_loop:
  assumes fr: "fresh_nodes zmalloc"
  shows "holds m copy rs \<Longrightarrow> seg (heap m) p ps None \<Longrightarrow> fst ` set ps \<inter> fst ` set rs = {} \<Longrightarrow>
    length ps + length rs < 2 ^ 64 \<Longrightarrow>
    (\<forall>v \<in> snd ` set ps. (case l_dup copy of None \<Rightarrow> Some v | Some f \<Rightarrow> f v) = Some (g v)) \<Longrightarrow>
    \<exists>m' copy' qs.
      listDup_loop zmalloc \<lparr>it_next = first_addr ps None, it_direction = AL_START_HEAD\<rparr> m copy = Some (m', Some copy') \<and>
      holds m' copy' (rs @ qs) \<and> map snd qs = map g (map snd ps) \<and>
      (\<forall>x. x \<notin> fst ` set rs \<and> heap m x \<noteq> None \<longrightarrow> heap m' x = heap m x)"
proof (induction ps arbitrary: p m copy rs)
  case Nil
  then show ?case by (subst listDup_loop.simps) (auto simp: listNext_def intro!: exI [of _ "[]"])
next
  case (Cons x ps)
  obtain b u where x: "x = (b, u)" by fastforce
  obtain a z where a: "zmalloc m = Some (a, z)" "heap m a = None" using fresh_node [OF fr Cons.prems(1)] .
  have hb: "heap m b = Some \<lparr>node_prev = p, node_next = first_addr ps None, node_value = u\<rparr>"
    and sg: "seg (heap m) (Some b) ps None" using Cons.prems(2) by (simp_all add: x)
  have "length rs < 2 ^ 64 - 1" using Cons.prems(4) by simp
  then obtain m1 c1 where l: "listLinkNodeTail (new_node m a z (g u)) copy a = Some (m1, c1)"
    and h1: "holds m1 c1 (rs @ [(a, g u)])" and d1: "l_dup c1 = l_dup copy"
    and keep: "\<forall>x. x \<noteq> a \<and> x \<notin> fst ` set rs \<longrightarrow> heap m1 x = heap m x"
    using link_tail [OF Cons.prems(1) a(2), of z "g u"] by blast
  have na: "a \<notin> fst ` set ps" using seg_alloc [OF sg] a(2) by fastforce
  have dis: "fst ` set ps \<inter> fst ` set rs = {}" using Cons.prems(3) by (simp add: x)
  then have "\<forall>y \<in> fst ` set ps. heap m1 y = heap m y" using keep na by (metis disjoint_iff)
  then have i1: "seg (heap m1) (Some b) ps None" by (rule seg_cong [OF sg])
  have i2: "fst ` set ps \<inter> fst ` set (rs @ [(a, g u)]) = {}" using Cons.prems(3) na by auto
  have i3: "length ps + length (rs @ [(a, g u)]) < 2 ^ 64" using Cons.prems(4) by simp
  have i4: "\<forall>v \<in> snd ` set ps. (case l_dup c1 of None \<Rightarrow> Some v | Some f \<Rightarrow> f v) = Some (g v)"
    using Cons.prems(5) d1 by simp
  obtain m' copy' qs where
    r: "listDup_loop zmalloc \<lparr>it_next = first_addr ps None, it_direction = AL_START_HEAD\<rparr> m1 c1 = Some (m', Some copy')"
    "holds m' copy' ((rs @ [(a, g u)]) @ qs)" "map snd qs = map g (map snd ps)"
    "\<forall>x. x \<notin> fst ` set (rs @ [(a, g u)]) \<and> heap m1 x \<noteq> None \<longrightarrow> heap m' x = heap m1 x"
    using Cons.IH [OF h1 i1 i2 i3 i4] by blast
  obtain y where y: "g u = y" by simp
  have "(case l_dup copy of None \<Rightarrow> Some u | Some f \<Rightarrow> f u) = Some y" using Cons.prems(5) by (simp add: x y)
  then have "listDup_loop zmalloc \<lparr>it_next = first_addr (x # ps) None, it_direction = AL_START_HEAD\<rparr> m copy = Some (m', Some copy')"
    using r(1) by (cases "l_dup copy"; subst listDup_loop.simps)
      (simp_all add: x listNext_def node_at_def hb listAddNodeTail_def a l [unfolded y])
  moreover have "heap m' x = heap m x" if "x \<notin> fst ` set rs" "heap m x \<noteq> None" for x
  proof -
    have "x \<noteq> a" using that(2) a(2) by auto
    then have "heap m1 x = heap m x" "x \<notin> fst ` set (rs @ [(a, g u)])" using that(1) keep by auto
    then show ?thesis using r(4) that(2) by metis
  qed
  ultimately show ?case using r(2,3) by (intro exI [of _ m'] exI [of _ copy'] exI [of _ "(a, g u) # qs"]) (simp add: x)
qed

lemma listDup_copies:
  assumes "fresh_nodes zmalloc" "holds m l ps" "length ps < 2 ^ 64"
    and "\<forall>v \<in> snd ` set ps. (case l_dup l of None \<Rightarrow> Some v | Some f \<Rightarrow> f v) = Some (g v)"
  shows "\<exists>m' copy qs. listDup zmalloc m l = Some (m', Some copy) \<and>
      holds m' copy qs \<and> map snd qs = map g (map snd ps) \<and> holds m' l ps"
proof -
  let ?c = "listCreate\<lparr>l_dup := l_dup l, l_free := l_free l, l_match := l_match l\<rparr>"
  have s: "seg (heap m) None ps None" "l_head l = first_addr ps None" "holds m ?c []"
    using assms(2) by (simp_all add: holds_def listCreate_def)
  obtain m' copy qs where
    r: "listDup_loop zmalloc \<lparr>it_next = first_addr ps None, it_direction = AL_START_HEAD\<rparr> m ?c = Some (m', Some copy)"
    "holds m' copy qs" "map snd qs = map g (map snd ps)" "\<forall>x. heap m x \<noteq> None \<longrightarrow> heap m' x = heap m x"
    using dup_loop [OF assms(1) s(3,1), of g] assms(3,4) by auto
  have "seg (heap m') None ps None" using seg_cong [OF s(1)] r(4) seg_alloc [OF s(1)] by fastforce
  then have "holds m' l ps" using assms(2) r(2) by (simp add: holds_def)
  then show ?thesis using r s(2) by (auto simp: listDup_def listRewind_def)
qed

datatype 'v list_op =
    AddHead 'v
  | AddTail 'v
  | InsertAt int 'v bool
  | DeleteAt int
  | RotateTailToHead
  | RotateHeadToTail
  | Clear

text \<open>An insertion or a deletion finds its node with \<open>listIndex\<close>.\<close>

fun list_step :: "'v allocator \<Rightarrow> 'v list_op \<Rightarrow> 'v memory \<times> 'v adlist \<Rightarrow> ('v memory \<times> 'v adlist) option" where
  "list_step zmalloc (AddHead v) (m, l) = do { r \<leftarrow> listAddNodeHead zmalloc m l v; r }"
| "list_step zmalloc (AddTail v) (m, l) = do { r \<leftarrow> listAddNodeTail zmalloc m l v; r }"
| "list_step zmalloc (InsertAt i v after) (m, l) = do {
     n \<leftarrow> listIndex m l i;
     case n of
       None \<Rightarrow> Some (m, l)
     | Some a \<Rightarrow> do { r \<leftarrow> listInsertNode zmalloc m l a v after; r } }"
| "list_step zmalloc (DeleteAt i) (m, l) = do {
     n \<leftarrow> listIndex m l i;
     case n of None \<Rightarrow> Some (m, l) | Some a \<Rightarrow> listDelNode m l a }"
| "list_step zmalloc RotateTailToHead (m, l) = listRotateTailToHead m l"
| "list_step zmalloc RotateHeadToTail (m, l) = listRotateHeadToTail m l"
| "list_step zmalloc Clear (m, l) = listEmpty m l"

fun list_run :: "'v allocator \<Rightarrow> 'v list_op list \<Rightarrow> 'v memory \<times> 'v adlist \<Rightarrow> ('v memory \<times> 'v adlist) option" where
  "list_run zmalloc [] s = Some s"
| "list_run zmalloc (x # xs) s = do { s \<leftarrow> list_step zmalloc x s; list_run zmalloc xs s }"

text \<open>The same operations on lists.\<close>

fun seq_step :: "'v list_op \<Rightarrow> 'v list \<Rightarrow> 'v list" where
  "seq_step (AddHead v) xs = v # xs"
| "seq_step (AddTail v) xs = xs @ [v]"
| "seq_step (InsertAt i v after) xs =
     (case position xs i of
        None \<Rightarrow> xs
      | Some k \<Rightarrow> (let j = (if after then k + 1 else k) in take j xs @ v # drop j xs))"
| "seq_step (DeleteAt i) xs = (case position xs i of None \<Rightarrow> xs | Some k \<Rightarrow> take k xs @ drop (k + 1) xs)"
| "seq_step RotateTailToHead xs = (if length xs \<le> 1 then xs else last xs # butlast xs)"
| "seq_step RotateHeadToTail xs = (if length xs \<le> 1 then xs else tl xs @ [hd xs])"
| "seq_step Clear xs = []"

lemma position_map: "position (map f xs) i = position xs i"
  by (simp add: position_def)

lemma position_less: "position xs i = Some k \<Longrightarrow> k < length xs"
  by (auto simp: position_def split: if_splits)

lemma position_split:
  assumes "k < length ps"
  shows "\<exists>a v. ps = take k ps @ (a, v) # drop (Suc k) ps \<and> ps ! k = (a, v)"
  using id_take_nth_drop [OF assms] by (cases "ps ! k") auto

lemma step_insert:
  assumes fr: "fresh_nodes zmalloc" and h: "holds m l ps" and len: "length ps < 2 ^ 64 - 1"
    and pos: "position ps i = Some k"
  shows "\<exists>m' l' ps'. list_step zmalloc (InsertAt i v after) (m, l) = Some (m', l') \<and> holds m' l' ps' \<and>
      map snd ps' = seq_step (InsertAt i v after) (map snd ps) \<and> length ps' \<le> Suc (length ps)"
proof -
  obtain a z where a: "zmalloc m = Some (a, z)" "heap m a = None" using fresh_node [OF fr h] .
  have k: "k < length ps" using position_less [OF pos] .
  obtain b u where b: "ps = take k ps @ (b, u) # drop (Suc k) ps" "ps ! k = (b, u)"
    using position_split [OF k] by blast
  have h': "holds m l (take k ps @ (b, u) # drop (Suc k) ps)" using h by (subst b(1) [symmetric])
  have len': "length (take k ps @ (b, u) # drop (Suc k) ps) < 2 ^ 64 - 1" using len by (subst b(1) [symmetric])
  have tk: "take (Suc k) ps = take k ps @ [(b, u)]" using k b(2) by (simp add: take_Suc_conv_app_nth)
  have dk: "drop k ps = (b, u) # drop (Suc k) ps" using k b(2) by (metis Cons_nth_drop_Suc)
  show ?thesis
  proof (cases after)
    case True
    obtain m' l' where "listInsertNode zmalloc m l b v True = Some (Some (m', l'))"
      "holds m' l' (take k ps @ (b, u) # (a, v) # drop (Suc k) ps)"
      using insert_after [of m l "take k ps" b u "drop (Suc k) ps" zmalloc, OF h' a len'] by blast
    then show ?thesis using True k
      by (intro exI [of _ m'] exI [of _ l'] exI [of _ "take k ps @ (b, u) # (a, v) # drop (Suc k) ps"])
        (simp add: listIndex_exact [OF h] pos b(2) position_map take_map drop_map tk)
  next
    case False
    obtain m' l' where "listInsertNode zmalloc m l b v False = Some (Some (m', l'))"
      "holds m' l' (take k ps @ (a, v) # (b, u) # drop (Suc k) ps)"
      using insert_before [of m l "take k ps" b u "drop (Suc k) ps" zmalloc, OF h' a len'] by blast
    then show ?thesis using False k
      by (intro exI [of _ m'] exI [of _ l'] exI [of _ "take k ps @ (a, v) # (b, u) # drop (Suc k) ps"])
        (simp add: listIndex_exact [OF h] pos b(2) position_map take_map drop_map dk)
  qed
qed

lemma step_delete:
  assumes h: "holds m l ps" and len: "length ps < 2 ^ 64 - 1" and pos: "position ps i = Some k"
  shows "\<exists>m' l' ps'. list_step zmalloc (DeleteAt i) (m, l) = Some (m', l') \<and> holds m' l' ps' \<and>
      map snd ps' = seq_step (DeleteAt i) (map snd ps) \<and> length ps' \<le> Suc (length ps)"
proof -
  have k: "k < length ps" using position_less [OF pos] .
  obtain b u where b: "ps = take k ps @ (b, u) # drop (Suc k) ps" "ps ! k = (b, u)"
    using position_split [OF k] by blast
  have h': "holds m l (take k ps @ (b, u) # drop (Suc k) ps)" using h by (subst b(1) [symmetric])
  have "length ps < 2 ^ 64" using len by simp
  then have "length (take k ps @ (b, u) # drop (Suc k) ps) < 2 ^ 64" by (subst b(1) [symmetric])
  then obtain m' l' where "listDelNode m l b = Some (m', l')" "holds m' l' (take k ps @ drop (Suc k) ps)"
    using delete_node [OF h'] by blast
  then show ?thesis
    by (intro exI [of _ m'] exI [of _ l'] exI [of _ "take k ps @ drop (Suc k) ps"])
      (simp add: listIndex_exact [OF h] pos b(2) position_map take_map drop_map)
qed

lemma step_rotate:
  assumes h: "holds m l ps" and x: "x = RotateTailToHead \<or> x = RotateHeadToTail"
  shows "\<exists>m' l' ps'. list_step zmalloc x (m, l) = Some (m', l') \<and> holds m' l' ps' \<and>
      map snd ps' = seq_step x (map snd ps) \<and> length ps' \<le> Suc (length ps)"
proof (cases "2 \<le> length ps")
  case True
  then have ne: "ps \<noteq> []" by auto
  obtain m1 l1 where t: "listRotateTailToHead m l = Some (m1, l1)" "holds m1 l1 (last ps # butlast ps)"
    using rotate_tail [OF h True] by blast
  obtain m2 l2 where d: "listRotateHeadToTail m l = Some (m2, l2)" "holds m2 l2 (tl ps @ [hd ps])"
    using rotate_head [OF h True] by blast
  show ?thesis
    using x
  proof
    assume "x = RotateTailToHead"
    then show ?thesis
      by (intro exI [of _ m1] exI [of _ l1] exI [of _ "last ps # butlast ps"])
        (use t ne True in \<open>simp add: last_map map_butlast\<close>)
  next
    assume "x = RotateHeadToTail"
    then show ?thesis
      by (intro exI [of _ m2] exI [of _ l2] exI [of _ "tl ps @ [hd ps]"])
        (use d ne True in \<open>simp add: hd_map map_tl\<close>)
  qed
next
  case False
  then have "list_step zmalloc x (m, l) = Some (m, l)" "seq_step x (map snd ps) = map snd ps"
    using h x by (auto simp: listRotateTailToHead_def listRotateHeadToTail_def holds_def)
  with h show ?thesis by auto
qed

lemma step_refines:
  assumes fr: "fresh_nodes zmalloc" and h: "holds m l ps" and len: "length ps < 2 ^ 64 - 1"
  shows "\<exists>m' l' ps'. list_step zmalloc x (m, l) = Some (m', l') \<and> holds m' l' ps' \<and>
      map snd ps' = seq_step x (map snd ps) \<and> length ps' \<le> Suc (length ps)"
proof -
  obtain a z where a: "zmalloc m = Some (a, z)" "heap m a = None" using fresh_node [OF fr h] .
  show ?thesis
  proof (cases x)
    case (AddHead v)
    then show ?thesis using link_head [OF h a(2) len, of z v] a by (fastforce simp: listAddNodeHead_def)
  next
    case (AddTail v)
    then show ?thesis using link_tail [OF h a(2) len, of z v] a by (fastforce simp: listAddNodeTail_def)
  next
    case (InsertAt i v after)
    then show ?thesis using step_insert [OF fr h len] h
      by (cases "position ps i") (auto simp: listIndex_exact [OF h] position_map)
  next
    case (DeleteAt i)
    then show ?thesis using step_delete [OF h len] h
      by (cases "position ps i") (auto simp: listIndex_exact [OF h] position_map)
  next
    case Clear
    then show ?thesis using empty_list [OF h] by fastforce
  qed (use step_rotate [OF h] in blast)+
qed

lemma list_run_refines:
  assumes fr: "fresh_nodes zmalloc"
  shows "holds m l ps \<Longrightarrow> length ps + length ops < 2 ^ 64 \<Longrightarrow>
    \<exists>m' l' ps'. list_run zmalloc ops (m, l) = Some (m', l') \<and> holds m' l' ps' \<and>
      map snd ps' = fold seq_step ops (map snd ps)"
proof (induction ops arbitrary: m l ps)
  case (Cons x ops)
  obtain m1 l1 ps1 where s: "list_step zmalloc x (m, l) = Some (m1, l1)" "holds m1 l1 ps1"
    "map snd ps1 = seq_step x (map snd ps)" "length ps1 \<le> Suc (length ps)"
    using step_refines [OF fr Cons.prems(1), of x] Cons.prems(2) by auto
  then have "length ps1 + length ops < 2 ^ 64" using Cons.prems(2) by simp
  from Cons.IH [OF s(2) this] s(1,3) show ?case by simp
qed auto

text \<open>The value of a node, for the answers of searches.\<close>

definition value_at :: "'v memory \<Rightarrow> addr option \<Rightarrow> 'v option" where
  "value_at m p = map_option node_value (node_at m p)"

lemma seg_value: "seg (heap m) p ps q \<Longrightarrow> (a, v) \<in> set ps \<Longrightarrow> value_at m (Some a) = Some v"
proof (induction ps arbitrary: p)
  case (Cons x ps)
  then show ?case by (cases x) (auto simp: value_at_def node_at_def)
qed simp

lemma index_value:
  assumes "holds m l ps"
  shows "\<exists>a. listIndex m l i = Some a \<and> value_at m a = map_option (\<lambda>k. map snd ps ! k) (position (map snd ps) i)"
proof (cases "position ps i")
  case None
  then show ?thesis by (simp add: listIndex_exact [OF assms] position_map value_at_def node_at_def)
next
  case (Some k)
  have "(fst (ps ! k), snd (ps ! k)) \<in> set ps" using position_less [OF Some] by simp
  then have "value_at m (Some (fst (ps ! k))) = Some (snd (ps ! k))"
    using seg_value [of m None ps None] assms by (simp add: holds_def)
  then show ?thesis using position_less [OF Some] by (simp add: listIndex_exact [OF assms] position_map Some)
qed

text \<open>
  C7. Any sequence of operations on a new list, from an allocator that returns unused nodes, runs
  without an invalid access and leaves the doubly linked list that represents the result of the
  same operations on sequences: the length field is right and \<open>listIndex\<close> finds, from either end,
  the node with the element at every index and NULL beyond the ends.
\<close>
theorem adlist_refines_sequence:
  assumes "fresh_nodes zmalloc" "finite (dom (heap m))" "length ops < 2 ^ 64"
  shows "\<exists>m' l' xs. list_run zmalloc ops (m, listCreate) = Some (m', l') \<and> xs = fold seq_step ops [] \<and>
      l_len l' = length xs \<and>
      (\<forall>i. \<exists>a. listIndex m' l' i = Some a \<and> value_at m' a = map_option (\<lambda>k. xs ! k) (position xs i))"
proof -
  obtain m' l' ps where r: "list_run zmalloc ops (m, listCreate) = Some (m', l')" "holds m' l' ps"
    "map snd ps = fold seq_step ops []"
    using list_run_refines [OF assms(1) holds_create [OF assms(2)], of ops] assms(3) by auto
  then have "l_len l' = length (fold seq_step ops [])"
    using length_map [of snd ps] by (simp add: holds_def)
  then show ?thesis using r(1,3) index_value [OF r(2)] by (metis (no_types))
qed

definition example_allocator :: "nat allocator" where
  "example_allocator m =
     Some (Suc (Max (insert 0 (dom (heap m)))), \<lparr>node_prev = None, node_next = None, node_value = 0\<rparr>)"

lemma example_fresh: "fresh_nodes example_allocator"
proof -
  have "heap m (Suc (Max (insert 0 (dom (heap m))))) = None" if "finite (dom (heap m))" for m :: "nat memory"
  proof (rule ccontr)
    assume "heap m (Suc (Max (insert 0 (dom (heap m))))) \<noteq> None"
    then have "Suc (Max (insert 0 (dom (heap m)))) \<le> Max (insert 0 (dom (heap m)))"
      using that by (intro Max_ge) auto
    then show False by simp
  qed
  then show ?thesis by (simp add: fresh_nodes_def example_allocator_def)
qed

theorem adlist_refines_sequence_witness:
  "\<exists>m' l'. list_run example_allocator [AddHead 1, AddTail 2, InsertAt (- 1) 3 False, RotateTailToHead, DeleteAt 1]
       (\<lparr>heap = Map.empty, freed = []\<rparr>, listCreate) = Some (m', l') \<and>
     (\<exists>a. listIndex m' l' (- 1) = Some a \<and> value_at m' a = Some 3)"
proof -
  let ?ops = "[AddHead 1, AddTail 2, InsertAt (- 1) 3 False, RotateTailToHead, DeleteAt (1 :: int)] :: nat list_op list"
  obtain m' l' xs where "list_run example_allocator ?ops (\<lparr>heap = Map.empty, freed = []\<rparr>, listCreate) = Some (m', l')"
    "xs = fold seq_step ?ops []"
    "\<forall>i. \<exists>a. listIndex m' l' i = Some a \<and> value_at m' a = map_option (\<lambda>k. xs ! k) (position xs i)"
    using adlist_refines_sequence [OF example_fresh, of "\<lparr>heap = Map.empty, freed = []\<rparr>" ?ops] by auto
  moreover have "fold seq_step ?ops [] = [2, 3]" by code_simp
  moreover have "map_option (\<lambda>k. [2, 3 :: nat] ! k) (position [2, 3 :: nat] (- 1)) = Some 3" by code_simp
  ultimately show ?thesis by metis
qed

end
