(* ===== verification/War_Game.thy ===== *)
theory War_Game
  imports Main "HOL-Library.Multiset" "HOL-Library.Monad_Syntax"
begin

text \<open>
  The card game service: \<open>CardsService.java\<close>, \<open>GameService.java\<close>, \<open>PlayerService.java\<close> and the
  message handlers of \<open>GameController.java\<close>, all under
  \<open>src/warcardgame/src/main/java/com/war/warcardgame\<close>.

  The repositories are interfaces whose implementation the Spring framework provides. They are a
  parameter of the model, a record of operations over an abstract database; what the code
  relies on is \<open>cards_laws\<close>. No method is transactional, so the entities that a query
  returns are copies and a change to one reaches the database through \<open>save\<close> only. A result
  \<open>None\<close> of the outermost option type is an exception; a null reference is an inner
  \<open>None\<close>. Messages sent to the clients are recorded in order.
\<close>

section \<open>Entities\<close>

text \<open>
  A player always has a name, which the schema demands, and a session, which \<open>createNewPlayer\<close> sets.
\<close>

record PlayersEntity =
  playerId :: int
  username :: string
  sessionId :: string

record CardsEntity =
  cardId :: int
  card_name :: string
  suit :: string
  rank :: int
  isPlayed :: bool
  dealOrder :: int
  players :: "PlayersEntity option"

datatype GameState = NEW_GAME | START_GAME | BATTLE | WAR | CARD_PLAYED | ROUND_WINNER | GAME_ENDED

record GameEntity =
  gameId :: int
  player1 :: "PlayersEntity option"
  player2 :: "PlayersEntity option"
  winner :: "PlayersEntity option"
  gameState :: GameState

section \<open>Repositories\<close>

text \<open>
  Saving a new player or game assigns its identifier, so these operations also return the entity.
  Deleting a player raises an exception if a card or a game still refers to it.
\<close>

record 's repositories =
  findAll :: "'s \<Rightarrow> CardsEntity list"
  findCardsByPlayer :: "'s \<Rightarrow> int \<Rightarrow> CardsEntity list"
  save_card :: "'s \<Rightarrow> CardsEntity \<Rightarrow> 's"
  find_player :: "'s \<Rightarrow> int \<Rightarrow> PlayersEntity option"
  findPlayerBySessionId :: "'s \<Rightarrow> string \<Rightarrow> PlayersEntity option"
  new_player :: "'s \<Rightarrow> string \<Rightarrow> string \<Rightarrow> 's \<times> PlayersEntity"
  delete_player :: "'s \<Rightarrow> PlayersEntity \<Rightarrow> 's option"
  find_game :: "'s \<Rightarrow> int \<Rightarrow> GameEntity option"
  new_game :: "'s \<Rightarrow> PlayersEntity option \<Rightarrow> GameState \<Rightarrow> 's \<times> GameEntity"
  save_game :: "'s \<Rightarrow> GameEntity \<Rightarrow> 's"
  delete_game :: "'s \<Rightarrow> GameEntity \<Rightarrow> 's"

section \<open>The state of the card service\<close>

datatype message =
    Captured1 "CardsEntity list"
  | Captured2 "CardsEntity list"
  | War_occurred
  | Winner string

record 's service =
  db :: 's
  allCards :: "CardsEntity list"
  player1Turn :: bool
  player2Turn :: bool
  playedCard1 :: "CardsEntity option"
  playedCard2 :: "CardsEntity option"
  player1CapturedCards :: "CardsEntity list"
  player2CapturedCards :: "CardsEntity list"
  sent :: "message list"

record DealCardsResponse =
  deal_session :: string
  deal_cards :: "CardsEntity list"

record PlayCardResponse =
  play_card :: "CardsEntity option"
  play_turn :: bool
  play_session :: string

definition CardsService :: "'s \<Rightarrow> 's service" where
  "CardsService s =
     \<lparr>db = s, allCards = [], player1Turn = True, player2Turn = False, playedCard1 = None, playedCard2 = None,
      player1CapturedCards = [], player2CapturedCards = [], sent = []\<rparr>"

definition convertAndSend :: "message \<Rightarrow> 's service \<Rightarrow> 's service" where
  "convertAndSend m w = w\<lparr>sent := sent w @ [m]\<rparr>"

section \<open>Dealing\<close>

fun deal_loop ::
  "'s repositories \<Rightarrow> PlayersEntity option \<Rightarrow> int \<Rightarrow> CardsEntity list \<Rightarrow> 's \<Rightarrow> CardsEntity list \<times> 's" where
  "deal_loop R player i [] s = ([], s)"
| "deal_loop R player i (c # cards) s =
     (let c = c\<lparr>dealOrder := i, players := player\<rparr>;
          (cards, s) = deal_loop R player (i + 1) cards (save_card R s c)
      in (c # cards, s))"

text \<open>
  The cards dealt are a view of a part of \<open>allCards\<close>, so shuffling and updating them also changes
  that list.
\<close>

definition dealCards1 ::
  "'s repositories \<Rightarrow> (CardsEntity list \<Rightarrow> CardsEntity list) \<Rightarrow> 's service \<Rightarrow> string \<Rightarrow> DealCardsResponse \<times> 's service" where
  "dealCards1 R shuffle w session =
     (let cards = findAll R (db w);
          player = findPlayerBySessionId R (db w) session;
          half = length cards div 2;
          (dealt, s) = deal_loop R player 0 (shuffle (take half cards)) (db w)
      in (\<lparr>deal_session = session, deal_cards = dealt\<rparr>,
          w\<lparr>db := s, allCards := dealt @ drop half cards\<rparr>))"

definition dealCards2 ::
  "'s repositories \<Rightarrow> (CardsEntity list \<Rightarrow> CardsEntity list) \<Rightarrow> 's service \<Rightarrow> string \<Rightarrow> DealCardsResponse \<times> 's service" where
  "dealCards2 R shuffle w session =
     (let cards = findAll R (db w);
          player = findPlayerBySessionId R (db w) session;
          half = length cards div 2;
          (dealt, s) = deal_loop R player 0 (shuffle (drop half cards)) (db w)
      in (\<lparr>deal_session = session, deal_cards = dealt\<rparr>,
          w\<lparr>db := s, allCards := take half cards @ dealt\<rparr>))"

section \<open>Playing\<close>

definition play_next :: "CardsEntity list \<Rightarrow> CardsEntity option" where
  "play_next cards = map_option (\<lambda>c. c\<lparr>isPlayed := True\<rparr>) (find (\<lambda>c. \<not> isPlayed c) cards)"

definition playCard1 :: "'s repositories \<Rightarrow> 's service \<Rightarrow> int \<Rightarrow> (PlayCardResponse option \<times> 's service) option" where
  "playCard1 R w player1Id = do {
     let player1Cards = findCardsByPlayer R (db w) player1Id;
     player1 \<leftarrow> find_player R (db w) player1Id;
     if player1Turn w
     then case play_next player1Cards of
         None \<Rightarrow> Some (None, w)
       | Some c \<Rightarrow>
           Some (Some \<lparr>play_card = Some c, play_turn = True, play_session = sessionId player1\<rparr>,
             w\<lparr>db := save_card R (db w) c, playedCard1 := Some c, player1Turn := False, player2Turn := True\<rparr>)
     else Some (Some \<lparr>play_card = None, play_turn = False, play_session = sessionId player1\<rparr>, w) }"

definition drawNextCard :: "'s repositories \<Rightarrow> 's service \<Rightarrow> int \<Rightarrow> CardsEntity option \<times> 's service" where
  "drawNextCard R w player =
     (case play_next (findCardsByPlayer R (db w) player) of
        None \<Rightarrow> (None, w)
      | Some c \<Rightarrow> (Some c, w\<lparr>db := save_card R (db w) c\<rparr>))"

text \<open>The winner is stored in the copy of the game only; it is not saved.\<close>

definition declareWinner :: "'s repositories \<Rightarrow> 's service \<Rightarrow> int \<Rightarrow> int \<Rightarrow> int \<Rightarrow> string option" where
  "declareWinner R w game player1Id player2Id = do {
     g \<leftarrow> find_game R (db w) game;
     p1 \<leftarrow> find_player R (db w) player1Id;
     p2 \<leftarrow> find_player R (db w) player2Id;
     if length (player1CapturedCards w) > length (player2CapturedCards w) then Some (username p1)
     else if length (player1CapturedCards w) < length (player2CapturedCards w) then Some (username p2)
     else Some ''It was a tie'' }"

definition capture1 :: "CardsEntity list \<Rightarrow> 's service \<Rightarrow> 's service" where
  "capture1 cards w =
     (let w = w\<lparr>player1CapturedCards := player1CapturedCards w @ cards\<rparr>
      in convertAndSend (Captured1 (player1CapturedCards w)) w)"

definition capture2 :: "CardsEntity list \<Rightarrow> 's service \<Rightarrow> 's service" where
  "capture2 cards w =
     (let w = w\<lparr>player2CapturedCards := player2CapturedCards w @ cards\<rparr>
      in convertAndSend (Captured2 (player2CapturedCards w)) w)"

definition declareWinnerAndAddWarCards ::
  "'s repositories \<Rightarrow> 's service \<Rightarrow> int \<Rightarrow> int \<Rightarrow> int \<Rightarrow> CardsEntity list \<Rightarrow> 's service option" where
  "declareWinnerAndAddWarCards R w game player1Id player2Id warCards = do {
     win \<leftarrow> declareWinner R w game player1Id player2Id;
     p1 \<leftarrow> find_player R (db w) player1Id;
     p2 \<leftarrow> find_player R (db w) player2Id;
     let w = (if win = username p1 then capture1 warCards w
              else if win = username p2 then capture2 warCards w
              else w);
     Some (convertAndSend (Winner win) (convertAndSend War_occurred w)) }"

datatype war_end = Drawn | Player1Out | Player2Out

fun war_draw ::
  "'s repositories \<Rightarrow> int \<Rightarrow> int \<Rightarrow> nat \<Rightarrow> CardsEntity list \<Rightarrow> 's service \<Rightarrow> war_end \<times> CardsEntity list \<times> 's service" where
  "war_draw R player1Id player2Id 0 warCards w = (Drawn, warCards, w)"
| "war_draw R player1Id player2Id (Suc n) warCards w =
     (case drawNextCard R w player1Id of
        (None, w) \<Rightarrow> (Player1Out, warCards, w)
      | (Some card1, w) \<Rightarrow>
          (case drawNextCard R w player2Id of
             (None, w) \<Rightarrow> (Player2Out, warCards @ [card1], w)
           | (Some card2, w) \<Rightarrow> war_draw R player1Id player2Id n (warCards @ [card1, card2]) w))"

partial_function (option) war :: "'s repositories \<Rightarrow> int \<Rightarrow> int \<Rightarrow> int \<Rightarrow> 's service \<Rightarrow> 's service option" where
  "war R player1Id player2Id game w = do {
     card1 \<leftarrow> playedCard1 w;
     card2 \<leftarrow> playedCard2 w;
     case war_draw R player1Id player2Id 3 [card1, card2] w of
       (Player1Out, warCards, w) \<Rightarrow> do {
         w \<leftarrow> declareWinnerAndAddWarCards R w game player1Id player2Id warCards;
         Some (convertAndSend War_occurred w) }
     | (Player2Out, warCards, w) \<Rightarrow> declareWinnerAndAddWarCards R w game player1Id player2Id warCards
     | (Drawn, warCards, w) \<Rightarrow>
         (let lastCard1 = warCards ! (length warCards - 2); lastCard2 = warCards ! (length warCards - 1)
          in if rank lastCard1 > rank lastCard2 then Some (capture1 warCards w)
             else if rank lastCard1 < rank lastCard2 then Some (capture2 warCards w)
             else war R player1Id player2Id game (convertAndSend War_occurred w)) }"

definition gameRound :: "'s repositories \<Rightarrow> 's service \<Rightarrow> int \<Rightarrow> int \<Rightarrow> int \<Rightarrow> 's service option" where
  "gameRound R w player1Id player2Id game = do {
     card1 \<leftarrow> playedCard1 w;
     card2 \<leftarrow> playedCard2 w;
     if rank card1 > rank card2 then Some (capture1 [card1, card2] w)
     else if rank card1 < rank card2 then Some (capture2 [card1, card2] w)
     else war R player1Id player2Id game (convertAndSend War_occurred w) }"

definition allCardsPlayed :: "CardsEntity list \<Rightarrow> bool" where
  "allCardsPlayed cards \<longleftrightarrow> list_all isPlayed cards"

text \<open>
  The list of the second player's cards is read before the round; of its elements only the card
  played is changed.
\<close>

fun mark_first :: "CardsEntity list \<Rightarrow> CardsEntity list" where
  "mark_first [] = []"
| "mark_first (c # cards) =
     (if \<not> isPlayed c then c\<lparr>isPlayed := True\<rparr> # cards else c # mark_first cards)"

definition playCard2 ::
  "'s repositories \<Rightarrow> 's service \<Rightarrow> int \<Rightarrow> int \<Rightarrow> int \<Rightarrow> (PlayCardResponse option \<times> 's service) option" where
  "playCard2 R w player1Id player2Id game = do {
     let player2Cards = findCardsByPlayer R (db w) player2Id;
     player2 \<leftarrow> find_player R (db w) player2Id;
     if player2Turn w
     then case play_next player2Cards of
         None \<Rightarrow> Some (None, w)
       | Some c \<Rightarrow> do {
           let w = w\<lparr>db := save_card R (db w) c, playedCard2 := Some c\<rparr>;
           w \<leftarrow> gameRound R w player1Id player2Id game;
           let w = w\<lparr>player2Turn := False, player1Turn := True\<rparr>;
           w \<leftarrow> (if allCardsPlayed (mark_first player2Cards)
                then do {
                  win \<leftarrow> declareWinner R w game player1Id player2Id;
                  Some (convertAndSend (Winner win) w) }
                else Some w);
           Some (Some \<lparr>play_card = Some c, play_turn = True, play_session = sessionId player2\<rparr>, w) }
     else Some (Some \<lparr>play_card = None, play_turn = False, play_session = sessionId player2\<rparr>, w) }"

definition resetTurn :: "'s service \<Rightarrow> 's service" where
  "resetTurn w = w\<lparr>player1Turn := True, player2Turn := False\<rparr>"

definition resetCapturedCards :: "'s service \<Rightarrow> 's service" where
  "resetCapturedCards w = w\<lparr>player1CapturedCards := [], player2CapturedCards := []\<rparr>"

section \<open>Creating, joining and leaving a game\<close>

definition createNewPlayer :: "'s repositories \<Rightarrow> 's \<Rightarrow> string \<Rightarrow> string \<Rightarrow> PlayersEntity \<times> 's" where
  "createNewPlayer R s user session = (let (s, p) = new_player R s user session in (p, s))"

definition createNewGame :: "'s repositories \<Rightarrow> 's \<Rightarrow> PlayersEntity \<Rightarrow> GameEntity \<times> 's" where
  "createNewGame R s p = (let (s, g) = new_game R s (Some p) NEW_GAME in (g, s))"

definition joinGame :: "'s repositories \<Rightarrow> 's \<Rightarrow> int \<Rightarrow> PlayersEntity \<Rightarrow> GameEntity option \<times> 's" where
  "joinGame R s game p =
     (case find_game R s game of
        None \<Rightarrow> (None, s)
      | Some g \<Rightarrow>
          if player1 g \<noteq> None \<and> player2 g = None
          then (let g = g\<lparr>player2 := Some p\<rparr> in (Some g, save_game R s g))
          else (None, s))"

definition reDealCards ::
  "'s repositories \<Rightarrow> (CardsEntity list \<Rightarrow> CardsEntity list) \<Rightarrow> 's \<Rightarrow> PlayersEntity option \<Rightarrow> PlayersEntity option \<Rightarrow> 's" where
  "reDealCards R shuffle s p1 p2 =
     (let cards = shuffle (map (\<lambda>c. c\<lparr>players := None, isPlayed := False\<rparr>) (findAll R s));
          half = length cards div 2;
          s = snd (deal_loop R p1 0 (take half cards) s)
      in snd (deal_loop R p2 0 (drop half cards) s))"

definition leaveGame ::
  "'s repositories \<Rightarrow> (CardsEntity list \<Rightarrow> CardsEntity list) \<Rightarrow> 's service \<Rightarrow> int \<Rightarrow> string \<Rightarrow> 's service option" where
  "leaveGame R shuffle w game session =
     (case (find_game R (db w) game, findPlayerBySessionId R (db w) session) of
        (Some g, Some player) \<Rightarrow>
          (let (g, s) =
             (if Some player = player1 g
              then let g = g\<lparr>player1 := None, winner := player2 g\<rparr>
                   in (g, reDealCards R shuffle (db w) (player1 g) (player2 g))
              else if Some player = player2 g
              then let g = g\<lparr>player2 := None, winner := player1 g\<rparr>
                   in (g, reDealCards R shuffle (db w) (player1 g) (player2 g))
              else (g, db w));
             s = (if player1 g = None \<and> player2 g = None then delete_game R s g
                  else save_game R s (g\<lparr>gameState := GAME_ENDED\<rparr>))
           in do {
             s \<leftarrow> delete_player R s player;
             Some (resetCapturedCards (resetTurn (w\<lparr>db := s\<rparr>))) })
      | _ \<Rightarrow> Some w)"

text \<open>The handlers of the controller: the response to the client and the new database.\<close>

definition createGameAndPlayer :: "'s repositories \<Rightarrow> 's \<Rightarrow> string \<Rightarrow> string \<Rightarrow> (int \<times> string) \<times> 's" where
  "createGameAndPlayer R s user session =
     (let (p, s) = createNewPlayer R s user session;
          (g, s) = createNewGame R s p
      in ((gameId g, session), s))"

definition joinGame_handler ::
  "'s repositories \<Rightarrow> 's \<Rightarrow> int \<Rightarrow> string \<Rightarrow> string \<Rightarrow> (bool \<times> int option \<times> string) option \<times> 's" where
  "joinGame_handler R s game user session =
     (case find_game R s game of
        Some _ \<Rightarrow>
          (let (p, s) = createNewPlayer R s user session;
               (g, s) = joinGame R s game p
           in case g of
                None \<Rightarrow> (None, s)
              | Some g \<Rightarrow> (Some (True, Some (gameId g), session), s))
      | None \<Rightarrow> (Some (False, None, session), s))"

definition leaveGame_handler ::
  "'s repositories \<Rightarrow> (CardsEntity list \<Rightarrow> CardsEntity list) \<Rightarrow> 's service \<Rightarrow> int \<Rightarrow> string \<Rightarrow>
     ((GameEntity \<times> string option \<times> string option) option \<times> 's service) option" where
  "leaveGame_handler R shuffle w game session = do {
     w \<leftarrow> leaveGame R shuffle w game session;
     case find_game R (db w) game of
       None \<Rightarrow> Some (None, w)
     | Some g \<Rightarrow> Some (Some (g, map_option sessionId (player1 g), map_option sessionId (player2 g)), w) }"

text \<open>
  The page of a game: names, sessions and identifiers of the players, and the version number. The
  identifier of the first player is read without a test for null.
\<close>

datatype page =
    gamePlay int "string option" "string option" "string option" "string option" int "int option" int
  | gameNotFound

definition gamePlayPage :: "'s repositories \<Rightarrow> 's \<Rightarrow> int \<Rightarrow> int \<Rightarrow> page option" where
  "gamePlayPage R s version game =
     (case find_game R s game of
        None \<Rightarrow> Some gameNotFound
      | Some g \<Rightarrow> do {
          p1 \<leftarrow> player1 g;
          Some (gamePlay game
            (map_option username (player1 g)) (map_option username (player2 g))
            (map_option sessionId (player1 g)) (map_option sessionId (player2 g))
            (playerId p1) (map_option playerId (player2 g)) version) })"

end
