(* ===== verification/War_Game_Rounds.thy ===== *)
theory War_Game_Rounds
  imports War_Game
begin

text \<open>
  What the card game relies on from the repositories, the hands of the two players as lists of cards,
  the exact outcome of drawing and of a war on hands, and the invariant of the table: no
  card is in two places.
\<close>

section \<open>What the code relies on\<close>

definition owned :: "int \<Rightarrow> CardsEntity \<Rightarrow> bool" where
  "owned p c \<longleftrightarrow> (case players c of None \<Rightarrow> False | Some q \<Rightarrow> playerId q = p)"

definition put :: "CardsEntity \<Rightarrow> CardsEntity \<Rightarrow> CardsEntity" where
  "put c d = (if cardId d = cardId c then c else d)"

text \<open>
  The laws of the repositories, for the databases that satisfy \<open>ok\<close>: identifiers are unique; a card
  refers to a player in the table of players, as the foreign key of the schema demands; a player
  found by session is in that table; the query by player returns the cards of that player
  ordered by \<open>dealOrder\<close>; saving a card whose identifier is in the table and whose player exists
  replaces that row and nothing else. The order of \<open>findAll\<close> is not specified.
\<close>

definition refers :: "'s repositories \<Rightarrow> 's \<Rightarrow> CardsEntity \<Rightarrow> bool" where
  "refers R s c \<longleftrightarrow> (case players c of None \<Rightarrow> True | Some p \<Rightarrow> find_player R s (playerId p) \<noteq> None)"

definition cards_laws :: "'s repositories \<Rightarrow> ('s \<Rightarrow> bool) \<Rightarrow> bool" where
  "cards_laws R ok \<longleftrightarrow>
     (\<forall>s. ok s \<longrightarrow> distinct (map cardId (findAll R s)) \<and> (\<forall>c \<in> set (findAll R s). refers R s c)) \<and>
     (\<forall>s x p. ok s \<and> findPlayerBySessionId R s x = Some p \<longrightarrow> find_player R s (playerId p) \<noteq> None) \<and>
     (\<forall>s p. ok s \<longrightarrow> mset (findCardsByPlayer R s p) = mset (filter (owned p) (findAll R s)) \<and>
                     sorted (map dealOrder (findCardsByPlayer R s p))) \<and>
     (\<forall>s c. ok s \<and> cardId c \<in> cardId ` set (findAll R s) \<and> refers R s c \<longrightarrow>
        ok (save_card R s c) \<and>
        mset (findAll R (save_card R s c)) = mset (map (put c) (findAll R s)) \<and>
        find_player R (save_card R s c) = find_player R s \<and>
        findPlayerBySessionId R (save_card R s c) = findPlayerBySessionId R s \<and>
        find_game R (save_card R s c) = find_game R s)"

lemma laws_ids: "cards_laws R ok \<Longrightarrow> ok s \<Longrightarrow> distinct (map cardId (findAll R s))"
  by (simp add: cards_laws_def)

lemma laws_refers: "cards_laws R ok \<Longrightarrow> ok s \<Longrightarrow> c \<in> set (findAll R s) \<Longrightarrow> refers R s c"
  by (simp add: cards_laws_def)

lemma laws_session:
  "cards_laws R ok \<Longrightarrow> ok s \<Longrightarrow> findPlayerBySessionId R s x = Some p \<Longrightarrow> find_player R s (playerId p) \<noteq> None"
  unfolding cards_laws_def by blast

lemma laws_query:
  assumes "cards_laws R ok" "ok s"
  shows "mset (findCardsByPlayer R s p) = mset (filter (owned p) (findAll R s))"
    and "sorted (map dealOrder (findCardsByPlayer R s p))"
  using assms by (auto simp: cards_laws_def)

lemma laws_save:
  assumes "cards_laws R ok" "ok s" "cardId c \<in> cardId ` set (findAll R s)" "refers R s c"
  shows "ok (save_card R s c)"
    and "mset (findAll R (save_card R s c)) = mset (map (put c) (findAll R s))"
    and "find_player R (save_card R s c) = find_player R s"
    and "findPlayerBySessionId R (save_card R s c) = findPlayerBySessionId R s"
    and "find_game R (save_card R s c) = find_game R s"
  using assms by (auto simp: cards_laws_def)

lemma sorted_unique:
  assumes "mset xs = mset ys" "sorted (map f xs)" "sorted (map f ys)" "distinct (map f xs)"
  shows "xs = ys"
proof -
  have "inj_on f (set xs)" using assms(4) by (simp add: distinct_map)
  then have "sort_key f xs = ys" using sort_key_inj_key_eq [OF assms(1) _ assms(3)] by blast
  moreover have "sort_key f xs = xs"
    using sort_key_inj_key_eq [OF refl _ assms(2)] \<open>inj_on f (set xs)\<close> by blast
  ultimately show ?thesis by simp
qed

lemma find_filter: "find P xs = (case filter P xs of [] \<Rightarrow> None | x # _ \<Rightarrow> Some x)"
  by (induction xs) auto

section \<open>Hands\<close>

definition mark :: "CardsEntity \<Rightarrow> CardsEntity" where
  "mark c = c\<lparr>isPlayed := True\<rparr>"

lemma mark_simps [simp]:
  "cardId (mark c) = cardId c" "rank (mark c) = rank c" "isPlayed (mark c)"
  "dealOrder (mark c) = dealOrder c" "owned p (mark c) = owned p c" "refers R s (mark c) = refers R s c"
  by (simp_all add: mark_def owned_def refers_def)

definition hand :: "'s repositories \<Rightarrow> 's \<Rightarrow> int \<Rightarrow> CardsEntity list" where
  "hand R s p = filter (\<lambda>c. \<not> isPlayed c) (findCardsByPlayer R s p)"

definition orders :: "'s repositories \<Rightarrow> 's \<Rightarrow> int \<Rightarrow> bool" where
  "orders R s p \<longleftrightarrow> distinct (map dealOrder (findCardsByPlayer R s p))"

lemma play_next_hand:
  "play_next (findCardsByPlayer R s p) = (case hand R s p of [] \<Rightarrow> None | c # _ \<Rightarrow> Some (mark c))"
  by (simp add: play_next_def find_filter hand_def mark_def split: list.split)

lemma query_subset:
  assumes "cards_laws R ok" "ok s"
  shows "set (findCardsByPlayer R s p) = {c \<in> set (findAll R s). owned p c}"
  using laws_query(1) [OF assms, of p, THEN mset_eq_setD] by auto

lemma save_query:
  assumes laws: "cards_laws R ok" and s: "ok s" and c: "c \<in> set (findAll R s)" and o: "orders R s p"
  shows "findCardsByPlayer R (save_card R s (mark c)) p = map (put (mark c)) (findCardsByPlayer R s p)"
proof -
  let ?s = "save_card R s (mark c)"
  have same: "put (mark c) d = (if d = c then mark c else d)" if "d \<in> set (findAll R s)" for d
    using laws_ids [OF laws s] c that by (auto simp: put_def distinct_map dest: inj_onD)
  have idc: "cardId (mark c) \<in> cardId ` set (findAll R s)" using c by simp
  have rc: "refers R s (mark c)" using laws_refers [OF laws s c] by simp
  note sv = laws_save [OF laws s idc rc]
  have keys: "map dealOrder (map (put (mark c)) (findCardsByPlayer R s p)) = map dealOrder (findCardsByPlayer R s p)"
    using query_subset [OF laws s, of p] by (auto simp: same)
  have "mset (filter (owned p) (findAll R ?s)) = mset (filter (owned p) (map (put (mark c)) (findAll R s)))"
    unfolding mset_filter sv(2) ..
  also have "filter (owned p) (map (put (mark c)) (findAll R s)) = map (put (mark c)) (filter (owned p) (findAll R s))"
    by (auto simp: filter_map same split: if_splits intro!: arg_cong [of _ _ "map _"] filter_cong)
  also have "mset \<dots> = mset (map (put (mark c)) (findCardsByPlayer R s p))"
    using laws_query(1) [OF laws s, of p] by simp
  finally have "mset (map (put (mark c)) (findCardsByPlayer R s p)) = mset (findCardsByPlayer R ?s p)"
    using laws_query(1) [OF laws sv(1), of p] by simp
  then show ?thesis
    using sorted_unique [of _ _ dealOrder] laws_query(2) [OF laws s, of p] laws_query(2) [OF laws sv(1), of p] o
    unfolding keys [symmetric] orders_def by metis
qed

lemma hand_save:
  assumes laws: "cards_laws R ok" and s: "ok s" and c: "c \<in> set (findAll R s)" and o: "orders R s p"
  shows "hand R (save_card R s (mark c)) p = filter (\<lambda>d. d \<noteq> c) (hand R s p)"
    and "orders R (save_card R s (mark c)) p"
proof -
  have same: "put (mark c) d = (if d = c then mark c else d)" if "d \<in> set (findCardsByPlayer R s p)" for d
    using laws_ids [OF laws s] c that query_subset [OF laws s, of p]
    by (auto simp: put_def distinct_map dest: inj_onD)
  have m: "findCardsByPlayer R (save_card R s (mark c)) p =
      map (\<lambda>d. if d = c then mark c else d) (findCardsByPlayer R s p)"
    unfolding save_query [OF assms] by (rule map_cong) (auto simp: same)
  have "filter (\<lambda>d. \<not> isPlayed d) (map (\<lambda>d. if d = c then mark c else d) xs) =
      filter (\<lambda>d. d \<noteq> c) (filter (\<lambda>d. \<not> isPlayed d) xs)" for xs
    by (induction xs) auto
  then show "hand R (save_card R s (mark c)) p = filter (\<lambda>d. d \<noteq> c) (hand R s p)"
    by (simp add: hand_def m)
  have "map dealOrder (map (\<lambda>d. if d = c then mark c else d) xs) = map dealOrder xs" for xs by simp
  then show "orders R (save_card R s (mark c)) p" using o unfolding orders_def m by metis
qed

section \<open>Rounds on hands\<close>

definition game_rel ::
  "'s repositories \<Rightarrow> ('s \<Rightarrow> bool) \<Rightarrow> int \<Rightarrow> PlayersEntity \<Rightarrow> PlayersEntity \<Rightarrow> 's service \<Rightarrow> CardsEntity list \<Rightarrow> CardsEntity list \<Rightarrow> bool" where
  "game_rel R ok g P Q w h1 h2 \<longleftrightarrow>
     cards_laws R ok \<and> ok (db w) \<and> playerId P \<noteq> playerId Q \<and>
     orders R (db w) (playerId P) \<and> orders R (db w) (playerId Q) \<and>
     hand R (db w) (playerId P) = h1 \<and> hand R (db w) (playerId Q) = h2 \<and>
     find_player R (db w) (playerId P) = Some P \<and> find_player R (db w) (playerId Q) = Some Q \<and> find_game R (db w) g \<noteq> None"

lemma game_rel_sym: "game_rel R ok g P Q w h1 h2 \<longleftrightarrow> game_rel R ok g Q P w h2 h1"
  by (auto simp: game_rel_def)

lemma game_rel_db: "db w' = db w \<Longrightarrow> game_rel R ok g P Q w' h1 h2 = game_rel R ok g P Q w h1 h2"
  by (simp add: game_rel_def)

lemma hand_owned:
  assumes "cards_laws R ok" "ok s" "c \<in> set (hand R s p)"
  shows "c \<in> set (findAll R s)" "owned p c" "\<not> isPlayed c"
  using assms query_subset [OF assms(1,2), of p] by (auto simp: hand_def)

lemma owned_unique: "owned p c \<Longrightarrow> owned q c \<Longrightarrow> p = q"
  by (auto simp: owned_def split: option.splits)

lemma hand_distinct:
  assumes "orders R s p"
  shows "distinct (hand R s p)"
  using assms by (auto simp: orders_def hand_def distinct_map)

lemma game_rel_draw:
  assumes r: "game_rel R ok g P Q w (c # h1) h2"
  shows "game_rel R ok g P Q (w\<lparr>db := save_card R (db w) (mark c)\<rparr>) h1 h2"
proof -
  have laws: "cards_laws R ok" and s: "ok (db w)" and pq: "playerId P \<noteq> playerId Q"
    and op: "orders R (db w) (playerId P)" and oq: "orders R (db w) (playerId Q)"
    and hp: "hand R (db w) (playerId P) = c # h1" and hq: "hand R (db w) (playerId Q) = h2"
    using r by (auto simp: game_rel_def)
  have c: "c \<in> set (findAll R (db w))" "owned (playerId P) c" using hand_owned [OF laws s, of c "playerId P"] hp by auto
  have id: "cardId (mark c) \<in> cardId ` set (findAll R (db w))" using c by simp
  have rc: "refers R (db w) (mark c)" using laws_refers [OF laws s c(1)] by simp
  have "c \<notin> set h1" using hand_distinct [OF op] hp by simp
  then have "filter (\<lambda>d. d \<noteq> c) (c # h1) = h1" by (auto simp: filter_id_conv)
  moreover have "c \<notin> set h2" using hand_owned(2) [OF laws s, of c "playerId Q"] hq c(2) pq owned_unique by blast
  then have "filter (\<lambda>d. d \<noteq> c) h2 = h2" by (auto simp: filter_id_conv)
  ultimately show ?thesis
    using r hand_save [OF laws s c(1) op] hand_save [OF laws s c(1) oq] laws_save [OF laws s id rc] hp hq
    by (simp add: game_rel_def)
qed

lemma draw_some:
  assumes "game_rel R ok g P Q w (c # h1) h2"
  shows "drawNextCard R w (playerId P) = (Some (mark c), w\<lparr>db := save_card R (db w) (mark c)\<rparr>)"
  using assms by (simp add: drawNextCard_def play_next_hand game_rel_def)

lemma draw_none:
  assumes "game_rel R ok g P Q w [] h2"
  shows "drawNextCard R w (playerId P) = (None, w)"
  using assms by (simp add: drawNextCard_def play_next_hand game_rel_def)

text \<open>The cards that a war draws from two hands, in the order of the draws.\<close>

fun war_pot :: "nat \<Rightarrow> CardsEntity list \<Rightarrow> CardsEntity list \<Rightarrow> CardsEntity list" where
  "war_pot 0 h1 h2 = []"
| "war_pot (Suc n) [] h2 = []"
| "war_pot (Suc n) (c # h1) [] = [mark c]"
| "war_pot (Suc n) (c # h1) (d # h2) = mark c # mark d # war_pot n h1 h2"

definition war_status :: "nat \<Rightarrow> CardsEntity list \<Rightarrow> CardsEntity list \<Rightarrow> war_end" where
  "war_status n h1 h2 =
     (if n \<le> length h1 \<and> n \<le> length h2 then Drawn
      else if length h1 \<le> length h2 then Player1Out else Player2Out)"

lemma war_draw_exact:
  assumes "game_rel R ok g P Q w h1 h2"
  shows "\<exists>s. war_draw R (playerId P) (playerId Q) n pot w = (war_status n h1 h2, pot @ war_pot n h1 h2, w\<lparr>db := s\<rparr>)
           \<and> game_rel R ok g P Q (w\<lparr>db := s\<rparr>) (drop (min n (length h2 + 1)) h1) (drop (min n (length h1)) h2)"
  using assms
proof (induction n h1 h2 arbitrary: w pot rule: war_pot.induct)
  case (1 h1 h2)
  then show ?case by (intro exI [of _ "db w"]) (simp add: war_status_def)
next
  case (2 n h2)
  then show ?case by (intro exI [of _ "db w"]) (simp add: war_status_def draw_none)
next
  case (3 n c h1)
  let ?w = "w\<lparr>db := save_card R (db w) (mark c)\<rparr>"
  have "game_rel R ok g Q P ?w [] h1" using game_rel_draw [OF 3] game_rel_sym by blast
  note n = draw_none [OF this]
  show ?case
    by (intro exI [of _ "save_card R (db w) (mark c)"])
      (use game_rel_draw [OF 3] in \<open>simp add: war_status_def draw_some [OF 3] n\<close>)
next
  case (4 n c h1 d h2)
  let ?w = "w\<lparr>db := save_card R (db w) (mark c)\<rparr>"
  have r1: "game_rel R ok g Q P ?w (d # h2) h1" using game_rel_draw [OF "4.prems"] game_rel_sym by blast
  let ?v = "?w\<lparr>db := save_card R (db ?w) (mark d)\<rparr>"
  have r2: "game_rel R ok g P Q ?v h1 h2" using game_rel_draw [OF r1] game_rel_sym by blast
  obtain s where "war_draw R (playerId P) (playerId Q) n (pot @ [mark c, mark d]) ?v =
      (war_status n h1 h2, (pot @ [mark c, mark d]) @ war_pot n h1 h2, ?v\<lparr>db := s\<rparr>)"
    "game_rel R ok g P Q (?v\<lparr>db := s\<rparr>) (drop (min n (length h2 + 1)) h1) (drop (min n (length h1)) h2)"
    using "4.IH" [OF r2] by blast
  then show ?case
    by (intro exI [of _ s]) (simp add: war_status_def draw_some [OF "4.prems"] draw_some [OF r1])
qed


section \<open>Wars\<close>

text \<open>
  The number of consecutive ties of a war: third cards of the same rank, as long as both players
  have three cards.
\<close>

function tied_wars :: "CardsEntity list \<Rightarrow> CardsEntity list \<Rightarrow> nat" where
  "tied_wars h1 h2 =
     (if 3 \<le> length h1 \<and> 3 \<le> length h2 \<and> rank (h1 ! 2) = rank (h2 ! 2)
      then Suc (tied_wars (drop 3 h1) (drop 3 h2)) else 0)"
  by pat_completeness auto
termination by (relation "measure (\<lambda>(h1, h2). length h1)") auto

declare tied_wars.simps [simp del]

text \<open>
  The two piles of captured cards after a war that a player cannot continue: the cards go to the
  player who has captured more, if there is one.
\<close>

definition spoils ::
  "PlayersEntity \<Rightarrow> PlayersEntity \<Rightarrow> CardsEntity list \<Rightarrow> CardsEntity list \<Rightarrow> CardsEntity list \<Rightarrow>
     CardsEntity list \<times> CardsEntity list" where
  "spoils P Q C1 C2 pot =
     (let leader = (if length C1 > length C2 then username P
                    else if length C1 < length C2 then username Q else ''It was a tie'')
      in if leader = username P then (C1 @ pot, C2)
         else if leader = username Q then (C1, C2 @ pot)
         else (C1, C2))"

text \<open>The piles after a war over the cards \<open>c1\<close> and \<open>c2\<close> that is not tied.\<close>

definition war_piles ::
  "PlayersEntity \<Rightarrow> PlayersEntity \<Rightarrow> CardsEntity list \<Rightarrow> CardsEntity list \<Rightarrow> CardsEntity \<Rightarrow> CardsEntity \<Rightarrow>
     CardsEntity list \<Rightarrow> CardsEntity list \<Rightarrow> CardsEntity list \<times> CardsEntity list" where
  "war_piles P Q C1 C2 c1 c2 a b =
     (let pot = [c1, c2] @ war_pot 3 a b
      in if 3 \<le> length a \<and> 3 \<le> length b
         then if rank (a ! 2) > rank (b ! 2) then (C1 @ pot, C2) else (C1, C2 @ pot)
         else spoils P Q C1 C2 pot)"

lemma declare_exact:
  assumes "game_rel R ok g P Q w h1 h2"
    and "spoils P Q (player1CapturedCards w) (player2CapturedCards w) pot = (D1, D2)"
  shows "\<exists>m. declareWinnerAndAddWarCards R w g (playerId P) (playerId Q) pot =
      Some (w\<lparr>player1CapturedCards := D1, player2CapturedCards := D2, sent := m\<rparr>)"
proof -
  have f: "find_player R (db w) (playerId P) = Some P" "find_player R (db w) (playerId Q) = Some Q"
    "find_game R (db w) g \<noteq> None"
    using assms(1) by (simp_all add: game_rel_def)
  define leader where "leader =
    (if length (player1CapturedCards w) > length (player2CapturedCards w) then username P
     else if length (player1CapturedCards w) < length (player2CapturedCards w) then username Q else ''It was a tie'')"
  have l: "declareWinner R w g (playerId P) (playerId Q) = Some leader"
    using f by (auto simp: declareWinner_def leader_def)
  have sp: "(if leader = username P then (player1CapturedCards w @ pot, player2CapturedCards w)
      else if leader = username Q then (player1CapturedCards w, player2CapturedCards w @ pot)
      else (player1CapturedCards w, player2CapturedCards w)) = (D1, D2)"
    using assms(2) unfolding spoils_def Let_def leader_def .
  consider "leader = username P" | "leader \<noteq> username P" "leader = username Q"
    | "leader \<noteq> username P" "leader \<noteq> username Q" by blast
  then show ?thesis
    using sp unfolding declareWinnerAndAddWarCards_def l f
    by cases (auto simp: capture1_def capture2_def convertAndSend_def)
qed

lemma war_pot_3:
  assumes "3 \<le> length a" "3 \<le> length b"
  shows "war_pot 3 a b = [mark (a ! 0), mark (b ! 0), mark (a ! 1), mark (b ! 1), mark (a ! 2), mark (b ! 2)]"
proof -
  obtain a0 a1 a2 a' where a: "a = a0 # a1 # a2 # a'"
    using assms(1) by (auto simp: numeral_3_eq_3 Suc_le_length_iff)
  obtain b0 b1 b2 b' where b: "b = b0 # b1 # b2 # b'"
    using assms(2) by (auto simp: numeral_3_eq_3 Suc_le_length_iff)
  show ?thesis by (simp add: a b numeral_3_eq_3)
qed

text \<open>A war that is not tied ends: one player wins it or a player has no card left.\<close>

lemma war_untied:
  assumes r: "game_rel R ok g P Q w h1 h2" and c: "playedCard1 w = Some c1" "playedCard2 w = Some c2"
    and k: "tied_wars h1 h2 = 0"
    and D: "war_piles P Q (player1CapturedCards w) (player2CapturedCards w) c1 c2 h1 h2 = (D1, D2)"
  shows "\<exists>s m. war R (playerId P) (playerId Q) g w =
             Some (w\<lparr>db := s, player1CapturedCards := D1, player2CapturedCards := D2, sent := m\<rparr>) \<and>
           game_rel R ok g P Q (w\<lparr>db := s\<rparr>) (drop (min 3 (length h2 + 1)) h1) (drop (min 3 (length h1)) h2)"
proof -
  obtain s where d: "war_draw R (playerId P) (playerId Q) 3 [c1, c2] w =
      (war_status 3 h1 h2, [c1, c2] @ war_pot 3 h1 h2, w\<lparr>db := s\<rparr>)"
    and r': "game_rel R ok g P Q (w\<lparr>db := s\<rparr>) (drop (min 3 (length h2 + 1)) h1) (drop (min 3 (length h1)) h2)"
    using war_draw_exact [OF r] by blast
  note unfold = war.simps [of R "playerId P" "playerId Q" g w]
  have "\<exists>m. war R (playerId P) (playerId Q) g w =
      Some (w\<lparr>db := s, player1CapturedCards := D1, player2CapturedCards := D2, sent := m\<rparr>)"
  proof (cases "3 \<le> length h1 \<and> 3 \<le> length h2")
    case False
    then have st: "war_status 3 h1 h2 \<noteq> Drawn" by (auto simp: war_status_def)
    obtain m where m: "declareWinnerAndAddWarCards R (w\<lparr>db := s\<rparr>) g (playerId P) (playerId Q) ([c1, c2] @ war_pot 3 h1 h2) =
      Some (w\<lparr>db := s, player1CapturedCards := D1, player2CapturedCards := D2, sent := m\<rparr>)"
      using declare_exact [OF r', of "[c1, c2] @ war_pot 3 h1 h2"] D
      unfolding war_piles_def Let_def if_not_P [OF False] by auto
    from st consider "war_status 3 h1 h2 = Player1Out" | "war_status 3 h1 h2 = Player2Out"
      using war_end.exhaust by blast
    then show ?thesis
    proof cases
      case 1
      show ?thesis
        unfolding unfold c Option.bind_lunit d 1 by (rule exI [of _ "m @ [War_occurred]"]) (simp add: m [simplified] convertAndSend_def)
    next
      case 2
      show ?thesis
        unfolding unfold c Option.bind_lunit d 2 by (rule exI [of _ m]) (simp add: m [simplified])
    qed
  next
    case True
    then have st: "war_status 3 h1 h2 = Drawn" by (simp add: war_status_def)
    have "rank (h1 ! 2) \<noteq> rank (h2 ! 2)" using k True by (auto simp: tied_wars.simps [of h1 h2])
    then consider "rank (h1 ! 2) > rank (h2 ! 2)" | "rank (h1 ! 2) < rank (h2 ! 2)" by linarith
    then show ?thesis
    proof cases
      case 1
      have e: "D1 = player1CapturedCards w @ [c1, c2] @ war_pot 3 h1 h2" "D2 = player2CapturedCards w"
        using D 1 True by (simp_all add: war_piles_def)
      show ?thesis unfolding unfold c Option.bind_lunit d st
        by (rule exI [of _ "sent w @ [Captured1 D1]"])
          (use 1 True in \<open>simp add: war_pot_3 e capture1_def convertAndSend_def Let_def\<close>)
    next
      case 2
      have e: "D1 = player1CapturedCards w" "D2 = player2CapturedCards w @ [c1, c2] @ war_pot 3 h1 h2"
        using D 2 True by (simp_all add: war_piles_def)
      show ?thesis unfolding unfold c Option.bind_lunit d st
        by (rule exI [of _ "sent w @ [Captured2 D2]"])
          (use 2 True in \<open>simp add: war_pot_3 e capture2_def convertAndSend_def Let_def\<close>)
    qed
  qed
  with r' show ?thesis by blast
qed

lemma war_tied:
  assumes r: "game_rel R ok g P Q w h1 h2" and c: "playedCard1 w = Some c1" "playedCard2 w = Some c2"
    and t: "3 \<le> length h1" "3 \<le> length h2" "rank (h1 ! 2) = rank (h2 ! 2)"
  shows "\<exists>s m. war R (playerId P) (playerId Q) g w = war R (playerId P) (playerId Q) g (w\<lparr>db := s, sent := m\<rparr>) \<and>
           game_rel R ok g P Q (w\<lparr>db := s, sent := m\<rparr>) (drop 3 h1) (drop 3 h2)"
proof -
  obtain s where d: "war_draw R (playerId P) (playerId Q) 3 [c1, c2] w =
      (Drawn, [c1, c2] @ war_pot 3 h1 h2, w\<lparr>db := s\<rparr>)"
    and r': "game_rel R ok g P Q (w\<lparr>db := s\<rparr>) (drop 3 h1) (drop 3 h2)"
    using war_draw_exact [OF r, of 3 "[c1, c2]"] t(1,2) by (auto simp: war_status_def min_def split: if_splits)
  have "war R (playerId P) (playerId Q) g w = war R (playerId P) (playerId Q) g (convertAndSend War_occurred (w\<lparr>db := s\<rparr>))"
    by (subst war.simps) (simp add: c d war_pot_3 [OF t(1,2)] t(3))
  moreover have "game_rel R ok g P Q (convertAndSend War_occurred (w\<lparr>db := s\<rparr>)) (drop 3 h1) (drop 3 h2)"
    using r' game_rel_db [of "convertAndSend War_occurred (w\<lparr>db := s\<rparr>)" "w\<lparr>db := s\<rparr>"] by (simp add: convertAndSend_def)
  ultimately show ?thesis by (auto simp: convertAndSend_def)
qed

lemma war_exact:
  assumes "game_rel R ok g P Q w h1 h2" "playedCard1 w = Some c1" "playedCard2 w = Some c2"
    and "a = drop (3 * tied_wars h1 h2) h1" "b = drop (3 * tied_wars h1 h2) h2"
    and "war_piles P Q (player1CapturedCards w) (player2CapturedCards w) c1 c2 a b = (D1, D2)"
  shows "\<exists>s m. war R (playerId P) (playerId Q) g w =
             Some (w\<lparr>db := s, player1CapturedCards := D1, player2CapturedCards := D2, sent := m\<rparr>) \<and>
           game_rel R ok g P Q (w\<lparr>db := s\<rparr>) (drop (min 3 (length b + 1)) a) (drop (min 3 (length a)) b)"
  using assms
proof (induction h1 h2 arbitrary: w rule: tied_wars.induct)
  case (1 h1 h2)
  show ?case
  proof (cases "3 \<le> length h1 \<and> 3 \<le> length h2 \<and> rank (h1 ! 2) = rank (h2 ! 2)")
    case False
    then have k: "tied_wars h1 h2 = 0" unfolding tied_wars.simps [of h1 h2] by (rule if_not_P)
    then show ?thesis using war_untied [OF "1.prems"(1,2,3) k] "1.prems"(4,5,6) by simp
  next
    case True
    then have k: "tied_wars h1 h2 = Suc (tied_wars (drop 3 h1) (drop 3 h2))"
      unfolding tied_wars.simps [of h1 h2] by (rule if_P)
    obtain s m where w: "war R (playerId P) (playerId Q) g w = war R (playerId P) (playerId Q) g (w\<lparr>db := s, sent := m\<rparr>)"
      and r: "game_rel R ok g P Q (w\<lparr>db := s, sent := m\<rparr>) (drop 3 h1) (drop 3 h2)"
      using war_tied [OF "1.prems"(1,2,3)] True by blast
    have pre: "a = drop (3 * tied_wars (drop 3 h1) (drop 3 h2)) (drop 3 h1)"
      "b = drop (3 * tied_wars (drop 3 h1) (drop 3 h2)) (drop 3 h2)"
      using "1.prems"(4,5) unfolding k by (simp_all add: add.commute)
    have "war_piles P Q (player1CapturedCards (w\<lparr>db := s, sent := m\<rparr>)) (player2CapturedCards (w\<lparr>db := s, sent := m\<rparr>)) c1 c2 a b = (D1, D2)"
      using "1.prems"(6) by simp
    from "1.IH" [OF True r _ _ pre this] "1.prems"(2,3) obtain s' m' where
      e: "war R (playerId P) (playerId Q) g (w\<lparr>db := s, sent := m\<rparr>) =
        Some (w\<lparr>db := s, sent := m, db := s', player1CapturedCards := D1, player2CapturedCards := D2, sent := m'\<rparr>)"
      and q: "game_rel R ok g P Q (w\<lparr>db := s, sent := m, db := s'\<rparr>) (drop (min 3 (length b + 1)) a) (drop (min 3 (length a)) b)"
      by auto
    have "game_rel R ok g P Q (w\<lparr>db := s'\<rparr>) (drop (min 3 (length b + 1)) a) (drop (min 3 (length a)) b)"
      using q by (simp add: game_rel_def)
    with e show ?thesis unfolding w by (intro exI [of _ s'] exI [of _ m'] conjI) simp_all
  qed
qed

section \<open>No card is duplicated\<close>

abbreviation ids :: "CardsEntity list \<Rightarrow> int multiset" where
  "ids cs \<equiv> mset (map cardId cs)"

lemma ids_drop: "ids (drop n xs) \<subseteq># ids xs"
  by (metis append_take_drop_id map_append mset_append mset_subset_eq_add_right)

lemma ids_war_pot:
  "ids (war_pot n a b) + ids (drop (min n (length b + 1)) a) + ids (drop (min n (length a)) b) = ids a + ids b"
  by (induction n a b rule: war_pot.induct) (simp_all add: mark_def)

lemma war_piles_ids:
  assumes "war_piles P Q C1 C2 c1 c2 a b = (D1, D2)"
  shows "ids D1 + ids D2 \<subseteq># ids C1 + ids C2 + ids [c1, c2] + ids (war_pot 3 a b)"
proof -
  have "(D1, D2) \<in> {(C1 @ [c1, c2] @ war_pot 3 a b, C2), (C1, C2 @ [c1, c2] @ war_pot 3 a b), (C1, C2)}"
    using assms unfolding war_piles_def spoils_def Let_def by (auto split: if_splits)
  then show ?thesis by auto
qed

lemma round_ids:
  assumes "war_piles P Q C1 C2 c1 c2 a b = (D1, D2)" and "a = drop k h1" "b = drop k h2"
  shows "ids (D1 @ D2 @ drop (min 3 (length b + 1)) a @ drop (min 3 (length a)) b)
    \<subseteq># ids (C1 @ C2 @ [c1, c2] @ h1 @ h2)"
proof -
  let ?x = "drop (min 3 (length b + 1)) a" and ?y = "drop (min 3 (length a)) b"
  have "ids D1 + ids D2 + (ids ?x + ids ?y)
      \<subseteq># (ids C1 + ids C2 + ids [c1, c2] + ids (war_pot 3 a b)) + (ids ?x + ids ?y)"
    using war_piles_ids [OF assms(1)] by (rule mset_subset_eq_mono_add) simp
  also have "\<dots> = ids C1 + ids C2 + ids [c1, c2] + (ids a + ids b)"
    using ids_war_pot [of 3 a b] by (simp add: ac_simps)
  also have "\<dots> \<subseteq># ids C1 + ids C2 + ids [c1, c2] + (ids h1 + ids h2)"
    unfolding assms(2,3) by (intro subset_mset.add_mono subset_mset.order_refl ids_drop)
  finally show ?thesis by (simp add: ac_simps)
qed

lemma gameRound_returns:
  assumes r: "game_rel R ok g P Q w h1 h2" and c: "playedCard1 w = Some c1" "playedCard2 w = Some c2"
  shows "\<exists>s m D1 D2 h1' h2'.
      gameRound R w (playerId P) (playerId Q) g =
        Some (w\<lparr>db := s, player1CapturedCards := D1, player2CapturedCards := D2, sent := m\<rparr>) \<and>
      game_rel R ok g P Q (w\<lparr>db := s\<rparr>) h1' h2' \<and>
      ids (D1 @ D2 @ h1' @ h2') \<subseteq># ids (player1CapturedCards w @ player2CapturedCards w @ [c1, c2] @ h1 @ h2)"
proof -
  consider "rank c1 > rank c2" | "rank c1 < rank c2" | "rank c1 = rank c2" by linarith
  then show ?thesis
  proof cases
    case 1
    show ?thesis
      by (intro exI [of _ "db w"] exI [of _ "sent w @ [Captured1 (player1CapturedCards w @ [c1, c2])]"]
          exI [of _ "player1CapturedCards w @ [c1, c2]"] exI [of _ "player2CapturedCards w"] exI [of _ h1] exI [of _ h2])
        (use r c 1 in \<open>simp add: gameRound_def capture1_def convertAndSend_def\<close>)
  next
    case 2
    show ?thesis
      by (intro exI [of _ "db w"] exI [of _ "sent w @ [Captured2 (player2CapturedCards w @ [c1, c2])]"]
          exI [of _ "player1CapturedCards w"] exI [of _ "player2CapturedCards w @ [c1, c2]"] exI [of _ h1] exI [of _ h2])
        (use r c 2 in \<open>simp add: gameRound_def capture2_def convertAndSend_def\<close>)
  next
    case 3
    let ?w = "w\<lparr>sent := sent w @ [War_occurred]\<rparr>"
    have rw: "game_rel R ok g P Q ?w h1 h2" using r by (simp add: game_rel_def)
    have cw: "playedCard1 ?w = Some c1" "playedCard2 ?w = Some c2" using c by simp_all
    define a where "a = drop (3 * tied_wars h1 h2) h1"
    define b where "b = drop (3 * tied_wars h1 h2) h2"
    obtain D1 D2 where D: "war_piles P Q (player1CapturedCards ?w) (player2CapturedCards ?w) c1 c2 a b = (D1, D2)"
      by fastforce
    obtain s m where "war R (playerId P) (playerId Q) g ?w =
        Some (?w\<lparr>db := s, player1CapturedCards := D1, player2CapturedCards := D2, sent := m\<rparr>)"
      and q: "game_rel R ok g P Q (?w\<lparr>db := s\<rparr>) (drop (min 3 (length b + 1)) a) (drop (min 3 (length a)) b)"
      using war_exact [OF rw cw a_def b_def D] by blast
    then have "gameRound R w (playerId P) (playerId Q) g =
        Some (w\<lparr>db := s, player1CapturedCards := D1, player2CapturedCards := D2, sent := m\<rparr>)"
      using c 3 by (simp add: gameRound_def convertAndSend_def)
    moreover have "game_rel R ok g P Q (w\<lparr>db := s\<rparr>) (drop (min 3 (length b + 1)) a) (drop (min 3 (length a)) b)"
      using q by (simp add: game_rel_def)
    moreover have "ids (D1 @ D2 @ drop (min 3 (length b + 1)) a @ drop (min 3 (length a)) b)
        \<subseteq># ids (player1CapturedCards w @ player2CapturedCards w @ [c1, c2] @ h1 @ h2)"
      using round_ids [OF D a_def b_def] by simp
    ultimately show ?thesis by blast
  qed
qed

text \<open>A card that the first player has played and the second has not answered yet.\<close>

definition pending :: "'s service \<Rightarrow> CardsEntity list" where
  "pending w = (if player2Turn w then (case playedCard1 w of None \<Rightarrow> [] | Some c \<Rightarrow> [c]) else [])"

definition stock :: "'s repositories \<Rightarrow> PlayersEntity \<Rightarrow> PlayersEntity \<Rightarrow> 's service \<Rightarrow> CardsEntity list" where
  "stock R P Q w = player1CapturedCards w @ player2CapturedCards w @ pending w @
     hand R (db w) (playerId P) @ hand R (db w) (playerId Q)"

definition table_ok :: "'s repositories \<Rightarrow> ('s \<Rightarrow> bool) \<Rightarrow> int \<Rightarrow> PlayersEntity \<Rightarrow> PlayersEntity \<Rightarrow> 's service \<Rightarrow> bool" where
  "table_ok R ok g P Q w \<longleftrightarrow>
     game_rel R ok g P Q w (hand R (db w) (playerId P)) (hand R (db w) (playerId Q)) \<and>
     (player1Turn w \<longleftrightarrow> \<not> player2Turn w) \<and> (player2Turn w \<longrightarrow> playedCard1 w \<noteq> None) \<and>
     distinct (map cardId (stock R P Q w))"

lemma distinct_submset:
  assumes "mset xs \<subseteq># mset ys" "distinct ys"
  shows "distinct xs"
proof -
  obtain Z where Z: "mset ys = mset xs + Z" using assms(1) mset_subset_eq_exists_conv by blast
  obtain zs where "mset zs = Z" using ex_mset by blast
  then have "mset ys = mset (xs @ zs)" using Z by simp
  then show ?thesis using assms(2) mset_eq_imp_distinct_iff by (metis distinct_append)
qed

lemma game_rel_hands:
  "game_rel R ok g P Q w h1 h2 \<Longrightarrow> hand R (db w) (playerId P) = h1 \<and> hand R (db w) (playerId Q) = h2"
  by (simp add: game_rel_def)

lemma playCard1_ok:
  assumes ok: "table_ok R ok g P Q w"
  shows "\<exists>r w'. playCard1 R w (playerId P) = Some (r, w') \<and> table_ok R ok g P Q w'"
proof -
  have r: "game_rel R ok g P Q w (hand R (db w) (playerId P)) (hand R (db w) (playerId Q))"
    and fp: "find_player R (db w) (playerId P) = Some P"
    using ok by (simp_all add: table_ok_def game_rel_def)
  show ?thesis
  proof (cases "player1Turn w \<and> hand R (db w) (playerId P) \<noteq> []")
    case False
    then show ?thesis using ok fp by (auto simp: playCard1_def play_next_hand Let_def split: list.splits)
  next
    case True
    then obtain c h where h: "hand R (db w) (playerId P) = c # h" by (cases "hand R (db w) (playerId P)") auto
    have turn: "\<not> player2Turn w" using True ok unfolding table_ok_def by blast
    let ?w = "w\<lparr>db := save_card R (db w) (mark c), playedCard1 := Some (mark c), player1Turn := False, player2Turn := True\<rparr>"
    have r': "game_rel R ok g P Q ?w h (hand R (db w) (playerId Q))"
      using game_rel_draw [OF r [unfolded h]] by (simp add: game_rel_def)
    have "stock R P Q ?w = player1CapturedCards w @ player2CapturedCards w @ mark c # h @ hand R (db w) (playerId Q)"
      using game_rel_hands [OF r'] by (simp add: stock_def pending_def)
    moreover have "stock R P Q w = player1CapturedCards w @ player2CapturedCards w @ c # h @ hand R (db w) (playerId Q)"
      using turn h by (simp add: stock_def pending_def)
    ultimately have "map cardId (stock R P Q ?w) = map cardId (stock R P Q w)" by simp
    then have "distinct (map cardId (stock R P Q ?w))" using ok by (simp only: table_ok_def)
    moreover have "game_rel R ok g P Q ?w (hand R (db ?w) (playerId P)) (hand R (db ?w) (playerId Q))"
      using r' game_rel_hands [OF r'] by simp
    ultimately have "table_ok R ok g P Q ?w" by (simp add: table_ok_def)
    then show ?thesis using True fp by (simp add: playCard1_def play_next_hand h)
  qed
qed

lemma playCard2_ok:
  assumes ok: "table_ok R ok g P Q w"
  shows "\<exists>r w'. playCard2 R w (playerId P) (playerId Q) g = Some (r, w') \<and> table_ok R ok g P Q w'"
proof -
  have r: "game_rel R ok g P Q w (hand R (db w) (playerId P)) (hand R (db w) (playerId Q))"
    and fq: "find_player R (db w) (playerId Q) = Some Q"
    using ok by (simp_all add: table_ok_def game_rel_def)
  show ?thesis
  proof (cases "player2Turn w \<and> hand R (db w) (playerId Q) \<noteq> []")
    case False
    then show ?thesis using ok fq by (auto simp: playCard2_def play_next_hand Let_def split: list.splits)
  next
    case True
    then obtain d h where h: "hand R (db w) (playerId Q) = d # h" by (cases "hand R (db w) (playerId Q)") auto
    obtain c where c: "playedCard1 w = Some c" using ok True by (auto simp: table_ok_def)
    let ?w = "w\<lparr>db := save_card R (db w) (mark d), playedCard2 := Some (mark d)\<rparr>"
    have rs: "game_rel R ok g Q P w (d # h) (hand R (db w) (playerId P))"
      using r h by (simp add: game_rel_sym [of _ _ _ Q P])
    have r': "game_rel R ok g P Q ?w (hand R (db w) (playerId P)) h"
      using game_rel_draw [OF rs] by (simp add: game_rel_sym [of _ _ _ Q P] game_rel_def)
    obtain s m D1 D2 h1 h2 where round: "gameRound R ?w (playerId P) (playerId Q) g =
        Some (?w\<lparr>db := s, player1CapturedCards := D1, player2CapturedCards := D2, sent := m\<rparr>)"
      and rel: "game_rel R ok g P Q (?w\<lparr>db := s\<rparr>) h1 h2"
      and sub: "ids (D1 @ D2 @ h1 @ h2) \<subseteq># ids (player1CapturedCards w @ player2CapturedCards w @ [c, mark d] @ hand R (db w) (playerId P) @ h)"
      using gameRound_returns [OF r', of c "mark d"] c by auto
    let ?v = "\<lambda>m. w\<lparr>playedCard2 := Some (mark d), db := s, player1CapturedCards := D1, player2CapturedCards := D2,
      player2Turn := False, player1Turn := True, sent := m\<rparr>"
    have order: "w\<lparr>playedCard2 := Some (mark d), db := s, player1CapturedCards := D1, player2CapturedCards := D2,
      sent := m, player2Turn := False, player1Turn := True\<rparr> = ?v m" by (cases w) simp
    have relv: "game_rel R ok g P Q (?v m) h1 h2" for m using rel by (simp add: game_rel_def)
    have stv: "stock R P Q (?v m) = D1 @ D2 @ h1 @ h2" for m
      using game_rel_hands [OF relv [of m]] by (simp add: stock_def pending_def)
    have "stock R P Q w = player1CapturedCards w @ player2CapturedCards w @ [c] @ hand R (db w) (playerId P) @ d # h"
      using True h c by (simp add: stock_def pending_def)
    then have "ids (player1CapturedCards w @ player2CapturedCards w @ [c, mark d] @ hand R (db w) (playerId P) @ h) = ids (stock R P Q w)"
      by (simp only: map_append mset_append list.map mset.simps mark_simps) (simp add: ac_simps)
    then have "ids (stock R P Q (?v m)) \<subseteq># ids (stock R P Q w)" for m
      using sub unfolding stv by (simp only:)
    then have "distinct (map cardId (stock R P Q (?v m)))" for m
      using ok distinct_submset by (metis table_ok_def)
    then have okv: "table_ok R ok g P Q (?v m)" for m
      using relv [of m] game_rel_hands [OF relv [of m]] by (simp add: table_ok_def)
    have "\<exists>win. declareWinner R (?v m) g (playerId P) (playerId Q) = Some win"
      using relv [of m] by (auto simp: declareWinner_def game_rel_def)
    then obtain win where win: "declareWinner R (?v m) g (playerId P) (playerId Q) = Some win" by blast
    have "\<exists>r. playCard2 R w (playerId P) (playerId Q) g =
        Some (r, ?v (if allCardsPlayed (mark_first (findCardsByPlayer R (db w) (playerId Q))) then m @ [Winner win] else m))"
      using True fq round win by (simp add: playCard2_def play_next_hand h convertAndSend_def order)
    then show ?thesis using okv by blast
  qed
qed

text \<open>The clients of the two players call the two operations in any order.\<close>

inductive plays :: "'s repositories \<Rightarrow> int \<Rightarrow> PlayersEntity \<Rightarrow> PlayersEntity \<Rightarrow> 's service \<Rightarrow> 's service \<Rightarrow> bool"
  for R g P Q where
  first: "playCard1 R w (playerId P) = Some (r, w') \<Longrightarrow> plays R g P Q w w'"
| second: "playCard2 R w (playerId P) (playerId Q) g = Some (r, w') \<Longrightarrow> plays R g P Q w w'"

lemma plays_ok: "(plays R g P Q)\<^sup>*\<^sup>* w w' \<Longrightarrow> table_ok R ok g P Q w \<Longrightarrow> table_ok R ok g P Q w'"
proof (induction rule: rtranclp_induct)
  case (step v w')
  then have v: "table_ok R ok g P Q v" by simp
  from step(2) show ?case using playCard1_ok [OF v] playCard2_ok [OF v] by cases auto
qed simp

lemma hands_distinct:
  assumes "game_rel R ok g P Q w h1 h2"
  shows "distinct (map cardId (h1 @ h2))"
proof -
  have laws: "cards_laws R ok" and s: "ok (db w)" and ne: "playerId P \<noteq> playerId Q"
    and h: "hand R (db w) (playerId P) = h1" "hand R (db w) (playerId Q) = h2"
    and o: "orders R (db w) (playerId P)" "orders R (db w) (playerId Q)"
    using assms by (auto simp: game_rel_def)
  have "set (h1 @ h2) \<subseteq> set (findAll R (db w))"
    using hand_owned(1) [OF laws s] h by auto
  moreover have "set h1 \<inter> set h2 = {}"
    using hand_owned(2) [OF laws s] h ne owned_unique by blast
  then have "distinct (h1 @ h2)" using hand_distinct [OF o(1)] hand_distinct [OF o(2)] h by simp
  ultimately show ?thesis
    using laws_ids [OF laws s] unfolding distinct_map by (meson inj_on_subset)
qed

end
