(* ===== verification/War_Game_Spec.thy ===== *)
theory War_Game_Spec
  imports War_Game_Rounds
begin

text \<open>
  The properties of the card game: wars, play in any order of calls, and the two deals; and the
  repositories over tables on which the concrete instances run.
\<close>

section \<open>Repositories over tables\<close>

text \<open>Repositories over lists of rows, for the concrete instances: a saved row keeps its place.\<close>

record tables =
  t_cards :: "CardsEntity list"
  t_players :: "PlayersEntity list"
  t_games :: "GameEntity list"

definition table_repositories :: "tables repositories" where
  "table_repositories =
     \<lparr>findAll = t_cards,
      findCardsByPlayer = (\<lambda>s p. sort_key dealOrder (filter (owned p) (t_cards s))),
      save_card = (\<lambda>s c. s\<lparr>t_cards := map (put c) (t_cards s)\<rparr>),
      find_player = (\<lambda>s i. find (\<lambda>p. playerId p = i) (t_players s)),
      findPlayerBySessionId = (\<lambda>s x. find (\<lambda>p. sessionId p = x) (t_players s)),
      new_player = (\<lambda>s u x.
        let p = \<lparr>playerId = int (length (t_players s)) + 1, username = u, sessionId = x\<rparr>
        in (s\<lparr>t_players := t_players s @ [p]\<rparr>, p)),
      delete_player = (\<lambda>s p.
        if list_ex (owned (playerId p)) (t_cards s) \<or>
           list_ex (\<lambda>g. list_ex (\<lambda>q. map_option playerId q = Some (playerId p)) [player1 g, player2 g, winner g]) (t_games s)
        then None
        else Some (s\<lparr>t_players := filter (\<lambda>q. playerId q \<noteq> playerId p) (t_players s)\<rparr>)),
      find_game = (\<lambda>s i. find (\<lambda>g. gameId g = i) (t_games s)),
      new_game = (\<lambda>s p st.
        let g = \<lparr>gameId = int (length (t_games s)) + 1, player1 = p, player2 = None, winner = None, gameState = st\<rparr>
        in (s\<lparr>t_games := t_games s @ [g]\<rparr>, g)),
      save_game = (\<lambda>s g. s\<lparr>t_games := map (\<lambda>h. if gameId h = gameId g then g else h) (t_games s)\<rparr>),
      delete_game = (\<lambda>s g. s\<lparr>t_games := filter (\<lambda>h. gameId h \<noteq> gameId g) (t_games s)\<rparr>)\<rparr>"

text \<open>The keys of the schema: identifiers of cards are unique, and a card refers to an existing player.\<close>

definition known_player :: "tables \<Rightarrow> CardsEntity \<Rightarrow> bool" where
  "known_player s c \<longleftrightarrow> (case players c of None \<Rightarrow> True | Some p \<Rightarrow> playerId p \<in> playerId ` set (t_players s))"

definition tables_ok :: "tables \<Rightarrow> bool" where
  "tables_ok s \<longleftrightarrow> distinct (map cardId (t_cards s)) \<and> (\<forall>c \<in> set (t_cards s). known_player s c)"

lemma find_id: "find (\<lambda>p. playerId p = i) xs \<noteq> None \<longleftrightarrow> i \<in> playerId ` set xs"
  by (auto simp: find_None_iff simp del: not_None_eq)

lemma table_refers: "refers table_repositories s c \<longleftrightarrow> known_player s c"
  by (cases "players c") (simp_all add: refers_def known_player_def table_repositories_def find_id del: not_None_eq)

lemma table_session:
  assumes "findPlayerBySessionId table_repositories s x = Some p"
  shows "find_player table_repositories s (playerId p) \<noteq> None"
proof -
  have "p \<in> set (t_players s)" using assms by (auto simp: table_repositories_def find_Some_iff)
  then show ?thesis by (simp add: table_repositories_def find_id del: not_None_eq)
qed

lemma known_player_cards [simp]: "known_player (s\<lparr>t_cards := cs\<rparr>) c = known_player s c"
  by (simp add: known_player_def split: option.split)

lemma map_put_ids: "map cardId (map (put c) xs) = map cardId xs"
  by (simp add: put_def)

lemma table_laws: "cards_laws table_repositories tables_ok"
  unfolding cards_laws_def table_refers
proof (intro conjI allI impI; (elim conjE)?)
  fix s x p
  assume "findPlayerBySessionId table_repositories s x = Some p"
  then show "find_player table_repositories s (playerId p) \<noteq> None" by (rule table_session)
qed (auto simp: table_repositories_def tables_ok_def map_put_ids put_def simp del: map_map)

text \<open>The same, but a saved row becomes the last one, as in a table scan of a database that
  writes a new version of an updated row.\<close>

definition moving_repositories :: "tables repositories" where
  "moving_repositories =
     table_repositories\<lparr>save_card :=
       (\<lambda>s c. s\<lparr>t_cards := filter (\<lambda>d. cardId d \<noteq> cardId c) (t_cards s) @ [c]\<rparr>)\<rparr>"

lemma moved_row:
  assumes "distinct (map cardId xs)" "cardId c \<in> cardId ` set xs"
  shows "mset (filter (\<lambda>d. cardId d \<noteq> cardId c) xs @ [c]) = mset (map (put c) xs)"
  using assms
proof (induction xs)
  case (Cons x xs)
  show ?case
  proof (cases "cardId x = cardId c")
    case True
    then have "\<forall>d \<in> set xs. cardId d \<noteq> cardId c" using Cons.prems(1) by (metis distinct.simps(2) image_eqI list.map(2) set_map)
    then have "filter (\<lambda>d. cardId d \<noteq> cardId c) xs = xs" "map (put c) xs = xs"
      by (simp_all add: filter_id_conv put_def map_idI)
    moreover have "put c x = c" using True by (simp add: put_def)
    ultimately show ?thesis using True by (simp del: mset_map)
  next
    case False
    then show ?thesis using Cons by (auto simp: put_def)
  qed
qed simp

lemma moving_same:
  "findPlayerBySessionId moving_repositories = findPlayerBySessionId table_repositories"
  "find_player moving_repositories = find_player table_repositories"
  by (simp_all add: moving_repositories_def)

lemma moving_laws: "cards_laws moving_repositories tables_ok"
proof -
  have d: "distinct (map cardId (filter (\<lambda>d. cardId d \<noteq> cardId c) xs @ [c]))" if "distinct (map cardId xs)" for c xs
    using that by (auto simp: distinct_map_filter)
  have refers: "refers moving_repositories s c \<longleftrightarrow> known_player s c" for s c
    unfolding table_refers [symmetric] refers_def moving_same ..
  show ?thesis
    unfolding cards_laws_def refers
  proof (intro conjI allI impI; (elim conjE)?)
    fix s x p
    assume "findPlayerBySessionId moving_repositories s x = Some p"
    then show "find_player moving_repositories s (playerId p) \<noteq> None" unfolding moving_same by (rule table_session)
  qed (use d in \<open>auto simp: moving_repositories_def table_repositories_def tables_ok_def moved_row simp del: mset_append mset_map\<close>)
qed

text \<open>Two players, a game and a deck of cards given by owner and rank.\<close>

definition alice :: PlayersEntity where
  "alice = \<lparr>playerId = 1, username = ''alice'', sessionId = ''s1''\<rparr>"

definition bob :: PlayersEntity where
  "bob = \<lparr>playerId = 2, username = ''bob'', sessionId = ''s2''\<rparr>"

definition example_card :: "PlayersEntity option \<Rightarrow> int \<Rightarrow> int \<Rightarrow> CardsEntity" where
  "example_card p i r =
     \<lparr>cardId = i, card_name = '''', suit = '''', rank = r, isPlayed = False, dealOrder = i, players = p\<rparr>"

definition example_tables :: "int list \<Rightarrow> int list \<Rightarrow> tables" where
  "example_tables rs1 rs2 =
     \<lparr>t_cards = map (\<lambda>(i, r). example_card (Some alice) (int i) r) (enumerate 0 rs1) @
                map (\<lambda>(i, r). example_card (Some bob) (int i) r) (enumerate (length rs1) rs2),
      t_players = [alice, bob],
      t_games = [\<lparr>gameId = 1, player1 = Some alice, player2 = Some bob, winner = None, gameState = NEW_GAME\<rparr>]\<rparr>"

definition example_war :: "tables service" where
  "example_war = (CardsService (example_tables [2, 2, 7, 3, 3, 9] [4, 4, 7, 5, 5, 8]))
     \<lparr>playedCard1 := Some (mark (example_card (Some alice) 100 6)), playedCard2 := Some (mark (example_card (Some bob) 101 6))\<rparr>"

lemma example_rel:
  "game_rel table_repositories tables_ok 1 alice bob example_war
     (map (\<lambda>(i, r). example_card (Some alice) i r) [(0, 2), (1, 2), (2, 7), (3, 3), (4, 3), (5, 9)])
     (map (\<lambda>(i, r). example_card (Some bob) i r) [(6, 4), (7, 4), (8, 7), (9, 5), (10, 5), (11, 8)])"
  unfolding game_rel_def
  by (intro conjI, rule table_laws)
    (simp_all add: table_repositories_def tables_ok_def known_player_def example_war_def CardsService_def example_tables_def
      example_card_def alice_def bob_def hand_def orders_def owned_def mark_def enumerate_eq_zip)

text \<open>
  C17. A war between two players with cards in hand always ends, and exactly like this: the
  players draw three cards each, in turn, as often as the third cards tie. The pile of the player
  with the higher third card grows by the two cards that started the war and the six cards of
  the last draw; when a player cannot draw, by the cards drawn so far, and it is the
  pile of the player who has captured more cards. Nothing else changes hands.
\<close>
theorem war_outcome:
  assumes "game_rel R ok g P Q w h1 h2" "playedCard1 w = Some c1" "playedCard2 w = Some c2"
    and "k = tied_wars h1 h2" "a = drop (3 * k) h1" "b = drop (3 * k) h2"
  shows "\<exists>w'. war R (playerId P) (playerId Q) g w = Some w' \<and>
      (player1CapturedCards w', player2CapturedCards w') =
        war_piles P Q (player1CapturedCards w) (player2CapturedCards w) c1 c2 a b \<and>
      hand R (db w') (playerId P) = drop (min 3 (length b + 1)) a \<and>
      hand R (db w') (playerId Q) = drop (min 3 (length a)) b"
proof -
  obtain D1 D2 where D: "war_piles P Q (player1CapturedCards w) (player2CapturedCards w) c1 c2 a b = (D1, D2)"
    by fastforce
  obtain s m where "war R (playerId P) (playerId Q) g w =
      Some (w\<lparr>db := s, player1CapturedCards := D1, player2CapturedCards := D2, sent := m\<rparr>)"
    "game_rel R ok g P Q (w\<lparr>db := s\<rparr>) (drop (min 3 (length b + 1)) a) (drop (min 3 (length a)) b)"
    using war_exact [OF assms(1-3) assms(5,6) [unfolded assms(4)] D] by blast
  then show ?thesis using D game_rel_hands by fastforce
qed

lemma example_tied:
  "tied_wars
     (map (\<lambda>(i, r). example_card (Some alice) i r) [(0, 2), (1, 2), (2, 7), (3, 3), (4, 3), (5, 9)])
     (map (\<lambda>(i, r). example_card (Some bob) i r) [(6, 4), (7, 4), (8, 7), (9, 5), (10, 5), (11, 8)]) = 1"
  by (simp add: tied_wars.simps example_card_def)

lemma example_played:
  "playedCard1 example_war = Some (mark (example_card (Some alice) 100 6))"
  "playedCard2 example_war = Some (mark (example_card (Some bob) 101 6))"
  by (simp_all add: example_war_def)

lemma example_piles: "player1CapturedCards example_war = []" "player2CapturedCards example_war = []"
  by (simp_all add: example_war_def CardsService_def)

lemma example_ids: "playerId alice = 1" "playerId bob = 2"
  by (simp_all add: alice_def bob_def)

theorem war_outcome_witness:
  "\<exists>w'. war table_repositories 1 2 1 example_war = Some w' \<and>
     map cardId (player1CapturedCards w') = [100, 101, 3, 9, 4, 10, 5, 11] \<and> player2CapturedCards w' = []"
  using war_outcome [OF example_rel example_played example_tied [symmetric] refl refl]
  unfolding example_ids example_piles
  by (auto simp: war_piles_def war_pot_3 example_card_def)

text \<open>
  C18. The cards of a tied war are lost: for each tie, the six cards drawn are marked as played and
  no player captures them, because the next round of the war starts a new pile of cards.
\<close>
theorem war_loses_cards:
  assumes "game_rel R ok g P Q w h1 h2" "playedCard1 w = Some c1" "playedCard2 w = Some c2"
    and "k = tied_wars h1 h2" "3 * k + 3 \<le> length h1" "3 * k + 3 \<le> length h2"
  shows "\<exists>w'. war R (playerId P) (playerId Q) g w = Some w' \<and>
      length (player1CapturedCards w') + length (player2CapturedCards w') +
        length (hand R (db w') (playerId P)) + length (hand R (db w') (playerId Q)) + 6 * k =
      length (player1CapturedCards w) + length (player2CapturedCards w) + 2 + length h1 + length h2"
proof -
  define a b where "a = drop (3 * k) h1" and "b = drop (3 * k) h2"
  obtain D1 D2 where D: "war_piles P Q (player1CapturedCards w) (player2CapturedCards w) c1 c2 a b = (D1, D2)"
    by fastforce
  obtain s m where w: "war R (playerId P) (playerId Q) g w =
      Some (w\<lparr>db := s, player1CapturedCards := D1, player2CapturedCards := D2, sent := m\<rparr>)"
    and r: "game_rel R ok g P Q (w\<lparr>db := s\<rparr>) (drop (min 3 (length b + 1)) a) (drop (min 3 (length a)) b)"
    using war_exact [OF assms(1-3) _ _ D] unfolding a_def b_def assms(4) by blast
  have l: "3 \<le> length a" "3 \<le> length b" using assms(5,6) by (simp_all add: a_def b_def)
  have "length D1 + length D2 = length (player1CapturedCards w) + length (player2CapturedCards w) + 8"
    using D l by (auto simp: war_piles_def war_pot_3 Let_def split: if_splits)
  moreover have "hand R s (playerId P) = drop 3 a" "hand R s (playerId Q) = drop 3 b"
    using game_rel_hands [OF r] l by (simp_all add: min_def)
  ultimately show ?thesis using w l assms(5,6) by (simp add: a_def b_def)
qed

theorem war_loses_cards_witness:
  "\<exists>w'. war table_repositories 1 2 1 example_war = Some w' \<and>
     length (player1CapturedCards w') + length (player2CapturedCards w') +
       length (hand table_repositories (db w') 1) + length (hand table_repositories (db w') 2) = 8"
  using war_loses_cards [OF example_rel example_played example_tied [symmetric]]
  unfolding example_ids example_piles by (simp add: add.assoc)

text \<open>
  C3. The two players may call the two operations in any order and at any time, from a table
  where both have been dealt cards and nothing is captured yet: every call returns without an
  exception, it is always exactly one player's turn, and no card is ever in two places (the
  two piles, the card waiting for an answer and the two hands).
\<close>
theorem plays_safe:
  assumes "game_rel R ok g P Q w h1 h2" "player1Turn w" "\<not> player2Turn w"
    and "player1CapturedCards w = []" "player2CapturedCards w = []"
    and "(plays R g P Q)\<^sup>*\<^sup>* w w'"
  shows "distinct (map cardId (player1CapturedCards w' @ player2CapturedCards w' @ pending w' @
           hand R (db w') (playerId P) @ hand R (db w') (playerId Q)))
       \<and> (player1Turn w' \<longleftrightarrow> \<not> player2Turn w')
       \<and> (\<exists>r v. playCard1 R w' (playerId P) = Some (r, v))
       \<and> (\<exists>r v. playCard2 R w' (playerId P) (playerId Q) g = Some (r, v))"
proof -
  have "distinct (map cardId (stock R P Q w))"
    using hands_distinct [OF assms(1)] game_rel_hands [OF assms(1)] assms(3-5)
    by (simp add: stock_def pending_def)
  then have "table_ok R ok g P Q w"
    using assms(1-3) game_rel_hands [OF assms(1)] by (simp add: table_ok_def)
  then have ok: "table_ok R ok g P Q w'" using plays_ok [OF assms(6)] by blast
  then have "distinct (map cardId (stock R P Q w'))" "player1Turn w' \<longleftrightarrow> \<not> player2Turn w'"
    unfolding table_ok_def by blast+
  then show ?thesis
    using playCard1_ok [OF ok] playCard2_ok [OF ok] unfolding stock_def by blast
qed

lemma example_start: "player1Turn example_war" "\<not> player2Turn example_war"
  by (simp_all add: example_war_def CardsService_def)

lemma example_play:
  "\<exists>r w. playCard1 table_repositories example_war (playerId alice) = Some (r, w) \<and> player2Turn w"
  using example_rel example_start
  by (auto simp: playCard1_def play_next_hand game_rel_def)

theorem plays_safe_witness:
  "\<exists>w. (plays table_repositories 1 alice bob)\<^sup>*\<^sup>* example_war w \<and> player2Turn w \<and>
     distinct (map cardId (player1CapturedCards w @ player2CapturedCards w @ pending w @
       hand table_repositories (db w) 1 @ hand table_repositories (db w) 2))"
proof -
  obtain r w where w: "playCard1 table_repositories example_war (playerId alice) = Some (r, w)" "player2Turn w"
    using example_play by blast
  then have "(plays table_repositories 1 alice bob)\<^sup>*\<^sup>* example_war w"
    by (intro r_into_rtranclp plays.first)
  with w plays_safe [OF example_rel example_start example_piles this]
  show ?thesis unfolding example_ids by blast
qed

section \<open>Dealing the deck\<close>

fun dealt :: "PlayersEntity option \<Rightarrow> int \<Rightarrow> CardsEntity list \<Rightarrow> CardsEntity list" where
  "dealt p i [] = []"
| "dealt p i (c # cs) = c\<lparr>dealOrder := i, players := p\<rparr> # dealt p (i + 1) cs"

lemma dealt_ids [simp]: "map cardId (dealt p i cs) = map cardId cs"
  by (induction cs arbitrary: i) auto

lemma dealt_id_set: "cardId ` set (dealt p i cs) = cardId ` set cs"
  by (metis dealt_ids set_map)

lemma dealt_owned: "d \<in> set (dealt (Some P) i cs) \<Longrightarrow> owned q d \<longleftrightarrow> playerId P = q"
  by (induction cs arbitrary: i) (auto simp: owned_def)

lemma dealt_bound: "d \<in> set (dealt p i cs) \<Longrightarrow> i \<le> dealOrder d"
  by (induction cs arbitrary: i) (simp, fastforce)

lemma dealt_sorted: "sorted (map dealOrder (dealt p i cs))" "distinct (map dealOrder (dealt p i cs))"
proof (induction cs arbitrary: i)
  case (Cons c cs)
  case 1
  show ?case using Cons(1) [of "i + 1"] dealt_bound [of _ p "i + 1" cs] by fastforce
  case 2
  show ?case using Cons(2) [of "i + 1"] dealt_bound [of _ p "i + 1" cs] by fastforce
qed simp_all

definition rows :: "CardsEntity list \<Rightarrow> CardsEntity list \<Rightarrow> CardsEntity multiset" where
  "rows ds xs = mset ds + mset (filter (\<lambda>x. cardId x \<notin> cardId ` set ds) xs)"

lemma rows_put:
  assumes "distinct (map cardId xs)" "cardId d \<in> cardId ` set xs" "cardId d \<notin> cardId ` set ds"
    and "mset ys = mset (map (put d) xs)"
  shows "rows ds ys = rows (d # ds) xs"
proof -
  have "mset (filter (\<lambda>x. cardId x \<notin> cardId ` set ds) ys) =
      filter_mset (\<lambda>x. cardId x \<notin> cardId ` set ds) (mset (filter (\<lambda>x. cardId x \<noteq> cardId d) xs @ [d]))"
    unfolding mset_filter assms(4) moved_row [OF assms(1,2)] ..
  also have "\<dots> = {#d#} + mset (filter (\<lambda>x. cardId x \<notin> cardId ` set (d # ds)) xs)"
    using assms(3) by (auto simp: filter_filter_mset intro: filter_mset_cong)
  finally show ?thesis by (simp add: rows_def)
qed

lemma deal_loop_rows:
  assumes laws: "cards_laws R ok" and "ok s" "distinct (map cardId cs)" "cardId ` set cs \<subseteq> cardId ` set (findAll R s)"
    and "find_player R s (playerId P) \<noteq> None"
  shows "\<exists>s'. deal_loop R (Some P) i cs s = (dealt (Some P) i cs, s') \<and> ok s' \<and>
      mset (findAll R s') = rows (dealt (Some P) i cs) (findAll R s) \<and>
      findPlayerBySessionId R s' = findPlayerBySessionId R s"
  using assms(2-5)
proof (induction cs arbitrary: i s)
  case Nil
  then show ?case by (simp add: rows_def)
next
  case (Cons c cs)
  let ?c = "c\<lparr>dealOrder := i, players := Some P\<rparr>"
  have id: "cardId ?c \<in> cardId ` set (findAll R s)" using Cons.prems by simp
  have rc: "refers R s ?c" using Cons.prems(4) by (simp add: refers_def)
  note sv = laws_save [OF laws Cons.prems(1) id rc]
  have "mset (map cardId (findAll R (save_card R s ?c))) = mset (map cardId (findAll R s))"
    unfolding mset_map sv(2) unfolding mset_map [symmetric] map_put_ids ..
  then have "cardId ` set (findAll R (save_card R s ?c)) = cardId ` set (findAll R s)"
    using mset_eq_setD by fastforce
  then have "cardId ` set cs \<subseteq> cardId ` set (findAll R (save_card R s ?c))" using Cons.prems(3) by simp
  moreover have "distinct (map cardId cs)" "find_player R (save_card R s ?c) (playerId P) \<noteq> None"
    using Cons.prems(2,4) sv(3) by simp_all
  ultimately obtain s' where s': "deal_loop R (Some P) (i + 1) cs (save_card R s ?c) = (dealt (Some P) (i + 1) cs, s')" "ok s'"
    "mset (findAll R s') = rows (dealt (Some P) (i + 1) cs) (findAll R (save_card R s ?c))"
    "findPlayerBySessionId R s' = findPlayerBySessionId R (save_card R s ?c)"
    using Cons.IH [OF sv(1), of "i + 1"] by blast
  have "cardId ?c \<notin> cardId ` set (dealt (Some P) (i + 1) cs)"
    using Cons.prems(2) by (simp add: dealt_id_set)
  then have "rows (dealt (Some P) (i + 1) cs) (findAll R (save_card R s ?c)) = rows (dealt (Some P) i (c # cs)) (findAll R s)"
    using rows_put [OF laws_ids [OF laws Cons.prems(1)] id _ sv(2)] by simp
  with s' sv(4) show ?case by simp
qed

text \<open>The rows of one owner, when they are cards dealt in increasing order.\<close>

lemma owner_query:
  assumes laws: "cards_laws R ok" and s: "ok s" and m: "filter_mset (owned p) (mset (findAll R s)) = mset D"
    and D: "D = filter f (dealt (Some P) i cs)"
  shows "findCardsByPlayer R s p = D"
proof (rule sorted_unique)
  have "distinct (map dealOrder D)" unfolding D by (rule distinct_map_filter [OF dealt_sorted(2)])
  then show "distinct (map dealOrder (findCardsByPlayer R s p))"
    using laws_query(1) [OF laws s, of p] m by (metis mset_filter mset_map mset_eq_imp_distinct_iff)
  show "mset (findCardsByPlayer R s p) = mset D" using laws_query(1) [OF laws s, of p] m by simp
  show "sorted (map dealOrder (findCardsByPlayer R s p))" using laws_query(2) [OF laws s] .
  show "sorted (map dealOrder D)" unfolding D by (rule sorted_filter [OF dealt_sorted(1)])
qed

text \<open>The rows of either player after two deals that may overlap.\<close>

lemma rows_twice:
  assumes D1: "D1 = dealt (Some P) 0 cs" and D2: "D2 = dealt (Some Q) 0 ds" and ne: "playerId P \<noteq> playerId Q"
    and ys: "mset ys = rows D1 xs" and zs: "mset zs = rows D2 ys"
    and free: "\<forall>c \<in> set xs. \<not> owned (playerId P) c \<and> \<not> owned (playerId Q) c"
  shows "filter_mset (owned (playerId Q)) (mset zs) = mset D2"
    and "filter_mset (owned (playerId P)) (mset zs) = mset (filter (\<lambda>c. cardId c \<notin> cardId ` set D2) D1)"
proof -
  define g :: "CardsEntity \<Rightarrow> bool" where "g = (\<lambda>c. cardId c \<notin> cardId ` set D2)"
  define f :: "CardsEntity \<Rightarrow> bool" where "f = (\<lambda>c. cardId c \<notin> cardId ` set D1)"
  have z: "mset zs = mset D2 + mset (filter g D1) + mset (filter g (filter f xs))"
    unfolding zs rows_def g_def [symmetric] mset_filter [of g ys] ys unfolding rows_def f_def [symmetric]
    by (simp add: add.assoc flip: mset_filter)
  have "filter (owned (playerId Q)) D2 = D2" "filter (owned (playerId P)) D2 = []"
    "filter (owned (playerId Q)) (filter g D1) = []"
    using ne by (auto simp: D1 D2 dealt_owned filter_id_conv filter_empty_conv)
  moreover have "filter (owned (playerId P)) (filter g D1) = filter g D1"
    unfolding filter_filter by (rule filter_cong [OF refl]) (simp add: D1 dealt_owned)
  moreover have "filter (owned (playerId P)) (filter g (filter f xs)) = []"
    "filter (owned (playerId Q)) (filter g (filter f xs)) = []"
    using free by (auto simp: filter_empty_conv)
  ultimately show "filter_mset (owned (playerId Q)) (mset zs) = mset D2"
    "filter_mset (owned (playerId P)) (mset zs) = mset (filter (\<lambda>c. cardId c \<notin> cardId ` set D2) D1)"
    unfolding z filter_union_mset mset_filter [symmetric] by (simp_all add: g_def)
qed

lemma rows_ids:
  assumes "mset ys = rows ds xs" "distinct (map cardId xs)" "distinct (map cardId ds)" "cardId ` set ds \<subseteq> cardId ` set xs"
  shows "ids ys = ids xs"
proof -
  let ?zs = "ds @ filter (\<lambda>x. cardId x \<notin> cardId ` set ds) xs"
  have "mset ys = mset ?zs" using assms(1) by (simp add: rows_def)
  then have "ids ys = ids ?zs" unfolding mset_map by (rule arg_cong)
  moreover have "distinct (map cardId ?zs)" using assms(2,3) by (auto simp: distinct_map_filter) (metis image_eqI)
  moreover have "set (map cardId ?zs) = set (map cardId xs)" using assms(4) by auto
  ultimately show ?thesis using assms(2) set_eq_iff_mset_eq_distinct by metis
qed


lemma deals_core:
  assumes laws: "cards_laws R ok" and s: "ok (db w)" and sh: "\<forall>cs. mset (shuffle cs) = mset cs"
    and P: "findPlayerBySessionId R (db w) s1 = Some P" and Q: "findPlayerBySessionId R (db w) s2 = Some Q"
    and ne: "playerId P \<noteq> playerId Q"
    and free: "\<forall>c \<in> set (findAll R (db w)). \<not> owned (playerId P) c \<and> \<not> owned (playerId Q) c"
    and r1: "dealCards1 R shuffle w s1 = (r1, w1)" and r2: "dealCards2 R shuffle w1 s2 = (r2, w2)"
    and n: "n = length (findAll R (db w)) div 2"
  shows "deal_loop R (Some P) 0 (shuffle (take n (findAll R (db w)))) (db w) = (deal_cards r1, db w1)"
    and "ids (deal_cards r1) = ids (take n (findAll R (db w)))"
    and "ids (deal_cards r2) = ids (drop n (findAll R (db w1)))"
    and "ids (findAll R (db w1)) = ids (findAll R (db w))"
    and "findCardsByPlayer R (db w2) (playerId Q) = deal_cards r2"
    and "findCardsByPlayer R (db w2) (playerId P) =
           filter (\<lambda>c. cardId c \<notin> cardId ` set (deal_cards r2)) (deal_cards r1)"
proof -
  let ?all = "findAll R (db w)"
  have shs: "set (shuffle cs) = set cs" "ids (shuffle cs) = ids cs" for cs
    using sh mset_eq_setD by (blast, simp)
  have part: "distinct (map cardId (shuffle (take n xs)))" "distinct (map cardId (shuffle (drop n xs)))"
    if "distinct (map cardId xs)" for xs
    using that shs(2) mset_eq_imp_distinct_iff by (metis append_take_drop_id distinct_append map_append)+
  let ?D1 = "dealt (Some P) 0 (shuffle (take n ?all))"
  obtain s' where s': "deal_loop R (Some P) 0 (shuffle (take n ?all)) (db w) = (?D1, s')"
    "ok s'" "mset (findAll R s') = rows ?D1 ?all" "findPlayerBySessionId R s' = findPlayerBySessionId R (db w)"
    using deal_loop_rows [OF laws s part(1) [OF laws_ids [OF laws s]] _ laws_session [OF laws s P]]
      shs(1) set_take_subset [of n ?all] by (metis image_mono)
  let ?D2 = "dealt (Some Q) 0 (shuffle (drop n (findAll R s')))"
  have Q': "find_player R s' (playerId Q) \<noteq> None" using laws_session [OF laws s'(2), of s2 Q] s'(4) Q by simp
  obtain s'' where s'': "deal_loop R (Some Q) 0 (shuffle (drop n (findAll R s'))) s' = (?D2, s'')"
    "ok s''" "mset (findAll R s'') = rows ?D2 (findAll R s')"
    using deal_loop_rows [OF laws s'(2) part(2) [OF laws_ids [OF laws s'(2)]] _ Q']
      shs(1) set_drop_subset [of n "findAll R s'"] by (metis image_mono)
  have i1: "ids (findAll R s') = ids ?all"
    using rows_ids [OF s'(3) laws_ids [OF laws s]] part(1) [OF laws_ids [OF laws s]] shs(1) set_take_subset [of n ?all]
    by (simp add: dealt_id_set image_mono del: mset_map)
  have len: "length (findAll R s') = length ?all" using arg_cong [OF i1, of size] by simp
  have e1: "deal_cards r1 = ?D1" "db w1 = s'"
    using r1 s'(1) P by (auto simp: dealCards1_def n Let_def)
  have e2: "deal_cards r2 = ?D2" "db w2 = s''"
    using r2 s''(1) Q s'(4) len by (auto simp: dealCards2_def e1(2) n Let_def)
  show "deal_loop R (Some P) 0 (shuffle (take n ?all)) (db w) = (deal_cards r1, db w1)" unfolding e1 using s'(1) .
  show "ids (deal_cards r1) = ids (take n ?all)" "ids (deal_cards r2) = ids (drop n (findAll R (db w1)))"
    unfolding e1 e2 dealt_ids by (rule shs(2))+
  show "ids (findAll R (db w1)) = ids ?all" unfolding e1 by (rule i1)
  note rows = rows_twice [OF refl refl ne s'(3) s''(3) free]
  show "findCardsByPlayer R (db w2) (playerId Q) = deal_cards r2"
    unfolding e2 by (rule owner_query [OF laws s''(2) rows(1), where f = "\<lambda>_. True"]) simp
  show "findCardsByPlayer R (db w2) (playerId P) = filter (\<lambda>c. cardId c \<notin> cardId ` set (deal_cards r2)) (deal_cards r1)"
    unfolding e1 e2 by (rule owner_query [OF laws s''(2) rows(2) refl])
qed

text \<open>Two parts of a deck that have together the size of the deck.\<close>

lemma distinct_sub:
  assumes "mset xs \<subseteq># mset ys" "distinct ys"
  shows "distinct xs"
proof -
  obtain zs where "mset ys = mset (xs @ zs)" using assms(1) by (metis ex_mset mset_append mset_subset_eq_exists_conv)
  then have "distinct (xs @ zs)" using assms(2) mset_eq_imp_distinct_iff by blast
  then show ?thesis by simp
qed

lemma split_iff_disjoint:
  assumes "distinct (map cardId xs)" "ids D1 \<subseteq># ids xs" "ids D2 \<subseteq># ids xs" "length D1 + length D2 = length xs"
  shows "filter (\<lambda>c. cardId c \<notin> cardId ` set D2) D1 = D1 \<longleftrightarrow> ids D1 + ids D2 = ids xs"
proof
  assume "filter (\<lambda>c. cardId c \<notin> cardId ` set D2) D1 = D1"
  then have "set (map cardId D1) \<inter> set (map cardId D2) = {}" by (auto simp: filter_id_conv)
  moreover have "distinct (map cardId D1)" "distinct (map cardId D2)"
    using distinct_sub [OF assms(2,1)] distinct_sub [OF assms(3,1)] by blast+
  ultimately have d: "distinct (map cardId (D1 @ D2))" by simp
  have "set (map cardId (D1 @ D2)) \<subseteq> set (map cardId xs)"
    using set_mset_mono [OF assms(2)] set_mset_mono [OF assms(3)] by simp
  moreover have "card (set (map cardId (D1 @ D2))) = card (set (map cardId xs))"
    unfolding distinct_card [OF d] distinct_card [OF assms(1)] using assms(4) by simp
  ultimately have "set (map cardId (D1 @ D2)) = set (map cardId xs)" by (intro card_subset_eq) simp_all
  then have "ids (D1 @ D2) = ids xs" using d assms(1) set_eq_iff_mset_eq_distinct by blast
  then show "ids D1 + ids D2 = ids xs" by simp
next
  assume "ids D1 + ids D2 = ids xs"
  then have "ids (D1 @ D2) = ids xs" by simp
  then have "distinct (map cardId (D1 @ D2))" using assms(1) mset_eq_imp_distinct_iff by blast
  then show "filter (\<lambda>c. cardId c \<notin> cardId ` set D2) D1 = D1" by (auto simp: filter_id_conv)
qed

lemma ids_part: "ids (take n xs) \<subseteq># ids xs" "ids (drop n xs) \<subseteq># ids xs"
proof -
  have "ids xs = ids (take n xs) + ids (drop n xs)" by (metis append_take_drop_id map_append mset_append)
  then show "ids (take n xs) \<subseteq># ids xs" "ids (drop n xs) \<subseteq># ids xs" by simp_all
qed

text \<open>
  C39. What the two deals do, in whatever order the database lists the cards, for two players who
  have no cards yet. The first deal takes the first half of the cards; the second deal takes the
  second half of the cards as they are listed then. The later queries return to the second player
  exactly the cards of the second response, in the order dealt, and to the first player exactly
  those of the first response that were not dealt again, in the order dealt. So the first
  player keeps all of them exactly when the two deals together are the whole deck.
\<close>
theorem deals_exact:
  assumes laws: "cards_laws R ok" and s: "ok (db w)" and sh: "\<forall>cs. mset (shuffle cs) = mset cs"
    and P: "findPlayerBySessionId R (db w) s1 = Some P" and Q: "findPlayerBySessionId R (db w) s2 = Some Q"
    and ne: "playerId P \<noteq> playerId Q"
    and free: "\<forall>c \<in> set (findAll R (db w)). \<not> owned (playerId P) c \<and> \<not> owned (playerId Q) c"
    and r1: "dealCards1 R shuffle w s1 = (r1, w1)" and r2: "dealCards2 R shuffle w1 s2 = (r2, w2)"
    and n: "n = length (findAll R (db w)) div 2"
  shows "ids (deal_cards r1) = ids (take n (findAll R (db w))) \<and>
    ids (deal_cards r2) = ids (drop n (findAll R (db w1))) \<and>
    findCardsByPlayer R (db w2) (playerId Q) = deal_cards r2 \<and>
    findCardsByPlayer R (db w2) (playerId P) =
      filter (\<lambda>c. cardId c \<notin> cardId ` set (deal_cards r2)) (deal_cards r1) \<and>
    (findCardsByPlayer R (db w2) (playerId P) = deal_cards r1 \<longleftrightarrow>
      ids (deal_cards r1) + ids (deal_cards r2) = ids (findAll R (db w)))"
proof -
  note c = deals_core [OF assms]
  have len: "length (deal_cards r1) + length (deal_cards r2) = length (findAll R (db w))"
    using arg_cong [OF c(2), of size] arg_cong [OF c(3), of size] arg_cong [OF c(4), of size] n by simp
  have sub: "ids (deal_cards r1) \<subseteq># ids (findAll R (db w))" "ids (deal_cards r2) \<subseteq># ids (findAll R (db w))"
    using ids_part(1) [of n "findAll R (db w)"] ids_part(2) [of n "findAll R (db w1)"]
    unfolding c(2) c(3) c(4) by simp_all
  show ?thesis
    using c(2,3,5,6) split_iff_disjoint [OF laws_ids [OF laws s] sub len] by simp
qed

definition example_deck :: "tables service" where
  "example_deck = CardsService
     \<lparr>t_cards = map (\<lambda>i. example_card None i i) [1, 2, 3, 4], t_players = [alice, bob], t_games = []\<rparr>"

lemma example_deck_facts:
  "tables_ok (db example_deck)"
  "findPlayerBySessionId table_repositories (db example_deck) ''s1'' = Some alice"
  "findPlayerBySessionId table_repositories (db example_deck) ''s2'' = Some bob"
  "findAll table_repositories (db example_deck) = map (\<lambda>i. example_card None i i) [1, 2, 3, 4]"
  "\<forall>c \<in> set (findAll table_repositories (db example_deck)). \<not> owned (playerId alice) c \<and> \<not> owned (playerId bob) c"
  by (simp_all add: tables_ok_def known_player_def owned_def example_deck_def CardsService_def example_card_def
      table_repositories_def alice_def bob_def)

theorem deals_exact_witness:
  "let (r1, w1) = dealCards1 table_repositories rev example_deck ''s1'';
       (r2, w2) = dealCards2 table_repositories rev w1 ''s2''
   in findCardsByPlayer table_repositories (db w2) 2 = deal_cards r2 \<and> ids (deal_cards r1) = {#1, 2#}"
proof -
  obtain r1 w1 where 1: "dealCards1 table_repositories rev example_deck ''s1'' = (r1, w1)" by fastforce
  obtain r2 w2 where 2: "dealCards2 table_repositories rev w1 ''s2'' = (r2, w2)" by fastforce
  have ne: "playerId alice \<noteq> playerId bob" by (simp add: example_ids)
  have sh: "\<forall>cs. mset (rev cs) = mset cs" by simp
  show ?thesis
    using deals_exact [OF table_laws example_deck_facts(1) sh example_deck_facts(2,3) ne example_deck_facts(5) 1 2 refl] 1 2
    by (simp add: example_ids example_card_def example_deck_facts(4))
qed

text \<open>A deal from a table that lists saved rows last leaves the cards dealt at the end.\<close>

lemma moving_deal:
  assumes "distinct (map cardId cs)" "deal_loop moving_repositories p i cs s = (ds, s')"
  shows "map cardId (t_cards s') = filter (\<lambda>x. x \<notin> cardId ` set cs) (map cardId (t_cards s)) @ map cardId cs"
  using assms
proof (induction cs arbitrary: i s ds)
  case (Cons c cs)
  let ?c = "c\<lparr>dealOrder := i, players := p\<rparr>"
  obtain ds' where "deal_loop moving_repositories p (i + 1) cs (save_card moving_repositories s ?c) = (ds', s')"
    using Cons.prems(2) by (auto simp: Let_def split: prod.splits)
  then have "map cardId (t_cards s') =
      filter (\<lambda>x. x \<notin> cardId ` set cs) (map cardId (t_cards (save_card moving_repositories s ?c))) @ map cardId cs"
    using Cons.IH Cons.prems(1) by auto
  also have "t_cards (save_card moving_repositories s ?c) = filter (\<lambda>d. cardId d \<noteq> cardId c) (t_cards s) @ [?c]"
    by (simp add: moving_repositories_def)
  finally show ?case using Cons.prems(1) by (simp add: filter_map comp_def conj_commute)
qed (auto simp: filter_id_conv)

lemma filter_not_take: "distinct xs \<Longrightarrow> filter (\<lambda>x. x \<notin> set (take n xs)) xs = drop n xs"
proof (induction xs arbitrary: n)
  case (Cons x xs)
  then show ?case by (cases n) (auto simp: filter_id_conv intro: filter_cong [OF refl, THEN trans])
qed simp

text \<open>
  C40. Nothing that the repositories promise makes the two deals split the deck. The order of a query
  without ORDER BY is not specified, and with repositories that satisfy every law but list a
  saved row last, the deals overlap for every deck and every shuffle: the second deal takes all
  the cards of the first, and the last card of the deck if their number is odd, and the first
  player is left without cards.
\<close>
theorem deals_overlap:
  assumes s: "tables_ok (db w)" and sh: "\<forall>cs. mset (shuffle cs) = mset cs"
    and P: "findPlayerBySessionId moving_repositories (db w) s1 = Some P"
    and Q: "findPlayerBySessionId moving_repositories (db w) s2 = Some Q" and ne: "playerId P \<noteq> playerId Q"
    and free: "\<forall>c \<in> set (findAll moving_repositories (db w)). \<not> owned (playerId P) c \<and> \<not> owned (playerId Q) c"
    and r1: "dealCards1 moving_repositories shuffle w s1 = (r1, w1)"
    and r2: "dealCards2 moving_repositories shuffle w1 s2 = (r2, w2)"
    and n: "n = length (findAll moving_repositories (db w)) div 2"
  shows "cards_laws moving_repositories tables_ok \<and>
    ids (deal_cards r1) = ids (take n (findAll moving_repositories (db w))) \<and>
    ids (deal_cards r2) = ids (deal_cards r1) + ids (drop (2 * n) (findAll moving_repositories (db w))) \<and>
    findCardsByPlayer moving_repositories (db w2) (playerId P) = [] \<and>
    findCardsByPlayer moving_repositories (db w2) (playerId Q) = deal_cards r2"
proof -
  note c = deals_core [OF moving_laws s sh P Q ne free r1 r2 n]
  have f: "findAll moving_repositories = t_cards" by (simp add: moving_repositories_def table_repositories_def)
  let ?xs = "t_cards (db w)" and ?cs = "shuffle (take n (t_cards (db w)))"
  have shs: "ids ?cs = ids (take n ?xs)" "cardId ` set ?cs = cardId ` set (take n ?xs)"
    using sh mset_eq_setD [OF sh [rule_format, of "take n ?xs"]] by simp_all
  have d: "distinct (map cardId ?xs)" using s by (simp add: tables_ok_def)
  then have "distinct (map cardId ?cs)"
    using shs(1) mset_eq_imp_distinct_iff by (metis append_take_drop_id distinct_append map_append)
  from moving_deal [OF this c(1) [unfolded f]]
  have m: "map cardId (t_cards (db w1)) = drop n (map cardId ?xs) @ map cardId ?cs"
    using filter_not_take [OF d, of n] unfolding shs(2) by (simp add: take_map)
  have "n \<le> length ?xs - n" using n unfolding f by simp
  then have "map cardId (drop n (t_cards (db w1))) = map cardId (drop (2 * n) ?xs) @ map cardId ?cs"
    unfolding drop_map [symmetric] m by (simp add: mult_2)
  then have i: "ids (deal_cards r2) = ids (deal_cards r1) + ids (drop (2 * n) ?xs)"
    unfolding c(2,3) f using shs(1) by (simp add: add.commute)
  then have "set_mset (ids (deal_cards r1)) \<subseteq> set_mset (ids (deal_cards r2))" by simp
  then have "filter (\<lambda>c. cardId c \<notin> cardId ` set (deal_cards r2)) (deal_cards r1) = []"
    by (auto simp: filter_empty_conv)
  then show ?thesis using c(2,5,6) i moving_laws unfolding f by simp
qed

theorem deals_overlap_witness:
  "let (r1, w1) = dealCards1 moving_repositories rev example_deck ''s1'';
       (r2, w2) = dealCards2 moving_repositories rev w1 ''s2''
   in ids (deal_cards r2) = {#1, 2#} \<and> findCardsByPlayer moving_repositories (db w2) 1 = []"
proof -
  obtain r1 w1 where 1: "dealCards1 moving_repositories rev example_deck ''s1'' = (r1, w1)" by fastforce
  obtain r2 w2 where 2: "dealCards2 moving_repositories rev w1 ''s2'' = (r2, w2)" by fastforce
  have f: "findAll moving_repositories = findAll table_repositories" by (simp add: moving_repositories_def)
  have ne: "playerId alice \<noteq> playerId bob" by (simp add: example_ids)
  have sh: "\<forall>cs. mset (rev cs) = mset cs" by simp
  show ?thesis
    using deals_overlap [OF example_deck_facts(1) sh example_deck_facts(2,3) [folded moving_same] ne
        example_deck_facts(5) [folded f] 1 2 refl] 1 2
    by (simp add: f example_ids example_card_def example_deck_facts(4))
qed

end
