(* ===== verification/Spec2Isabelle.thy ===== *)
theory Spec2Isabelle
  imports Util_Numbers Intset Listpack_Spec Bitops Sds Dict_Scan Siphash Adlist War_Game_Spec
begin

text \<open>
  \<^bold>\<open>A verification of the card game service and of the Redis data structures in this repository.\<close>

  The repository holds a card game, a Java service (\<open>src/warcardgame\<close>), and the Redis 7.2.4
  sources (\<open>src/redis-7.2.4\<close>). This development models both.

  Of Redis it models, byte for byte where the code works on bytes, the structures on which the server
  builds its data types: numbers and their decimal strings (\<open>util.c\<close>), sorted integer sets
  (\<open>intset.c\<close>), packed lists (\<open>listpack.c\<close>), bit operations (\<open>bitops.c\<close>), dynamic strings
  (\<open>sds.c\<close>), hash tables (\<open>dict.c\<close>), the hash function of their keys (\<open>siphash.c\<close>) and linked lists
  (\<open>adlist.c\<close>). The parts meet in the server as follows: commands hold their arguments as
  dynamic strings; the keyspace and the large sets and hashes are hash tables keyed by such
  strings through the hash function; small sets of integers are intsets; small lists, hashes and
  sorted sets are listpacks, which store a string as an integer when it is a canonical decimal
  number; bit commands work on the bytes of a string; clients, replies and jobs are kept in
  linked lists.

  Of the card game it models the services and the message handlers. The players create and join a
  game, are dealt the two halves of the deck and play a card in turn; a round gives the two cards
  to the higher one, and equal cards start a war.

  \<^bold>\<open>Conventions\<close> (theory \<open>Redis_Prelude\<close>). A memory block is a list of bytes and a pointer
  into it an offset. A result \<open>None\<close> of the outermost option type stands for a failed
  assertion, an access outside of the block or an exception; NULL is an inner \<open>None\<close>. So a theorem
  \<open>f x = Some y\<close> also says that the code stays in bounds and fails no assertion. Unsigned
  counters are natural numbers with the wrap-around written out (\<open>wadd\<close>, \<open>wsub\<close>) where the C type
  can wrap; values that the code treats bitwise are machine words. What comes from outside of
  the program is an argument: the contents of fresh memory (\<open>junk\<close>), the usable size that the
  allocator returns (\<open>us\<close>, at least what was asked for), the address of a new node, the value
  of \<open>rand()\<close>, the hash function and the callbacks of a dictionary, the address of a buffer where
  its alignment matters, the repositories of the card game and its shuffle.

  \<^bold>\<open>Interfaces\<close> (theory \<open>Redis_Interfaces\<close>). Three locales state what a client may rely on: an
  encoding of a finite set of integers (interpreted by the intset), of a sequence of byte strings
  (interpreted by the listpack) and of a finite map (interpreted by the hash table). Each proves once
  that any sequence of operations runs without failure and answers as the abstract type
  does; the properties \<open>intset_refines_set\<close>, \<open>listpack_append_read\<close> and \<open>dict_refines_map\<close> are
  their instances for the code.

  \<^bold>\<open>Theories.\<close>

  \<^item> \<open>Util_Numbers\<close>: \<open>digits10\<close>, \<open>ll2string\<close>, \<open>string2ll\<close> and helpers of \<open>util.c\<close>. The parser accepts
    exactly the canonical representations; the printer writes them, within the buffer.
  \<^item> \<open>Intset\<close>: all of \<open>intset.c\<close>: encodings, binary search, upgrade, insertion, removal and the
    validator of untrusted blobs. The refinement assumes fewer than 2 ^ 29 elements; one property
    exhibits what happens when the byte count of a move wraps at 32 bits.
  \<^item> \<open>Listpack\<close> (definitions), \<open>Listpack_Entries\<close> (encoding of an entry), \<open>Listpack_Blocks\<close> (the
    block as a list of entries, traversal), \<open>Listpack_Insert\<close> (insertion, deletion),
    \<open>Listpack_Validate\<close> (validation of untrusted bytes) and \<open>Listpack_Spec\<close> (the properties).
  \<^item> \<open>Bitops\<close>: \<open>redisPopcount\<close>, \<open>redisBitpos\<close> and the bit field functions of \<open>bitops.c\<close>, equal to
    their definitions bit by bit, and the overflow checks, which detect exactly the sums that do not
    fit and store the right limit, at every width.
  \<^item> \<open>Sds\<close>: headers, growth and the operations of \<open>sds.c\<close>; every operation keeps header,
    allocation and terminator consistent; quoting and parsing are inverse; splitting cuts a string at
    its leftmost separators, and joining undoes it.
  \<^item> \<open>Dict\<close>: the two tables of \<open>dict.c\<close> with growth and incremental rehashing. Rehashing keeps the
    invariant and the map at every step, and completes. A table is a list of chains; the
    pointers between entries are not modelled.
  \<^item> \<open>Dict_Scan\<close>: the scan of \<open>dict.c\<close> with a cursor whose bits are incremented in reverse. A whole
    scan ends, and returns every key that is present throughout, whatever resizing and rehashing
    happens between its calls.
  \<^item> \<open>Siphash\<close>: both hash functions of \<open>siphash.c\<close>; the case-insensitive one is the plain one on
    the lower-case input.
  \<^item> \<open>Adlist\<close>: the operations of \<open>adlist.c\<close> on an explicit heap of nodes. Sequences of operations
    refine lists; duplication and joining are lemmas on the same representation.
  \<^item> \<open>War_Game\<close> (the state and the handlers of \<open>CardsService.java\<close>, \<open>GameService.java\<close>,
    \<open>PlayerService.java\<close> and \<open>GameController.java\<close>), \<open>War_Game_Rounds\<close> (the laws of the
    repositories, hands, wars, the invariant of the table) and \<open>War_Game_Spec\<close> (the properties):
    the exact outcome of a war, the safety of any order of calls, the exact effect of the two deals
    whatever the order of the cards in the database, and two defects: tied wars lose cards, and
    nothing that the repositories promise keeps the two deals from overlapping.

  \<^bold>\<open>Loops and termination.\<close> Loops are structural recursion or have a termination proof; those whose
  exit depends on untrusted bytes, on pointers or on the database are partial functions into
  the option type, and their properties state that they return. No fuel is used.

  \<^bold>\<open>Not modelled.\<close> Of Redis: the event loop, networking, persistence, replication, cluster, scripting
  and command handlers (input and output around these structures); the remaining structures
  (quicklist, radix tree, skip list); formatting through the C library, random selection and
  iterators of the hash table; the bundled third-party libraries. Of the card game: the
  framework's repositories and messaging, its configuration and pages, and the older version in
  \<open>src/WardCardGame2\<close>.
\<close>

end
